theory Spec2Isabelle
  imports Main "HOL-Library.AList" "HOL-Library.Monad_Syntax"
begin

section \<open>Containers and integer conversions of the C++ source\<close>

text \<open>
  A \<^verbatim>\<open>std::unordered_map<K, V>\<close> is an association list read through \<open>map_of\<close>:
  \<open>umap_find\<close> is \<^verbatim>\<open>find\<close>, \<open>umap_assign\<close> is \<^verbatim>\<open>m[k] = v\<close>, \<open>umap_erase\<close> is
  \<^verbatim>\<open>erase(k)\<close>, \<open>umap_size\<close> is \<^verbatim>\<open>size()\<close> (the number of distinct keys) and \<open>umap_keys\<close>
  is the order in which a range-for visits the keys. C++ leaves that order unspecified;
  the model visits the keys in the order of their first insertion.
\<close>

type_synonym ('k, 'v) umap = "('k \<times> 'v) list"

definition umap_find :: "('k, 'v) umap \<Rightarrow> 'k \<Rightarrow> 'v option" where
  "umap_find m k = map_of m k"

definition umap_assign :: "'k \<Rightarrow> 'v \<Rightarrow> ('k, 'v) umap \<Rightarrow> ('k, 'v) umap" where
  "umap_assign k v m = AList.update k v m"

definition umap_erase :: "'k \<Rightarrow> ('k, 'v) umap \<Rightarrow> ('k, 'v) umap" where
  "umap_erase k m = AList.delete k m"

definition umap_keys :: "('k, 'v) umap \<Rightarrow> 'k list" where
  "umap_keys m = remdups (map fst m)"

definition umap_size :: "('k, 'v) umap \<Rightarrow> nat" where
  "umap_size m = length (umap_keys m)"

text \<open>
  The implicit conversion of an \<^verbatim>\<open>int\<close> to \<^verbatim>\<open>size_t\<close> (64 bits) in a mixed comparison or
  division, and the conversion of a \<^verbatim>\<open>size_t\<close> back to a 32-bit \<^verbatim>\<open>int\<close>. The \<^verbatim>\<open>int\<close>
  fields themselves are unbounded integers (signed overflow is undefined in C++) and
  the \<^verbatim>\<open>size_t\<close> counters are natural numbers: a wrap-around needs more than \<open>2 ^ 31\<close>
  accesses to one entry, or \<open>2 ^ 64\<close> entries, and no run considered here comes near it.
\<close>

definition to_size_t :: "int \<Rightarrow> nat" where
  "to_size_t i = nat (i mod 2 ^ 64)"

definition to_int :: "nat \<Rightarrow> int" where
  "to_int n = (let w = int n mod 2 ^ 32 in if w < 2 ^ 31 then w else w - 2 ^ 32)"

section \<open>KLruCache (KLruCache.h)\<close>

text \<open>
  A node is identified by its key: \<open>lru_nodeMap\<close> holds the contents of the node that
  \<^verbatim>\<open>nodeMap_\<close> maps the key to, and \<open>lru_list\<close> is the chain of nodes between
  \<^verbatim>\<open>dummyHead_\<close> and \<^verbatim>\<open>dummyTail_\<close>, head first, so the least recent node is the first
  element and \<^verbatim>\<open>insertNode\<close> appends at the end. \<open>lru_dummyKey\<close> is the key \<^verbatim>\<open>Key()\<close>
  stored in the two dummy nodes. KLruCache has no ghost list and never calls
  \<^verbatim>\<open>incrementAccessCount\<close>.
\<close>

record 'v LruNode =
  node_value :: 'v
  node_accessCount :: nat

record ('k, 'v) KLruCache =
  lru_capacity :: int
  lru_nodeMap :: "('k, 'v LruNode) umap"
  lru_list :: "'k list"
  lru_dummyKey :: 'k

definition KLruCache_init :: "int \<Rightarrow> 'k \<Rightarrow> ('k, 'v) KLruCache" where
  "KLruCache_init capacity dk =
     \<lparr>lru_capacity = capacity, lru_nodeMap = [], lru_list = [], lru_dummyKey = dk\<rparr>"

text \<open>\<^verbatim>\<open>removeNode\<close> unlinks a linked node and does nothing to a node that is not linked.\<close>

definition KLruCache_removeNode :: "'k \<Rightarrow> ('k, 'v) KLruCache \<Rightarrow> ('k, 'v) KLruCache" where
  "KLruCache_removeNode k s = s\<lparr>lru_list := remove1 k (lru_list s)\<rparr>"

definition KLruCache_insertNode :: "'k \<Rightarrow> ('k, 'v) KLruCache \<Rightarrow> ('k, 'v) KLruCache" where
  "KLruCache_insertNode k s = s\<lparr>lru_list := lru_list s @ [k]\<rparr>"

definition KLruCache_moveToMostRecent :: "'k \<Rightarrow> ('k, 'v) KLruCache \<Rightarrow> ('k, 'v) KLruCache" where
  "KLruCache_moveToMostRecent k s = KLruCache_insertNode k (KLruCache_removeNode k s)"

text \<open>
  \<^verbatim>\<open>evictLeastRecent\<close> takes \<^verbatim>\<open>dummyHead_->next_\<close>. On an empty chain that is
  \<^verbatim>\<open>dummyTail_\<close>: \<^verbatim>\<open>removeNode\<close> leaves it alone (its \<^verbatim>\<open>next_\<close> is null) and the key
  erased from the map is the dummy's.
\<close>

definition KLruCache_evictLeastRecent :: "('k, 'v) KLruCache \<Rightarrow> ('k, 'v) KLruCache" where
  "KLruCache_evictLeastRecent s =
     (case lru_list s of
        [] \<Rightarrow> s\<lparr>lru_nodeMap := umap_erase (lru_dummyKey s) (lru_nodeMap s)\<rparr>
      | leastRecent # _ \<Rightarrow>
          (let s1 = KLruCache_removeNode leastRecent s
           in s1\<lparr>lru_nodeMap := umap_erase leastRecent (lru_nodeMap s1)\<rparr>))"

definition KLruCache_addNewNode :: "'k \<Rightarrow> 'v \<Rightarrow> ('k, 'v) KLruCache \<Rightarrow> ('k, 'v) KLruCache" where
  "KLruCache_addNewNode k v s =
     (let s1 = (if umap_size (lru_nodeMap s) \<ge> to_size_t (lru_capacity s)
                then KLruCache_evictLeastRecent s else s);
          s2 = KLruCache_insertNode k s1
      in s2\<lparr>lru_nodeMap := umap_assign k \<lparr>node_value = v, node_accessCount = 1\<rparr> (lru_nodeMap s2)\<rparr>)"

definition KLruCache_updateExistingNode ::
  "'k \<Rightarrow> 'v LruNode \<Rightarrow> 'v \<Rightarrow> ('k, 'v) KLruCache \<Rightarrow> ('k, 'v) KLruCache" where
  "KLruCache_updateExistingNode k node v s =
     KLruCache_moveToMostRecent k
       (s\<lparr>lru_nodeMap := umap_assign k (node\<lparr>node_value := v\<rparr>) (lru_nodeMap s)\<rparr>)"

definition KLruCache_put :: "('k, 'v) KLruCache \<Rightarrow> 'k \<Rightarrow> 'v \<Rightarrow> ('k, 'v) KLruCache" where
  "KLruCache_put s k v =
     (if lru_capacity s \<le> 0 then s
      else case umap_find (lru_nodeMap s) k of
             Some node \<Rightarrow> KLruCache_updateExistingNode k node v s
           | None \<Rightarrow> KLruCache_addNewNode k v s)"

text \<open>
  \<^verbatim>\<open>bool get(Key, Value&)\<close>: \<open>Some v\<close> is a hit that stores \<open>v\<close> in the out parameter,
  \<open>None\<close> a miss that leaves it alone. \<^verbatim>\<open>Value get(Key)\<close> returns the out parameter,
  which starts as \<^verbatim>\<open>Value{}\<close>.
\<close>

definition KLruCache_get :: "('k, 'v) KLruCache \<Rightarrow> 'k \<Rightarrow> ('k, 'v) KLruCache \<times> 'v option" where
  "KLruCache_get s k =
     (case umap_find (lru_nodeMap s) k of
        Some node \<Rightarrow> (KLruCache_moveToMostRecent k s, Some (node_value node))
      | None \<Rightarrow> (s, None))"

definition KLruCache_remove :: "('k, 'v) KLruCache \<Rightarrow> 'k \<Rightarrow> ('k, 'v) KLruCache" where
  "KLruCache_remove s k =
     (case umap_find (lru_nodeMap s) k of
        Some node \<Rightarrow>
          (let s1 = KLruCache_removeNode k s
           in s1\<lparr>lru_nodeMap := umap_erase k (lru_nodeMap s1)\<rparr>)
      | None \<Rightarrow> s)"

section \<open>KLruKCache (KLruCache.h)\<close>

text \<open>
  \<open>lruk_base\<close> is the base class object (the main cache), \<open>lruk_historyList\<close> the
  \<^verbatim>\<open>KLruCache<Key, size_t>\<close> of access counts, \<open>lruk_historyValueMap\<close> the pending values.
  \<^verbatim>\<open>historyList_->get(key)\<close> is \<^verbatim>\<open>Value get(Key)\<close> at \<^verbatim>\<open>size_t\<close>: a miss reads as 0.
  \<open>KLruKCache_get\<close> is \<^verbatim>\<open>Value get(Key)\<close>; its result \<open>None\<close> stands for the
  value-initialised \<^verbatim>\<open>Value{}\<close> that the source returns when it has nothing to return.
\<close>

record ('k, 'v) KLruKCache =
  lruk_base :: "('k, 'v) KLruCache"
  lruk_k :: int
  lruk_historyList :: "('k, nat) KLruCache"
  lruk_historyValueMap :: "('k, 'v) umap"

definition KLruKCache_init :: "int \<Rightarrow> int \<Rightarrow> int \<Rightarrow> 'k \<Rightarrow> ('k, 'v) KLruKCache" where
  "KLruKCache_init capacity historyCapacity k dk =
     \<lparr>lruk_base = KLruCache_init capacity dk, lruk_k = k,
      lruk_historyList = KLruCache_init historyCapacity dk, lruk_historyValueMap = []\<rparr>"

definition KLruKCache_get :: "('k, 'v) KLruKCache \<Rightarrow> 'k \<Rightarrow> ('k, 'v) KLruKCache \<times> 'v option" where
  "KLruKCache_get s key =
     (let (m1, inMainCache) = KLruCache_get (lruk_base s) key;
          (h1, hc) = KLruCache_get (lruk_historyList s) key;
          historyCount = (case hc of None \<Rightarrow> 0 | Some c \<Rightarrow> c) + 1;
          h2 = KLruCache_put h1 key historyCount;
          s1 = s\<lparr>lruk_base := m1, lruk_historyList := h2\<rparr>
      in case inMainCache of
           Some v \<Rightarrow> (s1, Some v)
         | None \<Rightarrow>
             if historyCount \<ge> to_size_t (lruk_k s) then
               (case umap_find (lruk_historyValueMap s1) key of
                  Some storedValue \<Rightarrow>
                    (s1\<lparr>lruk_historyList := KLruCache_remove h2 key,
                        lruk_historyValueMap := umap_erase key (lruk_historyValueMap s1),
                        lruk_base := KLruCache_put m1 key storedValue\<rparr>,
                     Some storedValue)
                | None \<Rightarrow> (s1, None))
             else (s1, None))"

definition KLruKCache_put :: "('k, 'v) KLruKCache \<Rightarrow> 'k \<Rightarrow> 'v \<Rightarrow> ('k, 'v) KLruKCache" where
  "KLruKCache_put s key v =
     (let (m1, inMainCache) = KLruCache_get (lruk_base s) key
      in case inMainCache of
           Some existingValue \<Rightarrow> s\<lparr>lruk_base := KLruCache_put m1 key v\<rparr>
         | None \<Rightarrow>
             (let (h1, hc) = KLruCache_get (lruk_historyList s) key;
                  historyCount = (case hc of None \<Rightarrow> 0 | Some c \<Rightarrow> c) + 1;
                  h2 = KLruCache_put h1 key historyCount;
                  s1 = s\<lparr>lruk_base := m1, lruk_historyList := h2,
                         lruk_historyValueMap := umap_assign key v (lruk_historyValueMap s)\<rparr>
              in if historyCount \<ge> to_size_t (lruk_k s) then
                   s1\<lparr>lruk_historyList := KLruCache_remove h2 key,
                      lruk_historyValueMap := umap_erase key (lruk_historyValueMap s1),
                      lruk_base := KLruCache_put m1 key v\<rparr>
                 else s1))"

text \<open>
  KLruKCache does not override \<^verbatim>\<open>bool get(Key, Value&)\<close>: through the KICachePolicy
  interface that call is the base class's and probes the main cache only.
\<close>

definition KLruKCache_get_main :: "('k, 'v) KLruKCache \<Rightarrow> 'k \<Rightarrow> ('k, 'v) KLruKCache \<times> 'v option" where
  "KLruKCache_get_main s key =
     (let (m1, r) = KLruCache_get (lruk_base s) key in (s\<lparr>lruk_base := m1\<rparr>, r))"

section \<open>KLfuCache (KLfuCache.h)\<close>

text \<open>
  \<open>lfu_nodeMap\<close> holds the contents of the node of each key, \<open>lfu_freqToFreqList\<close> maps a
  frequency to the chain of its FreqList between \<^verbatim>\<open>head_\<close> and \<^verbatim>\<open>tail_\<close>, head first
  (\<^verbatim>\<open>addNode\<close> appends at the end). A node linked in the list of frequency \<open>f\<close> has
  \<^verbatim>\<open>freq\<close> \<open>f\<close>: the source changes \<^verbatim>\<open>freq\<close> only between \<^verbatim>\<open>removeFromFreqList\<close> and
  \<^verbatim>\<open>addToFreqList\<close>. \<open>lfu_tailKey\<close> is the \<^verbatim>\<open>key\<close> member of the sentinel nodes, which
  \<^verbatim>\<open>Node()\<close> leaves uninitialised; their \<^verbatim>\<open>freq\<close> is 1.

  \<^verbatim>\<open>freqToFreqList_[f]\<close> on a frequency that has no list inserts a null pointer, and the
  member call through it is undefined behaviour: the functions that can come to that
  return \<open>None\<close> there, and \<open>Some\<close> of the new state otherwise.
\<close>

definition INT8_MAX :: int where
  "INT8_MAX = 127"

text \<open>C++ \<^verbatim>\<open>/\<close> on \<^verbatim>\<open>int\<close> truncates towards zero.\<close>

definition cpp_div :: "int \<Rightarrow> int \<Rightarrow> int" where
  "cpp_div a b = sgn a * sgn b * (\<bar>a\<bar> div \<bar>b\<bar>)"

record 'v LfuNode =
  fnode_value :: 'v
  fnode_freq :: int

record ('k, 'v) KLfuCache =
  lfu_capacity :: int
  lfu_minFreq :: int
  lfu_maxAverageNum :: int
  lfu_curAverageNum :: int
  lfu_curTotalNum :: int
  lfu_nodeMap :: "('k, 'v LfuNode) umap"
  lfu_freqToFreqList :: "(int, 'k list) umap"
  lfu_tailKey :: 'k

definition KLfuCache_init :: "int \<Rightarrow> int \<Rightarrow> 'k \<Rightarrow> ('k, 'v) KLfuCache" where
  "KLfuCache_init capacity maxAverageNum tk =
     \<lparr>lfu_capacity = capacity, lfu_minFreq = INT8_MAX, lfu_maxAverageNum = maxAverageNum,
      lfu_curAverageNum = 0, lfu_curTotalNum = 0, lfu_nodeMap = [],
      lfu_freqToFreqList = [], lfu_tailKey = tk\<rparr>"

definition KLfuCache_removeFromFreqList ::
  "('k, 'v) KLfuCache \<Rightarrow> 'k \<Rightarrow> int \<Rightarrow> ('k, 'v) KLfuCache option" where
  "KLfuCache_removeFromFreqList s k freq =
     (case umap_find (lfu_freqToFreqList s) freq of
        None \<Rightarrow> None
      | Some ks \<Rightarrow>
          Some (s\<lparr>lfu_freqToFreqList := umap_assign freq (remove1 k ks) (lfu_freqToFreqList s)\<rparr>))"

definition KLfuCache_addToFreqList ::
  "('k, 'v) KLfuCache \<Rightarrow> 'k \<Rightarrow> int \<Rightarrow> ('k, 'v) KLfuCache" where
  "KLfuCache_addToFreqList s k freq =
     (let ks = (case umap_find (lfu_freqToFreqList s) freq of None \<Rightarrow> [] | Some ks \<Rightarrow> ks)
      in s\<lparr>lfu_freqToFreqList := umap_assign freq (ks @ [k]) (lfu_freqToFreqList s)\<rparr>)"

definition KLfuCache_updateMinFreq :: "('k, 'v) KLfuCache \<Rightarrow> ('k, 'v) KLfuCache" where
  "KLfuCache_updateMinFreq s =
     (let m = fold (\<lambda>f m. case umap_find (lfu_freqToFreqList s) f of
                             None \<Rightarrow> m
                           | Some ks \<Rightarrow> if ks \<noteq> [] then min m f else m)
                   (umap_keys (lfu_freqToFreqList s)) INT8_MAX
      in s\<lparr>lfu_minFreq := (if m = INT8_MAX then 1 else m)\<rparr>)"

text \<open>The body of the loop of \<^verbatim>\<open>handleOverMaxAverageNum\<close>, over the keys still to visit.\<close>

fun KLfuCache_ageNodes :: "'k list \<Rightarrow> ('k, 'v) KLfuCache \<Rightarrow> ('k, 'v) KLfuCache option" where
  "KLfuCache_ageNodes [] s = Some s"
| "KLfuCache_ageNodes (k # ks) s =
     (case umap_find (lfu_nodeMap s) k of
        None \<Rightarrow> KLfuCache_ageNodes ks s
      | Some node \<Rightarrow>
          (case KLfuCache_removeFromFreqList s k (fnode_freq node) of
             None \<Rightarrow> None
           | Some s1 \<Rightarrow>
               (let f = fnode_freq node - cpp_div (lfu_maxAverageNum s1) 2;
                    f' = (if f < 1 then 1 else f);
                    s2 = s1\<lparr>lfu_nodeMap := umap_assign k (node\<lparr>fnode_freq := f'\<rparr>) (lfu_nodeMap s1)\<rparr>
                in KLfuCache_ageNodes ks (KLfuCache_addToFreqList s2 k f'))))"

definition KLfuCache_handleOverMaxAverageNum :: "('k, 'v) KLfuCache \<Rightarrow> ('k, 'v) KLfuCache option" where
  "KLfuCache_handleOverMaxAverageNum s =
     (if lfu_nodeMap s = [] then Some s
      else case KLfuCache_ageNodes (umap_keys (lfu_nodeMap s)) s of
             None \<Rightarrow> None
           | Some s1 \<Rightarrow> Some (KLfuCache_updateMinFreq s1))"

definition KLfuCache_average :: "('k, 'v) KLfuCache \<Rightarrow> int" where
  "KLfuCache_average s =
     (if lfu_nodeMap s = [] then 0
      else to_int (to_size_t (lfu_curTotalNum s) div umap_size (lfu_nodeMap s)))"

definition KLfuCache_addFreqNum :: "('k, 'v) KLfuCache \<Rightarrow> ('k, 'v) KLfuCache option" where
  "KLfuCache_addFreqNum s =
     (let s1 = s\<lparr>lfu_curTotalNum := lfu_curTotalNum s + 1\<rparr>;
          s2 = s1\<lparr>lfu_curAverageNum := KLfuCache_average s1\<rparr>
      in if lfu_curAverageNum s2 > lfu_maxAverageNum s2
         then KLfuCache_handleOverMaxAverageNum s2 else Some s2)"

definition KLfuCache_decreaseFreqNum :: "('k, 'v) KLfuCache \<Rightarrow> int \<Rightarrow> ('k, 'v) KLfuCache" where
  "KLfuCache_decreaseFreqNum s num =
     (let s1 = s\<lparr>lfu_curTotalNum := lfu_curTotalNum s - num\<rparr>
      in s1\<lparr>lfu_curAverageNum := KLfuCache_average s1\<rparr>)"

text \<open>
  \<^verbatim>\<open>kickOut\<close> takes \<^verbatim>\<open>getFirstNode()\<close> of the list of \<^verbatim>\<open>minFreq_\<close>. When that list is
  empty the node is its sentinel \<^verbatim>\<open>tail_\<close>: \<^verbatim>\<open>removeNode\<close> returns at once (the
  sentinel's \<^verbatim>\<open>next\<close> is null), the key erased from the map is the sentinel's, and the
  total goes down by the sentinel's \<^verbatim>\<open>freq\<close>, which is 1.
\<close>

definition KLfuCache_kickOut :: "('k, 'v) KLfuCache \<Rightarrow> ('k, 'v) KLfuCache option" where
  "KLfuCache_kickOut s =
     (case umap_find (lfu_freqToFreqList s) (lfu_minFreq s) of
        None \<Rightarrow> None
      | Some [] \<Rightarrow>
          (case umap_find (lfu_freqToFreqList s) 1 of
             None \<Rightarrow> None
           | Some ks1 \<Rightarrow>
               Some (KLfuCache_decreaseFreqNum
                       (s\<lparr>lfu_nodeMap := umap_erase (lfu_tailKey s) (lfu_nodeMap s)\<rparr>) 1))
      | Some (k # ks) \<Rightarrow>
          (case KLfuCache_removeFromFreqList s k (lfu_minFreq s) of
             None \<Rightarrow> None
           | Some s1 \<Rightarrow>
               Some (KLfuCache_decreaseFreqNum
                       (s1\<lparr>lfu_nodeMap := umap_erase k (lfu_nodeMap s1)\<rparr>) (lfu_minFreq s))))"

definition KLfuCache_getInternal ::
  "('k, 'v) KLfuCache \<Rightarrow> 'k \<Rightarrow> 'v LfuNode \<Rightarrow> (('k, 'v) KLfuCache \<times> 'v) option" where
  "KLfuCache_getInternal s k node =
     (case KLfuCache_removeFromFreqList s k (fnode_freq node) of
        None \<Rightarrow> None
      | Some s1 \<Rightarrow>
          (let freq = fnode_freq node + 1;
               s2 = s1\<lparr>lfu_nodeMap := umap_assign k (node\<lparr>fnode_freq := freq\<rparr>) (lfu_nodeMap s1)\<rparr>;
               s3 = KLfuCache_addToFreqList s2 k freq
           in case (if freq - 1 = lfu_minFreq s3
                    then (case umap_find (lfu_freqToFreqList s3) (freq - 1) of
                            None \<Rightarrow> None
                          | Some ks \<Rightarrow>
                              Some (if ks = [] then s3\<lparr>lfu_minFreq := lfu_minFreq s3 + 1\<rparr> else s3))
                    else Some s3) of
                None \<Rightarrow> None
              | Some s4 \<Rightarrow>
                  (case KLfuCache_addFreqNum s4 of
                     None \<Rightarrow> None
                   | Some s5 \<Rightarrow> Some (s5, fnode_value node))))"

definition KLfuCache_putInternal ::
  "('k, 'v) KLfuCache \<Rightarrow> 'k \<Rightarrow> 'v \<Rightarrow> ('k, 'v) KLfuCache option" where
  "KLfuCache_putInternal s k v =
     (case (if umap_size (lfu_nodeMap s) = to_size_t (lfu_capacity s)
            then KLfuCache_kickOut s else Some s) of
        None \<Rightarrow> None
      | Some s1 \<Rightarrow>
          (let s2 = s1\<lparr>lfu_nodeMap := umap_assign k \<lparr>fnode_value = v, fnode_freq = 1\<rparr> (lfu_nodeMap s1)\<rparr>;
               s3 = KLfuCache_addToFreqList s2 k 1
           in case KLfuCache_addFreqNum s3 of
                None \<Rightarrow> None
              | Some s4 \<Rightarrow> Some (s4\<lparr>lfu_minFreq := min (lfu_minFreq s4) 1\<rparr>)))"

definition KLfuCache_put :: "('k, 'v) KLfuCache \<Rightarrow> 'k \<Rightarrow> 'v \<Rightarrow> ('k, 'v) KLfuCache option" where
  "KLfuCache_put s k v =
     (if lfu_capacity s = 0 then Some s
      else case umap_find (lfu_nodeMap s) k of
             Some node \<Rightarrow>
               (let node1 = node\<lparr>fnode_value := v\<rparr>;
                    s1 = s\<lparr>lfu_nodeMap := umap_assign k node1 (lfu_nodeMap s)\<rparr>
                in map_option fst (KLfuCache_getInternal s1 k node1))
           | None \<Rightarrow> KLfuCache_putInternal s k v)"

definition KLfuCache_get ::
  "('k, 'v) KLfuCache \<Rightarrow> 'k \<Rightarrow> (('k, 'v) KLfuCache \<times> 'v option) option" where
  "KLfuCache_get s k =
     (case umap_find (lfu_nodeMap s) k of
        Some node \<Rightarrow> map_option (\<lambda>(s1, v). (s1, Some v)) (KLfuCache_getInternal s k node)
      | None \<Rightarrow> Some (s, None))"

definition KLfuCache_purge :: "('k, 'v) KLfuCache \<Rightarrow> ('k, 'v) KLfuCache" where
  "KLfuCache_purge s = s\<lparr>lfu_nodeMap := [], lfu_freqToFreqList := []\<rparr>"

section \<open>ArcLruPart (KArcCache/KArcLruPart.h)\<close>

text \<open>
  \<open>alru_mainList\<close> is the chain between \<^verbatim>\<open>mainHead_\<close> and \<^verbatim>\<open>mainTail_\<close>, head first:
  \<^verbatim>\<open>addToFront\<close> adds at the head and the least recent node is the last element.
  \<open>alru_ghostList\<close> is the ghost chain, head first (the newest ghost first). The
  contents of a ghost node are never read again: \<^verbatim>\<open>checkGhost\<close> and
  \<^verbatim>\<open>removeOldestGhost\<close> use its key only, so \<open>alru_ghostCache\<close> keeps the keys.
  \<^verbatim>\<open>ghostCache_\<close> maps a key to the node added last, which is the first node of that
  key in the ghost chain.
\<close>

record 'v ArcNode =
  anode_value :: 'v
  anode_accessCount :: nat

record ('k, 'v) ArcLruPart =
  alru_capacity :: nat
  alru_ghostCapacity :: nat
  alru_transformThreshold :: nat
  alru_mainCache :: "('k, 'v ArcNode) umap"
  alru_ghostCache :: "('k, unit) umap"
  alru_mainList :: "'k list"
  alru_ghostList :: "'k list"

definition ArcLruPart_init :: "nat \<Rightarrow> nat \<Rightarrow> ('k, 'v) ArcLruPart" where
  "ArcLruPart_init capacity transformThreshold =
     \<lparr>alru_capacity = capacity, alru_ghostCapacity = capacity,
      alru_transformThreshold = transformThreshold, alru_mainCache = [], alru_ghostCache = [],
      alru_mainList = [], alru_ghostList = []\<rparr>"

definition ArcLruPart_addToFront :: "'k \<Rightarrow> ('k, 'v) ArcLruPart \<Rightarrow> ('k, 'v) ArcLruPart" where
  "ArcLruPart_addToFront k s = s\<lparr>alru_mainList := k # alru_mainList s\<rparr>"

definition ArcLruPart_moveToFront :: "'k \<Rightarrow> ('k, 'v) ArcLruPart \<Rightarrow> ('k, 'v) ArcLruPart" where
  "ArcLruPart_moveToFront k s =
     ArcLruPart_addToFront k (s\<lparr>alru_mainList := remove1 k (alru_mainList s)\<rparr>)"

definition ArcLruPart_removeOldestGhost :: "('k, 'v) ArcLruPart \<Rightarrow> ('k, 'v) ArcLruPart" where
  "ArcLruPart_removeOldestGhost s =
     (if alru_ghostList s = [] then s
      else (let oldestGhost = last (alru_ghostList s)
            in s\<lparr>alru_ghostList := butlast (alru_ghostList s),
                 alru_ghostCache := umap_erase oldestGhost (alru_ghostCache s)\<rparr>))"

definition ArcLruPart_addToGhost :: "'k \<Rightarrow> ('k, 'v) ArcLruPart \<Rightarrow> ('k, 'v) ArcLruPart" where
  "ArcLruPart_addToGhost k s =
     s\<lparr>alru_ghostList := k # alru_ghostList s,
       alru_ghostCache := umap_assign k () (alru_ghostCache s)\<rparr>"

text \<open>
  \<^verbatim>\<open>evictLeastRecent\<close>: the node before \<^verbatim>\<open>mainTail_\<close> leaves the main chain
  (\<^verbatim>\<open>removeFromMain\<close>), goes to the head of the ghost chain, and its key leaves
  \<^verbatim>\<open>mainCache_\<close>. Nothing happens on an empty main chain.
\<close>

definition ArcLruPart_evictLeastRecent :: "('k, 'v) ArcLruPart \<Rightarrow> ('k, 'v) ArcLruPart" where
  "ArcLruPart_evictLeastRecent s =
     (if alru_mainList s = [] then s
      else (let leastRecent = last (alru_mainList s);
                s1 = s\<lparr>alru_mainList := butlast (alru_mainList s)\<rparr>;
                s2 = (if umap_size (alru_ghostCache s1) \<ge> alru_ghostCapacity s1
                      then ArcLruPart_removeOldestGhost s1 else s1);
                s3 = ArcLruPart_addToGhost leastRecent s2
            in s3\<lparr>alru_mainCache := umap_erase leastRecent (alru_mainCache s3)\<rparr>))"

definition ArcLruPart_updateExistingNode ::
  "'k \<Rightarrow> 'v ArcNode \<Rightarrow> 'v \<Rightarrow> ('k, 'v) ArcLruPart \<Rightarrow> ('k, 'v) ArcLruPart" where
  "ArcLruPart_updateExistingNode k node v s =
     ArcLruPart_moveToFront k
       (s\<lparr>alru_mainCache := umap_assign k (node\<lparr>anode_value := v\<rparr>) (alru_mainCache s)\<rparr>)"

definition ArcLruPart_addNewNode :: "'k \<Rightarrow> 'v \<Rightarrow> ('k, 'v) ArcLruPart \<Rightarrow> ('k, 'v) ArcLruPart" where
  "ArcLruPart_addNewNode k v s =
     (let s1 = (if umap_size (alru_mainCache s) \<ge> alru_capacity s
                then ArcLruPart_evictLeastRecent s else s);
          s2 = s1\<lparr>alru_mainCache :=
                    umap_assign k \<lparr>anode_value = v, anode_accessCount = 1\<rparr> (alru_mainCache s1)\<rparr>
      in ArcLruPart_addToFront k s2)"

text \<open>\<^verbatim>\<open>bool put(Key, Value)\<close>: the new state and the status returned.\<close>

definition ArcLruPart_put :: "('k, 'v) ArcLruPart \<Rightarrow> 'k \<Rightarrow> 'v \<Rightarrow> ('k, 'v) ArcLruPart \<times> bool" where
  "ArcLruPart_put s k v =
     (if alru_capacity s = 0 then (s, False)
      else case umap_find (alru_mainCache s) k of
             Some node \<Rightarrow> (ArcLruPart_updateExistingNode k node v s, True)
           | None \<Rightarrow> (ArcLruPart_addNewNode k v s, True))"

definition ArcLruPart_updateNodeAccess ::
  "'k \<Rightarrow> 'v ArcNode \<Rightarrow> ('k, 'v) ArcLruPart \<Rightarrow> ('k, 'v) ArcLruPart \<times> bool" where
  "ArcLruPart_updateNodeAccess k node s =
     (let s1 = ArcLruPart_moveToFront k s;
          node1 = node\<lparr>anode_accessCount := anode_accessCount node + 1\<rparr>
      in (s1\<lparr>alru_mainCache := umap_assign k node1 (alru_mainCache s1)\<rparr>,
          anode_accessCount node1 \<ge> alru_transformThreshold s1))"

text \<open>
  \<^verbatim>\<open>bool get(Key, Value&, bool& shouldTransform)\<close>: the new state, the value on a hit,
  and \<^verbatim>\<open>shouldTransform\<close>, which the caller initialises to false and a miss leaves alone.
\<close>

definition ArcLruPart_get ::
  "('k, 'v) ArcLruPart \<Rightarrow> 'k \<Rightarrow> ('k, 'v) ArcLruPart \<times> 'v option \<times> bool" where
  "ArcLruPart_get s k =
     (case umap_find (alru_mainCache s) k of
        Some node \<Rightarrow>
          (let (s1, shouldTransform) = ArcLruPart_updateNodeAccess k node s
           in (s1, Some (anode_value node), shouldTransform))
      | None \<Rightarrow> (s, None, False))"

definition ArcLruPart_checkGhost :: "('k, 'v) ArcLruPart \<Rightarrow> 'k \<Rightarrow> ('k, 'v) ArcLruPart \<times> bool" where
  "ArcLruPart_checkGhost s k =
     (case umap_find (alru_ghostCache s) k of
        Some u \<Rightarrow>
          (s\<lparr>alru_ghostList := remove1 k (alru_ghostList s),
             alru_ghostCache := umap_erase k (alru_ghostCache s)\<rparr>, True)
      | None \<Rightarrow> (s, False))"

definition ArcLruPart_increaseCapacity :: "('k, 'v) ArcLruPart \<Rightarrow> ('k, 'v) ArcLruPart" where
  "ArcLruPart_increaseCapacity s = s\<lparr>alru_capacity := alru_capacity s + 1\<rparr>"

definition ArcLruPart_decreaseCapacity :: "('k, 'v) ArcLruPart \<Rightarrow> ('k, 'v) ArcLruPart \<times> bool" where
  "ArcLruPart_decreaseCapacity s =
     (if alru_capacity s \<le> 0 then (s, False)
      else (let s1 = (if umap_size (alru_mainCache s) = alru_capacity s
                      then ArcLruPart_evictLeastRecent s else s)
            in (s1\<lparr>alru_capacity := alru_capacity s1 - 1\<rparr>, True)))"

section \<open>ArcLfuPart (KArcCache/KArcLfuPart.h)\<close>

text \<open>
  \<open>alfu_freqMap\<close> is the \<^verbatim>\<open>std::map\<close> from a frequency to the \<^verbatim>\<open>std::list\<close> of its nodes,
  front first; \<^verbatim>\<open>freqMap_[f]\<close> on a frequency without a list inserts an empty list, and
  \<^verbatim>\<open>begin()->first\<close> is the smallest frequency. \<open>alfu_ghostList\<close> is the ghost chain, head
  first: \<^verbatim>\<open>addToGhost\<close> links before \<^verbatim>\<open>ghostTail_\<close>, so the oldest ghost is the first
  element, and the node \<^verbatim>\<open>ghostCache_\<close> maps a key to is the last node of that key.
\<close>

record ('k, 'v) ArcLfuPart =
  alfu_capacity :: nat
  alfu_ghostCapacity :: nat
  alfu_transformThreshold :: nat
  alfu_minFreq :: nat
  alfu_mainCache :: "('k, 'v ArcNode) umap"
  alfu_ghostCache :: "('k, unit) umap"
  alfu_freqMap :: "(nat, 'k list) umap"
  alfu_ghostList :: "'k list"

definition ArcLfuPart_init :: "nat \<Rightarrow> nat \<Rightarrow> ('k, 'v) ArcLfuPart" where
  "ArcLfuPart_init capacity transformThreshold =
     \<lparr>alfu_capacity = capacity, alfu_ghostCapacity = capacity,
      alfu_transformThreshold = transformThreshold, alfu_minFreq = 0, alfu_mainCache = [],
      alfu_ghostCache = [], alfu_freqMap = [], alfu_ghostList = []\<rparr>"

definition freqMap_at :: "(nat, 'k list) umap \<Rightarrow> nat \<Rightarrow> 'k list" where
  "freqMap_at m f = (case umap_find m f of None \<Rightarrow> [] | Some ks \<Rightarrow> ks)"

definition freqMap_begin :: "(nat, 'k list) umap \<Rightarrow> nat" where
  "freqMap_begin m = fold min (umap_keys m) (hd (umap_keys m))"

definition remove1_last :: "'a \<Rightarrow> 'a list \<Rightarrow> 'a list" where
  "remove1_last x xs = rev (remove1 x (rev xs))"

definition ArcLfuPart_updateNodeFrequency ::
  "'k \<Rightarrow> 'v ArcNode \<Rightarrow> ('k, 'v) ArcLfuPart \<Rightarrow> ('k, 'v) ArcLfuPart" where
  "ArcLfuPart_updateNodeFrequency k node s =
     (let oldFreq = anode_accessCount node;
          newFreq = oldFreq + 1;
          s1 = s\<lparr>alfu_mainCache :=
                   umap_assign k (node\<lparr>anode_accessCount := newFreq\<rparr>) (alfu_mainCache s)\<rparr>;
          oldList = removeAll k (freqMap_at (alfu_freqMap s1) oldFreq);
          s2 = (if oldList = []
                then s1\<lparr>alfu_freqMap := umap_erase oldFreq (alfu_freqMap s1),
                        alfu_minFreq := (if oldFreq = alfu_minFreq s1 then newFreq
                                         else alfu_minFreq s1)\<rparr>
                else s1\<lparr>alfu_freqMap := umap_assign oldFreq oldList (alfu_freqMap s1)\<rparr>)
      in s2\<lparr>alfu_freqMap :=
              umap_assign newFreq (freqMap_at (alfu_freqMap s2) newFreq @ [k]) (alfu_freqMap s2)\<rparr>)"

definition ArcLfuPart_removeOldestGhost :: "('k, 'v) ArcLfuPart \<Rightarrow> ('k, 'v) ArcLfuPart" where
  "ArcLfuPart_removeOldestGhost s =
     (case alfu_ghostList s of
        [] \<Rightarrow> s
      | oldestGhost # rest \<Rightarrow>
          s\<lparr>alfu_ghostList := rest,
            alfu_ghostCache := umap_erase oldestGhost (alfu_ghostCache s)\<rparr>)"

definition ArcLfuPart_addToGhost :: "'k \<Rightarrow> ('k, 'v) ArcLfuPart \<Rightarrow> ('k, 'v) ArcLfuPart" where
  "ArcLfuPart_addToGhost k s =
     s\<lparr>alfu_ghostList := alfu_ghostList s @ [k],
       alfu_ghostCache := umap_assign k () (alfu_ghostCache s)\<rparr>"

definition ArcLfuPart_evictLeastFrequent :: "('k, 'v) ArcLfuPart \<Rightarrow> ('k, 'v) ArcLfuPart" where
  "ArcLfuPart_evictLeastFrequent s =
     (if alfu_freqMap s = [] then s
      else case freqMap_at (alfu_freqMap s) (alfu_minFreq s) of
             [] \<Rightarrow> s\<lparr>alfu_freqMap := umap_assign (alfu_minFreq s) [] (alfu_freqMap s)\<rparr>
           | leastNode # rest \<Rightarrow>
               (let s1 = (if rest = []
                          then (let fm = umap_erase (alfu_minFreq s) (alfu_freqMap s)
                                in s\<lparr>alfu_freqMap := fm,
                                     alfu_minFreq := (if fm \<noteq> [] then freqMap_begin fm
                                                      else alfu_minFreq s)\<rparr>)
                          else s\<lparr>alfu_freqMap :=
                                   umap_assign (alfu_minFreq s) rest (alfu_freqMap s)\<rparr>);
                    s2 = (if umap_size (alfu_ghostCache s1) \<ge> alfu_ghostCapacity s1
                          then ArcLfuPart_removeOldestGhost s1 else s1);
                    s3 = ArcLfuPart_addToGhost leastNode s2
                in s3\<lparr>alfu_mainCache := umap_erase leastNode (alfu_mainCache s3)\<rparr>))"

definition ArcLfuPart_updateExistingNode ::
  "'k \<Rightarrow> 'v ArcNode \<Rightarrow> 'v \<Rightarrow> ('k, 'v) ArcLfuPart \<Rightarrow> ('k, 'v) ArcLfuPart" where
  "ArcLfuPart_updateExistingNode k node v s =
     ArcLfuPart_updateNodeFrequency k (node\<lparr>anode_value := v\<rparr>) s"

definition ArcLfuPart_addNewNode :: "'k \<Rightarrow> 'v \<Rightarrow> ('k, 'v) ArcLfuPart \<Rightarrow> ('k, 'v) ArcLfuPart" where
  "ArcLfuPart_addNewNode k v s =
     (let s1 = (if umap_size (alfu_mainCache s) \<ge> alfu_capacity s
                then ArcLfuPart_evictLeastFrequent s else s)
      in s1\<lparr>alfu_mainCache :=
              umap_assign k \<lparr>anode_value = v, anode_accessCount = 1\<rparr> (alfu_mainCache s1),
            alfu_freqMap := umap_assign 1 (freqMap_at (alfu_freqMap s1) 1 @ [k]) (alfu_freqMap s1),
            alfu_minFreq := 1\<rparr>)"

definition ArcLfuPart_put :: "('k, 'v) ArcLfuPart \<Rightarrow> 'k \<Rightarrow> 'v \<Rightarrow> ('k, 'v) ArcLfuPart \<times> bool" where
  "ArcLfuPart_put s k v =
     (if alfu_capacity s = 0 then (s, False)
      else case umap_find (alfu_mainCache s) k of
             Some node \<Rightarrow> (ArcLfuPart_updateExistingNode k node v s, True)
           | None \<Rightarrow> (ArcLfuPart_addNewNode k v s, True))"

definition ArcLfuPart_get :: "('k, 'v) ArcLfuPart \<Rightarrow> 'k \<Rightarrow> ('k, 'v) ArcLfuPart \<times> 'v option" where
  "ArcLfuPart_get s k =
     (case umap_find (alfu_mainCache s) k of
        Some node \<Rightarrow> (ArcLfuPart_updateNodeFrequency k node s, Some (anode_value node))
      | None \<Rightarrow> (s, None))"

definition ArcLfuPart_contain :: "('k, 'v) ArcLfuPart \<Rightarrow> 'k \<Rightarrow> bool" where
  "ArcLfuPart_contain s k = (umap_find (alfu_mainCache s) k \<noteq> None)"

definition ArcLfuPart_checkGhost :: "('k, 'v) ArcLfuPart \<Rightarrow> 'k \<Rightarrow> ('k, 'v) ArcLfuPart \<times> bool" where
  "ArcLfuPart_checkGhost s k =
     (case umap_find (alfu_ghostCache s) k of
        Some u \<Rightarrow>
          (s\<lparr>alfu_ghostList := remove1_last k (alfu_ghostList s),
             alfu_ghostCache := umap_erase k (alfu_ghostCache s)\<rparr>, True)
      | None \<Rightarrow> (s, False))"

definition ArcLfuPart_increaseCapacity :: "('k, 'v) ArcLfuPart \<Rightarrow> ('k, 'v) ArcLfuPart" where
  "ArcLfuPart_increaseCapacity s = s\<lparr>alfu_capacity := alfu_capacity s + 1\<rparr>"

definition ArcLfuPart_decreaseCapacity :: "('k, 'v) ArcLfuPart \<Rightarrow> ('k, 'v) ArcLfuPart \<times> bool" where
  "ArcLfuPart_decreaseCapacity s =
     (if alfu_capacity s \<le> 0 then (s, False)
      else (let s1 = (if umap_size (alfu_mainCache s) = alfu_capacity s
                      then ArcLfuPart_evictLeastFrequent s else s)
            in (s1\<lparr>alfu_capacity := alfu_capacity s1 - 1\<rparr>, True)))"

section \<open>KArcCache (KArcCache/KArcCache.h)\<close>

record ('k, 'v) KArcCache =
  arc_capacity :: nat
  arc_transformThreshold :: nat
  arc_lruPart :: "('k, 'v) ArcLruPart"
  arc_lfuPart :: "('k, 'v) ArcLfuPart"

definition KArcCache_init :: "nat \<Rightarrow> nat \<Rightarrow> ('k, 'v) KArcCache" where
  "KArcCache_init capacity transformThreshold =
     \<lparr>arc_capacity = capacity, arc_transformThreshold = transformThreshold,
      arc_lruPart = ArcLruPart_init capacity transformThreshold,
      arc_lfuPart = ArcLfuPart_init capacity transformThreshold\<rparr>"

definition KArcCache_checkGhostCaches :: "('k, 'v) KArcCache \<Rightarrow> 'k \<Rightarrow> ('k, 'v) KArcCache \<times> bool" where
  "KArcCache_checkGhostCaches s key =
     (let (lru1, inLruGhost) = ArcLruPart_checkGhost (arc_lruPart s) key
      in if inLruGhost then
           (let (lfu1, decreased) = ArcLfuPart_decreaseCapacity (arc_lfuPart s)
            in (s\<lparr>arc_lruPart := (if decreased then ArcLruPart_increaseCapacity lru1 else lru1),
                  arc_lfuPart := lfu1\<rparr>, True))
         else
           (let (lfu1, inLfuGhost) = ArcLfuPart_checkGhost (arc_lfuPart s) key
            in if inLfuGhost then
                 (let (lru2, decreased) = ArcLruPart_decreaseCapacity lru1
                  in (s\<lparr>arc_lruPart := lru2,
                        arc_lfuPart := (if decreased then ArcLfuPart_increaseCapacity lfu1
                                        else lfu1)\<rparr>, True))
               else (s\<lparr>arc_lruPart := lru1, arc_lfuPart := lfu1\<rparr>, False)))"

definition KArcCache_put :: "('k, 'v) KArcCache \<Rightarrow> 'k \<Rightarrow> 'v \<Rightarrow> ('k, 'v) KArcCache" where
  "KArcCache_put s key v =
     (let (s1, inGhost) = KArcCache_checkGhostCaches s key;
          inLfu = ArcLfuPart_contain (arc_lfuPart s1) key;
          (lru1, ok) = ArcLruPart_put (arc_lruPart s1) key v;
          s2 = s1\<lparr>arc_lruPart := lru1\<rparr>
      in if inLfu then s2\<lparr>arc_lfuPart := fst (ArcLfuPart_put (arc_lfuPart s2) key v)\<rparr> else s2)"

definition KArcCache_get :: "('k, 'v) KArcCache \<Rightarrow> 'k \<Rightarrow> ('k, 'v) KArcCache \<times> 'v option" where
  "KArcCache_get s key =
     (let (s1, inGhost) = KArcCache_checkGhostCaches s key;
          (lru1, r, shouldTransform) = ArcLruPart_get (arc_lruPart s1) key;
          s2 = s1\<lparr>arc_lruPart := lru1\<rparr>
      in case r of
           Some v \<Rightarrow>
             ((if shouldTransform
               then s2\<lparr>arc_lfuPart := fst (ArcLfuPart_put (arc_lfuPart s2) key v)\<rparr>
               else s2), Some v)
         | None \<Rightarrow>
             (let (lfu1, r1) = ArcLfuPart_get (arc_lfuPart s2) key
              in (s2\<lparr>arc_lfuPart := lfu1\<rparr>, r1)))"

section \<open>Consistency of a KLruCache\<close>

text \<open>
  The chain holds every key of the map once: what the constructor establishes and
  \<^verbatim>\<open>put\<close>, \<^verbatim>\<open>get\<close> and \<^verbatim>\<open>remove\<close> keep.
\<close>

definition KLruCache_inv :: "('k, 'v) KLruCache \<Rightarrow> bool" where
  "KLruCache_inv s =
     (distinct (lru_list s) \<and> set (lru_list s) = set (umap_keys (lru_nodeMap s)))"

section \<open>Sequences of operations\<close>

text \<open>
  A client's calls, in order. For KLruKCache \<open>Get\<close> is \<^verbatim>\<open>Value get(Key)\<close> and \<open>GetMain\<close>
  is the inherited \<^verbatim>\<open>bool get(Key, Value&)\<close>. A run of a KLfuCache is \<open>None\<close> when one
  of its calls is undefined.
\<close>

datatype ('k, 'v) cache_op = Put 'k 'v | Get 'k | GetMain 'k

fun KLruCache_run :: "('k, 'v) KLruCache \<Rightarrow> ('k, 'v) cache_op list \<Rightarrow> ('k, 'v) KLruCache" where
  "KLruCache_run s [] = s"
| "KLruCache_run s (Put k v # ops) = KLruCache_run (KLruCache_put s k v) ops"
| "KLruCache_run s (Get k # ops) = KLruCache_run (fst (KLruCache_get s k)) ops"
| "KLruCache_run s (GetMain k # ops) = KLruCache_run (fst (KLruCache_get s k)) ops"

fun KLruKCache_run :: "('k, 'v) KLruKCache \<Rightarrow> ('k, 'v) cache_op list \<Rightarrow> ('k, 'v) KLruKCache" where
  "KLruKCache_run s [] = s"
| "KLruKCache_run s (Put k v # ops) = KLruKCache_run (KLruKCache_put s k v) ops"
| "KLruKCache_run s (Get k # ops) = KLruKCache_run (fst (KLruKCache_get s k)) ops"
| "KLruKCache_run s (GetMain k # ops) = KLruKCache_run (fst (KLruKCache_get_main s k)) ops"

fun KLfuCache_run ::
  "('k, 'v) KLfuCache \<Rightarrow> ('k, 'v) cache_op list \<Rightarrow> ('k, 'v) KLfuCache option" where
  "KLfuCache_run s [] = Some s"
| "KLfuCache_run s (Put k v # ops) =
     (case KLfuCache_put s k v of None \<Rightarrow> None | Some s1 \<Rightarrow> KLfuCache_run s1 ops)"
| "KLfuCache_run s (Get k # ops) =
     (case KLfuCache_get s k of None \<Rightarrow> None | Some (s1, r) \<Rightarrow> KLfuCache_run s1 ops)"
| "KLfuCache_run s (GetMain k # ops) =
     (case KLfuCache_get s k of None \<Rightarrow> None | Some (s1, r) \<Rightarrow> KLfuCache_run s1 ops)"

fun KArcCache_run :: "('k, 'v) KArcCache \<Rightarrow> ('k, 'v) cache_op list \<Rightarrow> ('k, 'v) KArcCache" where
  "KArcCache_run s [] = s"
| "KArcCache_run s (Put k v # ops) = KArcCache_run (KArcCache_put s k v) ops"
| "KArcCache_run s (Get k # ops) = KArcCache_run (fst (KArcCache_get s k)) ops"
| "KArcCache_run s (GetMain k # ops) = KArcCache_run (fst (KArcCache_get s k)) ops"

section \<open>The example of the specification: capacity 3\<close>

text \<open>
  \<^verbatim>\<open>put(1,a), put(2,b), put(3,c), get(1)\<close>, on a KLruCache and on an ArcLruPart of
  capacity 3; the fifth call, \<^verbatim>\<open>put(4,d)\<close>, is the one that evicts.
\<close>

definition lru_example :: "(nat, string) KLruCache" where
  "lru_example =
     KLruCache_run (KLruCache_init 3 0) [Put 1 ''a'', Put 2 ''b'', Put 3 ''c'', Get 1]"

definition alru_example :: "(nat, string) ArcLruPart" where
  "alru_example =
     fst (ArcLruPart_get
            (fst (ArcLruPart_put
                    (fst (ArcLruPart_put
                            (fst (ArcLruPart_put (ArcLruPart_init 3 2) 1 ''a'')) 2 ''b'')) 3 ''c'')) 1)"

section \<open>Notions used in the proofs about KLfuCache\<close>

text \<open>
  \<open>KLfuCache_lists_ok\<close>: the frequency of every node is at least 1 and has its list,
  every list is that of a frequency that is at least 1, a non-empty cache has the list
  of frequency 1, \<^verbatim>\<open>minFreq_\<close> is at least 1 and the capacity is a value of a 32-bit
  \<^verbatim>\<open>int\<close>. \<open>KLfuCache_safe\<close>: moreover a non-empty cache has the list of \<^verbatim>\<open>minFreq_\<close>,
  so every list that a call dereferences exists.
\<close>

definition KLfuCache_lists_ok :: "('k, 'v) KLfuCache \<Rightarrow> bool" where
  "KLfuCache_lists_ok s =
     (list_all (\<lambda>k. case umap_find (lfu_nodeMap s) k of
                       None \<Rightarrow> True
                     | Some node \<Rightarrow>
                         1 \<le> fnode_freq node
                         \<and> umap_find (lfu_freqToFreqList s) (fnode_freq node) \<noteq> None)
               (umap_keys (lfu_nodeMap s))
      \<and> list_all (\<lambda>f. 1 \<le> f) (umap_keys (lfu_freqToFreqList s))
      \<and> (lfu_nodeMap s = [] \<or> umap_find (lfu_freqToFreqList s) 1 \<noteq> None)
      \<and> 1 \<le> lfu_minFreq s
      \<and> - (2 ^ 31) \<le> lfu_capacity s \<and> lfu_capacity s < 2 ^ 31)"

definition KLfuCache_safe :: "('k, 'v) KLfuCache \<Rightarrow> bool" where
  "KLfuCache_safe s =
     (KLfuCache_lists_ok s
      \<and> (lfu_nodeMap s = [] \<or> umap_find (lfu_freqToFreqList s) (lfu_minFreq s) \<noteq> None))"

text \<open>The value the cache holds for a key, if any.\<close>

definition KLfuCache_value :: "('k, 'v) KLfuCache \<Rightarrow> 'k \<Rightarrow> 'v option" where
  "KLfuCache_value s k = map_option fnode_value (umap_find (lfu_nodeMap s) k)"

text \<open>
  One pass of the loop of \<^verbatim>\<open>handleOverMaxAverageNum\<close> and the first three statements
  of \<^verbatim>\<open>getInternal\<close> have the same shape: the node leaves the list of its frequency,
  takes a new frequency and joins the list of that one.
\<close>

definition KLfuCache_moveNode ::
  "('k, 'v) KLfuCache \<Rightarrow> 'k \<Rightarrow> 'v LfuNode \<Rightarrow> int \<Rightarrow> ('k, 'v) KLfuCache option" where
  "KLfuCache_moveNode s k node f =
     (case KLfuCache_removeFromFreqList s k (fnode_freq node) of
        None \<Rightarrow> None
      | Some s1 \<Rightarrow>
          Some (KLfuCache_addToFreqList
                  (s1\<lparr>lfu_nodeMap := umap_assign k (node\<lparr>fnode_freq := f\<rparr>) (lfu_nodeMap s1)\<rparr>) k f))"

definition KLfuCache_aged :: "int \<Rightarrow> int \<Rightarrow> int" where
  "KLfuCache_aged maxAverageNum freq =
     (let f = freq - cpp_div maxAverageNum 2 in if f < 1 then 1 else f)"

section \<open>The example of the aging trigger: capacity 2, maximum average 4\<close>

text \<open>
  The state after \<^verbatim>\<open>put(1,a)\<close> and four \<^verbatim>\<open>get(1)\<close>: the fourth \<^verbatim>\<open>get\<close> brings the
  average to 5 and rescales the frequency of key 1 from 5 to 3.
\<close>

definition lfu_example :: "(nat, string) KLfuCache" where
  "lfu_example =
     \<lparr>lfu_capacity = 2, lfu_minFreq = 3, lfu_maxAverageNum = 4, lfu_curAverageNum = 5,
      lfu_curTotalNum = 5, lfu_nodeMap = [(1, \<lparr>fnode_value = ''a'', fnode_freq = 3\<rparr>)],
      lfu_freqToFreqList = [(1, []), (2, []), (3, [1]), (4, []), (5, [])], lfu_tailKey = 0\<rparr>"

text \<open>
  \<open>KLfuCache_single k v f s\<close>: the cache holds key \<open>k\<close> alone, with frequency \<open>f\<close>, and
  has counted \<open>f\<close> accesses. Its node is the only node of any list.
\<close>

definition KLfuCache_single :: "'k \<Rightarrow> 'v \<Rightarrow> int \<Rightarrow> ('k, 'v) KLfuCache \<Rightarrow> bool" where
  "KLfuCache_single k v f s =
     (lfu_nodeMap s = [(k, \<lparr>fnode_value = v, fnode_freq = f\<rparr>)]
      \<and> lfu_curTotalNum s = f \<and> lfu_minFreq s = f
      \<and> umap_find (lfu_freqToFreqList s) f = Some [k]
      \<and> umap_find (lfu_freqToFreqList s) 1 \<noteq> None
      \<and> \<not> (\<exists>g ks. g \<noteq> f \<and> umap_find (lfu_freqToFreqList s) g = Some ks \<and> ks \<noteq> []))"

section \<open>Consistency of the two parts of a KArcCache\<close>

text \<open>
  ArcLruPart: the main chain holds every key of the main index once.
  ArcLfuPart: every node of the main index is in the list of its access count, every
  list holds nodes of the main index with that count, once each, no list is empty, and
  a non-empty cache has the list of \<^verbatim>\<open>minFreq_\<close>.
\<close>

definition ArcLruPart_inv :: "('k, 'v) ArcLruPart \<Rightarrow> bool" where
  "ArcLruPart_inv s =
     (distinct (alru_mainList s) \<and> set (alru_mainList s) = set (umap_keys (alru_mainCache s)))"

definition ArcLfuPart_inv :: "('k, 'v) ArcLfuPart \<Rightarrow> bool" where
  "ArcLfuPart_inv s =
     (list_all (\<lambda>k. case umap_find (alfu_mainCache s) k of
                       None \<Rightarrow> True
                     | Some node \<Rightarrow> k \<in> set (freqMap_at (alfu_freqMap s) (anode_accessCount node)))
               (umap_keys (alfu_mainCache s))
      \<and> list_all (\<lambda>f. freqMap_at (alfu_freqMap s) f \<noteq> []
                        \<and> distinct (freqMap_at (alfu_freqMap s) f)
                        \<and> list_all (\<lambda>k. case umap_find (alfu_mainCache s) k of
                                            None \<Rightarrow> False
                                          | Some node \<Rightarrow> anode_accessCount node = f)
                                     (freqMap_at (alfu_freqMap s) f))
                 (umap_keys (alfu_freqMap s))
      \<and> (alfu_mainCache s = [] \<or> umap_find (alfu_freqMap s) (alfu_minFreq s) \<noteq> None))"

definition KArcCache_inv :: "('k, 'v) KArcCache \<Rightarrow> bool" where
  "KArcCache_inv s = (ArcLruPart_inv (arc_lruPart s) \<and> ArcLfuPart_inv (arc_lfuPart s))"

text \<open>
  Each part holds at most as many entries as its current capacity, and the two
  capacities add up to twice the capacity the cache was built with.
\<close>

definition KArcCache_bounded :: "('k, 'v) KArcCache \<Rightarrow> bool" where
  "KArcCache_bounded s =
     (KArcCache_inv s
      \<and> umap_size (alru_mainCache (arc_lruPart s)) \<le> alru_capacity (arc_lruPart s)
      \<and> umap_size (alfu_mainCache (arc_lfuPart s)) \<le> alfu_capacity (arc_lfuPart s)
      \<and> alru_capacity (arc_lruPart s) + alfu_capacity (arc_lfuPart s) = 2 * arc_capacity s)"

section \<open>Two runs of a KArcCache of capacity 1\<close>

text \<open>
  After \<^verbatim>\<open>put(1,a), get(1), put(2,b)\<close> key 1 is in the LFU part and in the ghost list of
  the LRU part. After \<^verbatim>\<open>put(1,a), put(2,b), put(1,c)\<close> the LFU part has given its
  capacity to the LRU part.
\<close>

definition arc_example_ghost :: "(nat, string) KArcCache" where
  "arc_example_ghost = KArcCache_run (KArcCache_init 1 2) [Put 1 ''a'', Get 1, Put 2 ''b'']"

definition arc_example_shift :: "(nat, string) KArcCache" where
  "arc_example_shift = KArcCache_run (KArcCache_init 1 2) [Put 1 ''a'', Put 2 ''b'', Put 1 ''c'']"

section \<open>Notions used in the statements about the value a cache returns\<close>

text \<open>
  The value a KLruCache holds for a key, if any. \<open>KLruKCache_inv\<close>: no key of the main
  cache has a pending value; \<open>KLruKCache_historyCount\<close> is the count that
  \<^verbatim>\<open>historyList_->get(key)\<close> reads, 0 on a miss.
\<close>

definition KLruCache_value :: "('k, 'v) KLruCache \<Rightarrow> 'k \<Rightarrow> 'v option" where
  "KLruCache_value s k = map_option node_value (umap_find (lru_nodeMap s) k)"

definition KLruKCache_inv :: "('k, 'v) KLruKCache \<Rightarrow> bool" where
  "KLruKCache_inv s =
     list_all (\<lambda>j. umap_find (lruk_historyValueMap s) j = None)
       (umap_keys (lru_nodeMap (lruk_base s)))"

definition KLruKCache_historyCount :: "('k, 'v) KLruKCache \<Rightarrow> 'k \<Rightarrow> nat" where
  "KLruKCache_historyCount s k =
     (case KLruCache_value (lruk_historyList s) k of None \<Rightarrow> 0 | Some c \<Rightarrow> c)"

text \<open>The value each part of a KArcCache holds for a key, if any.\<close>

definition ArcLruPart_value :: "('k, 'v) ArcLruPart \<Rightarrow> 'k \<Rightarrow> 'v option" where
  "ArcLruPart_value s k = map_option anode_value (umap_find (alru_mainCache s) k)"

definition ArcLfuPart_value :: "('k, 'v) ArcLfuPart \<Rightarrow> 'k \<Rightarrow> 'v option" where
  "ArcLfuPart_value s k = map_option anode_value (umap_find (alfu_mainCache s) k)"

section \<open>Notions used in the statement of the capacity bound of KLfuCache\<close>

text \<open>
  \<open>KLfuCache_linked\<close>: every node is in the list of its frequency, and every list
  holds, once each, nodes of the map that have its frequency. \<open>KLfuCache_minOK\<close>: a
  non-empty cache has a node in the list of \<^verbatim>\<open>minFreq_\<close>, the node \<^verbatim>\<open>kickOut\<close> takes.
  \<open>KLfuCache_below\<close>: the cache is empty or some node has a frequency below
  \<^verbatim>\<open>INT8_MAX\<close>, the value \<^verbatim>\<open>updateMinFreq\<close> starts from. \<open>KLfuCache_run_below\<close>: that holds
  of the state before and after every call of the run.
\<close>

definition KLfuCache_bucket :: "('k, 'v) KLfuCache \<Rightarrow> int \<Rightarrow> 'k list" where
  "KLfuCache_bucket s f = (case umap_find (lfu_freqToFreqList s) f of None \<Rightarrow> [] | Some ks \<Rightarrow> ks)"

definition KLfuCache_linked :: "('k, 'v) KLfuCache \<Rightarrow> bool" where
  "KLfuCache_linked s =
     (list_all (\<lambda>k. case umap_find (lfu_nodeMap s) k of
                       None \<Rightarrow> True
                     | Some node \<Rightarrow> k \<in> set (KLfuCache_bucket s (fnode_freq node)))
               (umap_keys (lfu_nodeMap s))
      \<and> list_all (\<lambda>f. distinct (KLfuCache_bucket s f)
                        \<and> list_all (\<lambda>k. case umap_find (lfu_nodeMap s) k of
                                            None \<Rightarrow> False
                                          | Some node \<Rightarrow> fnode_freq node = f)
                                     (KLfuCache_bucket s f))
                 (umap_keys (lfu_freqToFreqList s)))"

definition KLfuCache_minOK :: "('k, 'v) KLfuCache \<Rightarrow> bool" where
  "KLfuCache_minOK s = (lfu_nodeMap s = [] \<or> KLfuCache_bucket s (lfu_minFreq s) \<noteq> [])"

definition KLfuCache_below :: "('k, 'v) KLfuCache \<Rightarrow> bool" where
  "KLfuCache_below s =
     (lfu_nodeMap s = []
      \<or> list_ex (\<lambda>k. case umap_find (lfu_nodeMap s) k of
                        None \<Rightarrow> False
                      | Some node \<Rightarrow> fnode_freq node < INT8_MAX)
                (umap_keys (lfu_nodeMap s)))"

definition KLfuCache_run_below :: "('k, 'v) KLfuCache \<Rightarrow> ('k, 'v) cache_op list \<Rightarrow> bool" where
  "KLfuCache_run_below s ops =
     list_all (\<lambda>n. case KLfuCache_run s (take n ops) of
                      None \<Rightarrow> True
                    | Some s' \<Rightarrow> KLfuCache_below s')
              [0 ..< Suc (length ops)]"

text \<open>
  \<open>KLfuCache_consistent\<close>: no list that a call dereferences is missing, the lists and
  the map agree, the list of \<^verbatim>\<open>minFreq_\<close> has a node unless the cache is empty, the
  maximum average and the capacity are not negative, and the cache holds no more
  entries than its capacity.
\<close>

definition KLfuCache_consistent :: "('k, 'v) KLfuCache \<Rightarrow> bool" where
  "KLfuCache_consistent s =
     (KLfuCache_safe s \<and> KLfuCache_linked s \<and> KLfuCache_minOK s
      \<and> 0 \<le> lfu_maxAverageNum s \<and> 0 \<le> lfu_capacity s
      \<and> int (umap_size (lfu_nodeMap s)) \<le> lfu_capacity s)"

text \<open>
  \<open>KLruCache_bounded\<close>: the chain and the map agree, the capacity is a value of a 32-bit
  \<^verbatim>\<open>int\<close> and the map holds no more entries than the capacity.
\<close>

definition KLruCache_bounded :: "('k, 'v) KLruCache \<Rightarrow> bool" where
  "KLruCache_bounded s =
     (KLruCache_inv s \<and> lru_capacity s < 2 ^ 31
      \<and> int (umap_size (lru_nodeMap s)) \<le> lru_capacity s)"

section \<open>Facts about the containers\<close>

lemma umap_find_Nil [simp]: "umap_find [] k = None"
  by (simp add: umap_find_def)

lemma umap_find_assign [simp]:
  "umap_find (umap_assign k v m) k' = (if k' = k then Some v else umap_find m k')"
  by (simp add: umap_find_def umap_assign_def update_conv')

lemma umap_find_erase [simp]:
  "umap_find (umap_erase k m) k' = (if k' = k then None else umap_find m k')"
  by (simp add: umap_find_def umap_erase_def delete_conv')

lemma umap_assign_not_Nil [simp]: "umap_assign k v m \<noteq> []"
  by (simp add: umap_assign_def)

lemma umap_erase_Nil [simp]: "umap_erase k [] = []"
  by (simp add: umap_erase_def)

lemma umap_find_eq: "umap_find m = map_of m"
  by (rule ext) (simp add: umap_find_def)

lemma set_umap_keys: "set (umap_keys m) = dom (umap_find m)"
  by (simp add: umap_keys_def umap_find_eq dom_map_of_conv_image_fst)

lemma distinct_umap_keys [simp]: "distinct (umap_keys m)"
  by (simp add: umap_keys_def)

lemma umap_size_card: "umap_size m = card (dom (umap_find m))"
  by (metis umap_size_def set_umap_keys distinct_umap_keys distinct_card)

lemma finite_dom_umap_find [simp]: "finite (dom (umap_find m))"
  by (simp add: umap_find_eq finite_dom_map_of)

lemma umap_size_Nil [simp]: "umap_size [] = 0"
  by (simp add: umap_size_def umap_keys_def)

lemma umap_Nil_iff: "m = [] \<longleftrightarrow> (\<forall>k. umap_find m k = None)"
proof (cases m)
  case Nil
  then show ?thesis by simp
next
  case (Cons p ps)
  then have "umap_find m (fst p) = Some (snd p)"
    by (simp add: umap_find_def)
  with Cons show ?thesis by auto
qed

lemma umap_size_0_iff [simp]: "umap_size m = 0 \<longleftrightarrow> m = []"
  by (simp add: umap_size_def umap_keys_def)

lemma umap_size_assign:
  "umap_size (umap_assign k v m) = (if umap_find m k = None then Suc (umap_size m) else umap_size m)"
proof -
  have "dom (umap_find (umap_assign k v m)) = insert k (dom (umap_find m))"
    by (auto split: if_splits)
  then show ?thesis
    by (auto simp: umap_size_card insert_absorb domIff)
qed

lemma umap_size_erase:
  "umap_size (umap_erase k m) = (if umap_find m k = None then umap_size m else umap_size m - 1)"
proof -
  have "dom (umap_find (umap_erase k m)) = dom (umap_find m) - {k}"
    by (auto split: if_splits)
  then show ?thesis
    by (auto simp: umap_size_card domIff)
qed

lemma to_size_t_nat: "0 \<le> c \<Longrightarrow> c < 2 ^ 64 \<Longrightarrow> to_size_t c = nat c"
  by (simp add: to_size_t_def)

section \<open>KLruKCache: a cold key\<close>

lemmas KLruCache_defs =
  KLruCache_init_def KLruCache_get_def KLruCache_put_def KLruCache_addNewNode_def
  KLruCache_evictLeastRecent_def KLruCache_insertNode_def KLruCache_removeNode_def
  KLruCache_updateExistingNode_def KLruCache_moveToMostRecent_def KLruCache_remove_def

lemmas KLruKCache_defs =
  KLruKCache_init_def KLruKCache_put_def KLruKCache_get_def KLruKCache_get_main_def

text \<open>
  C4, as the source has it. With \<open>k = 2\<close> and capacity 1, one \<^verbatim>\<open>put(B, v)\<close> on a fresh
  LRU-K cache leaves B out of the main cache (a probe of the main cache alone misses)
  and records \<open>v\<close> as pending. The \<^verbatim>\<open>get(B)\<close> that follows is the second access:
  when the history cache can hold the counter (its capacity is at least 1) the counter
  reaches 2, B is admitted with \<open>v\<close> and \<open>v\<close> is returned. Only a history cache of
  capacity 0 or less, which cannot count, makes that \<^verbatim>\<open>get\<close> return nothing.
\<close>

theorem C4_lruk_cold_key:
  "(let s0 = KLruKCache_init 1 historyCapacity 2 dk;
        s1 = KLruKCache_put s0 B v
    in umap_find (lru_nodeMap (lruk_base s1)) B = None
     \<and> snd (KLruKCache_get_main s1 B) = None
     \<and> umap_find (lruk_historyValueMap s1) B = Some v
     \<and> snd (KLruKCache_get s1 B) = (if 1 \<le> historyCapacity then Some v else None)
     \<and> umap_find (lru_nodeMap (lruk_base (fst (KLruKCache_get s1 B)))) B =
         (if 1 \<le> historyCapacity then Some \<lparr>node_value = v, node_accessCount = 1\<rparr> else None))"
  by (simp add: KLruKCache_defs KLruCache_defs to_size_t_def Let_def split: option.splits)

text \<open>
  C4 as stated fails: with history capacity 10, \<^verbatim>\<open>put(B, 2)\<close> then \<^verbatim>\<open>get(B)\<close> returns 2.
\<close>

theorem C4_counterexample:
  "snd (KLruKCache_get
          (KLruKCache_put (KLruKCache_init 1 10 2 [] :: (string, nat) KLruKCache) ''B'' 2) ''B'')
     = Some 2
   \<and> snd (KLruKCache_get
          (KLruKCache_put (KLruKCache_init 1 10 2 [] :: (string, nat) KLruKCache) ''B'' 2) ''B'')
     \<noteq> None"
  by (simp add: KLruKCache_defs KLruCache_defs to_size_t_def Let_def)

lemma dom_umap_assign [simp]:
  "dom (umap_find (umap_assign k v m)) = insert k (dom (umap_find m))"
  by (auto split: if_splits)

lemma dom_umap_erase [simp]:
  "dom (umap_find (umap_erase k m)) = dom (umap_find m) - {k}"
  by (auto split: if_splits)

lemma dom_umap_Nil [simp]: "dom (umap_find []) = {}"
  by (simp add: umap_find_eq)

lemma umap_dom_empty_iff: "dom (umap_find m) = {} \<longleftrightarrow> m = []"
  by (auto simp: umap_Nil_iff)

lemma umap_dom_empty_iff2: "{} = dom (umap_find m) \<longleftrightarrow> m = []"
  using umap_dom_empty_iff[of m] by auto

section \<open>KLruCache: consistency and the capacity bound\<close>

lemma KLruCache_inv_init: "KLruCache_inv (KLruCache_init c dk)"
  by (simp add: KLruCache_inv_def KLruCache_init_def umap_keys_def)

lemma KLruCache_inv_evict:
  assumes "KLruCache_inv s"
  shows "KLruCache_inv (KLruCache_evictLeastRecent s)"
  using assms
  by (auto simp: KLruCache_inv_def KLruCache_evictLeastRecent_def KLruCache_removeNode_def
      set_umap_keys Let_def umap_dom_empty_iff split: list.splits)

lemma KLruCache_inv_put:
  assumes "KLruCache_inv s"
  shows "KLruCache_inv (KLruCache_put s k v)"
proof (cases "lru_capacity s \<le> 0")
  case True
  then show ?thesis using assms by (simp add: KLruCache_put_def)
next
  case False
  show ?thesis
  proof (cases "umap_find (lru_nodeMap s) k")
    case None
    define s1 where "s1 = (if umap_size (lru_nodeMap s) \<ge> to_size_t (lru_capacity s)
                then KLruCache_evictLeastRecent s else s)"
    have inv1: "KLruCache_inv s1"
      using assms by (simp add: s1_def KLruCache_inv_evict)
    have "dom (umap_find (lru_nodeMap s1)) \<subseteq> dom (umap_find (lru_nodeMap s))"
      by (auto simp: s1_def KLruCache_evictLeastRecent_def KLruCache_removeNode_def Let_def
          split: list.splits if_splits)
    with None have "k \<notin> dom (umap_find (lru_nodeMap s1))" by auto
    with inv1 have "KLruCache_inv (KLruCache_addNewNode k v s)"
      by (auto simp: KLruCache_addNewNode_def KLruCache_insertNode_def KLruCache_inv_def
          set_umap_keys Let_def s1_def[symmetric])
    with None False show ?thesis by (simp add: KLruCache_put_def)
  next
    case (Some node)
    then have "k \<in> dom (umap_find (lru_nodeMap s))" by auto
    with assms have "KLruCache_inv (KLruCache_updateExistingNode k node v s)"
      by (auto simp: KLruCache_updateExistingNode_def KLruCache_moveToMostRecent_def
          KLruCache_insertNode_def KLruCache_removeNode_def KLruCache_inv_def set_umap_keys
          insert_absorb)
    with Some False show ?thesis by (simp add: KLruCache_put_def)
  qed
qed

lemma KLruCache_inv_get:
  assumes "KLruCache_inv s"
  shows "KLruCache_inv (fst (KLruCache_get s k))"
  using assms
  by (auto simp: KLruCache_get_def KLruCache_moveToMostRecent_def
          KLruCache_insertNode_def KLruCache_removeNode_def KLruCache_inv_def set_umap_keys
          split: option.splits)

lemma KLruCache_inv_remove:
  assumes "KLruCache_inv s"
  shows "KLruCache_inv (KLruCache_remove s k)"
  using assms
  by (auto simp: KLruCache_remove_def KLruCache_removeNode_def KLruCache_inv_def set_umap_keys
          Let_def split: option.splits)

lemma KLruCache_size_evict:
  assumes "KLruCache_inv s" "lru_nodeMap s \<noteq> []"
  shows "Suc (umap_size (lru_nodeMap (KLruCache_evictLeastRecent s))) = umap_size (lru_nodeMap s)"
proof -
  from assms obtain x rest where l: "lru_list s = x # rest"
    by (cases "lru_list s") (auto simp: KLruCache_inv_def set_umap_keys umap_dom_empty_iff2)
  with assms have "umap_find (lru_nodeMap s) x \<noteq> None"
    by (auto simp: KLruCache_inv_def set_umap_keys)
  moreover have "0 < umap_size (lru_nodeMap s)"
    using assms by (cases "umap_size (lru_nodeMap s)") auto
  ultimately show ?thesis using l
    by (simp add: KLruCache_evictLeastRecent_def KLruCache_removeNode_def Let_def umap_size_erase
        del: umap_size_0_iff)
qed

lemma KLruCache_size_put:
  assumes inv: "KLruCache_inv s"
    and cap: "lru_capacity s < 2 ^ 31"
    and le: "int (umap_size (lru_nodeMap s)) \<le> lru_capacity s"
  shows "int (umap_size (lru_nodeMap (KLruCache_put s k v))) \<le> lru_capacity (KLruCache_put s k v)"
proof (cases "lru_capacity s \<le> 0")
  case True
  then show ?thesis using le by (simp add: KLruCache_put_def)
next
  case False
  then have c: "to_size_t (lru_capacity s) = nat (lru_capacity s)"
    using cap by (simp add: to_size_t_nat)
  show ?thesis
  proof (cases "umap_find (lru_nodeMap s) k")
    case (Some node)
    then show ?thesis using False le
      by (simp add: KLruCache_put_def KLruCache_updateExistingNode_def
          KLruCache_moveToMostRecent_def KLruCache_insertNode_def KLruCache_removeNode_def
          umap_size_assign)
  next
    case None
    show ?thesis
    proof (cases "umap_size (lru_nodeMap s) \<ge> to_size_t (lru_capacity s)")
      case True
      with c False have ne: "lru_nodeMap s \<noteq> []" by (cases "lru_nodeMap s") auto
      from KLruCache_size_evict[OF inv ne] le
      have "int (umap_size (lru_nodeMap (KLruCache_evictLeastRecent s))) < lru_capacity s"
        by linarith
      moreover have "lru_capacity (KLruCache_evictLeastRecent s) = lru_capacity s"
        by (simp add: KLruCache_evictLeastRecent_def KLruCache_removeNode_def Let_def
            split: list.splits)
      ultimately show ?thesis using None False True
        by (simp add: KLruCache_put_def KLruCache_addNewNode_def KLruCache_insertNode_def
            Let_def umap_size_assign)
    next
      case False2: False
      with c have "int (umap_size (lru_nodeMap s)) < lru_capacity s" by linarith
      then show ?thesis using None False False2
        by (simp add: KLruCache_put_def KLruCache_addNewNode_def KLruCache_insertNode_def
            Let_def umap_size_assign)
    qed
  qed
qed

section \<open>KLruCache: eviction\<close>

lemmas ArcLruPart_defs =
  ArcLruPart_init_def ArcLruPart_addToFront_def ArcLruPart_moveToFront_def
  ArcLruPart_removeOldestGhost_def ArcLruPart_addToGhost_def ArcLruPart_evictLeastRecent_def
  ArcLruPart_updateExistingNode_def ArcLruPart_addNewNode_def ArcLruPart_put_def
  ArcLruPart_updateNodeAccess_def ArcLruPart_get_def ArcLruPart_checkGhost_def
  ArcLruPart_increaseCapacity_def ArcLruPart_decreaseCapacity_def

lemma lru_example_eq:
  "lru_example =
     \<lparr>lru_capacity = 3,
      lru_nodeMap = [(1, \<lparr>node_value = ''a'', node_accessCount = 1\<rparr>),
                     (2, \<lparr>node_value = ''b'', node_accessCount = 1\<rparr>),
                     (3, \<lparr>node_value = ''c'', node_accessCount = 1\<rparr>)],
      lru_list = [2, 3, 1], lru_dummyKey = 0\<rparr>"
  by (simp add: lru_example_def KLruCache_defs to_size_t_def umap_size_def umap_keys_def
      umap_find_def umap_assign_def umap_erase_def Let_def)

lemma lru_example_put4:
  "KLruCache_put lru_example 4 ''d'' =
     \<lparr>lru_capacity = 3,
      lru_nodeMap = [(1, \<lparr>node_value = ''a'', node_accessCount = 1\<rparr>),
                     (3, \<lparr>node_value = ''c'', node_accessCount = 1\<rparr>),
                     (4, \<lparr>node_value = ''d'', node_accessCount = 1\<rparr>)],
      lru_list = [3, 1, 4], lru_dummyKey = 0\<rparr>"
  by (simp add: lru_example_eq KLruCache_defs to_size_t_def umap_size_def umap_keys_def
      umap_find_def umap_assign_def umap_erase_def Let_def)

lemma alru_example_eq:
  "alru_example =
     \<lparr>alru_capacity = 3, alru_ghostCapacity = 3, alru_transformThreshold = 2,
      alru_mainCache = [(1, \<lparr>anode_value = ''a'', anode_accessCount = 2\<rparr>),
                        (2, \<lparr>anode_value = ''b'', anode_accessCount = 1\<rparr>),
                        (3, \<lparr>anode_value = ''c'', anode_accessCount = 1\<rparr>)],
      alru_ghostCache = [], alru_mainList = [1, 3, 2], alru_ghostList = []\<rparr>"
  by (simp add: alru_example_def ArcLruPart_defs umap_size_def umap_keys_def
      umap_find_def umap_assign_def umap_erase_def Let_def)

lemma alru_example_put4:
  "fst (ArcLruPart_put alru_example 4 ''d'') =
     \<lparr>alru_capacity = 3, alru_ghostCapacity = 3, alru_transformThreshold = 2,
      alru_mainCache = [(1, \<lparr>anode_value = ''a'', anode_accessCount = 2\<rparr>),
                        (3, \<lparr>anode_value = ''c'', anode_accessCount = 1\<rparr>),
                        (4, \<lparr>anode_value = ''d'', anode_accessCount = 1\<rparr>)],
      alru_ghostCache = [(2, ())], alru_mainList = [4, 1, 3], alru_ghostList = [2]\<rparr>"
  by (simp add: alru_example_eq ArcLruPart_defs umap_size_def umap_keys_def
      umap_find_def umap_assign_def umap_erase_def Let_def)

lemma KLruCache_get_frame:
  "snd (KLruCache_get s j) = map_option node_value (umap_find (lru_nodeMap s) j)"
  by (simp add: KLruCache_get_def split: option.splits)

text \<open>
  C3, as the source has it. When \<^verbatim>\<open>put\<close> of a key that is not in the main index finds
  the index of a consistent KLruCache at its capacity, the least recent entry (the first
  node of the chain) is detached from the chain and erased from the index, and the new
  entry is appended: the evicted key misses afterwards, the new key returns its value,
  every other key answers as before and the number of entries is unchanged. KLruCache
  has no ghost list: the evicted entry is dropped. With capacity 3 and
  \<^verbatim>\<open>put(1,a), put(2,b), put(3,c), get(1), put(4,d)\<close> key 2 is the evicted entry and keys
  1, 3 and 4 are still returned. The ghost list of the claim is that of ARC's
  ArcLruPart: on the same calls its \<^verbatim>\<open>evictLeastRecent\<close> puts key 2 at the head of its
  ghost chain and into its ghost index.
\<close>

theorem C3_lru_eviction:
  assumes inv: "KLruCache_inv s"
    and cap: "0 < lru_capacity s" "lru_capacity s < 2 ^ 31"
    and full: "to_size_t (lru_capacity s) \<le> umap_size (lru_nodeMap s)"
    and new: "umap_find (lru_nodeMap s) k = None"
  shows "(\<exists>x rest. lru_list s = x # rest
            \<and> lru_list (KLruCache_put s k v) = rest @ [k]
            \<and> lru_nodeMap (KLruCache_put s k v) =
                umap_assign k \<lparr>node_value = v, node_accessCount = 1\<rparr> (umap_erase x (lru_nodeMap s))
            \<and> snd (KLruCache_get (KLruCache_put s k v) x) = None
            \<and> snd (KLruCache_get (KLruCache_put s k v) k) = Some v
            \<and> (\<forall>j. j \<noteq> x \<and> j \<noteq> k \<longrightarrow>
                   snd (KLruCache_get (KLruCache_put s k v) j) = snd (KLruCache_get s j))
            \<and> umap_size (lru_nodeMap (KLruCache_put s k v)) = umap_size (lru_nodeMap s))
       \<and> (lru_list (KLruCache_put lru_example 4 ''d'') = [3, 1, 4]
            \<and> snd (KLruCache_get (KLruCache_put lru_example 4 ''d'') 2) = None
            \<and> snd (KLruCache_get (KLruCache_put lru_example 4 ''d'') 1) = Some ''a''
            \<and> snd (KLruCache_get (KLruCache_put lru_example 4 ''d'') 3) = Some ''c''
            \<and> snd (KLruCache_get (KLruCache_put lru_example 4 ''d'') 4) = Some ''d'')
       \<and> (alru_ghostList (fst (ArcLruPart_put alru_example 4 ''d'')) = [2]
            \<and> umap_find (alru_ghostCache (fst (ArcLruPart_put alru_example 4 ''d''))) 2 = Some ()
            \<and> alru_mainList (fst (ArcLruPart_put alru_example 4 ''d'')) = [4, 1, 3]
            \<and> umap_find (alru_mainCache (fst (ArcLruPart_put alru_example 4 ''d''))) 2 = None)"
proof -
  have c: "to_size_t (lru_capacity s) = nat (lru_capacity s)"
    using cap by (simp add: to_size_t_nat)
  with cap full have ne: "lru_nodeMap s \<noteq> []" by (cases "lru_nodeMap s") auto
  with inv obtain x rest where l: "lru_list s = x # rest"
    by (cases "lru_list s") (auto simp: KLruCache_inv_def set_umap_keys umap_dom_empty_iff2)
  with inv have x: "umap_find (lru_nodeMap s) x \<noteq> None" and xr: "x \<notin> set rest"
    by (auto simp: KLruCache_inv_def set_umap_keys)
  with new have kx: "k \<noteq> x" by auto
  have put: "KLruCache_put s k v =
      s\<lparr>lru_list := rest @ [k],
        lru_nodeMap := umap_assign k \<lparr>node_value = v, node_accessCount = 1\<rparr>
                         (umap_erase x (lru_nodeMap s))\<rparr>"
    using cap full new l
    by (simp add: KLruCache_put_def KLruCache_addNewNode_def KLruCache_evictLeastRecent_def
        KLruCache_insertNode_def KLruCache_removeNode_def Let_def)
  have sz: "0 < umap_size (lru_nodeMap s)"
    using ne by (cases "umap_size (lru_nodeMap s)") auto
  have general: "\<exists>x rest. lru_list s = x # rest
            \<and> lru_list (KLruCache_put s k v) = rest @ [k]
            \<and> lru_nodeMap (KLruCache_put s k v) =
                umap_assign k \<lparr>node_value = v, node_accessCount = 1\<rparr> (umap_erase x (lru_nodeMap s))
            \<and> snd (KLruCache_get (KLruCache_put s k v) x) = None
            \<and> snd (KLruCache_get (KLruCache_put s k v) k) = Some v
            \<and> (\<forall>j. j \<noteq> x \<and> j \<noteq> k \<longrightarrow>
                   snd (KLruCache_get (KLruCache_put s k v) j) = snd (KLruCache_get s j))
            \<and> umap_size (lru_nodeMap (KLruCache_put s k v)) = umap_size (lru_nodeMap s)"
    using l x kx sz new
    by (intro exI[of _ x] exI[of _ rest])
       (auto simp add: put KLruCache_get_frame umap_size_assign umap_size_erase
          simp del: umap_size_0_iff)
  have ex1: "lru_list (KLruCache_put lru_example 4 ''d'') = [3, 1, 4]
            \<and> snd (KLruCache_get (KLruCache_put lru_example 4 ''d'') 2) = None
            \<and> snd (KLruCache_get (KLruCache_put lru_example 4 ''d'') 1) = Some ''a''
            \<and> snd (KLruCache_get (KLruCache_put lru_example 4 ''d'') 3) = Some ''c''
            \<and> snd (KLruCache_get (KLruCache_put lru_example 4 ''d'') 4) = Some ''d''"
    by (simp add: lru_example_put4 KLruCache_get_frame umap_find_def)
  have ex2: "alru_ghostList (fst (ArcLruPart_put alru_example 4 ''d'')) = [2]
            \<and> umap_find (alru_ghostCache (fst (ArcLruPart_put alru_example 4 ''d''))) 2 = Some ()
            \<and> alru_mainList (fst (ArcLruPart_put alru_example 4 ''d'')) = [4, 1, 3]
            \<and> umap_find (alru_mainCache (fst (ArcLruPart_put alru_example 4 ''d''))) 2 = None"
    by (simp add: alru_example_put4 umap_find_def)
  from general ex1 ex2 show ?thesis by blast
qed

lemma lru_example_inv: "KLruCache_inv lru_example"
  by (auto simp add: lru_example_eq KLruCache_inv_def umap_keys_def)

text \<open>The hypotheses of C3 hold of the example before its fifth call, which evicts key 2.\<close>

theorem C3_lru_eviction_witness:
  "KLruCache_inv lru_example \<and> 0 < lru_capacity lru_example \<and> lru_capacity lru_example < 2 ^ 31
   \<and> to_size_t (lru_capacity lru_example) \<le> umap_size (lru_nodeMap lru_example)
   \<and> umap_find (lru_nodeMap lru_example) 4 = None
   \<and> lru_list (KLruCache_put lru_example 4 ''d'') = [3, 1, 4]
   \<and> snd (KLruCache_get (KLruCache_put lru_example 4 ''d'') 2) = None"
proof -
  have h1: "KLruCache_inv lru_example" by (rule lru_example_inv)
  have h2: "0 < lru_capacity lru_example" and h3: "lru_capacity lru_example < 2 ^ 31"
    by (simp_all add: lru_example_eq)
  have h4: "to_size_t (lru_capacity lru_example) \<le> umap_size (lru_nodeMap lru_example)"
    by (simp add: lru_example_eq to_size_t_def umap_size_def umap_keys_def)
  have h5: "umap_find (lru_nodeMap lru_example) 4 = None"
    by (simp add: lru_example_eq umap_find_def)
  from C3_lru_eviction[OF h1 h2 h3 h4 h5, of "''d''"]
  obtain x rest where xr: "lru_list lru_example = x # rest"
    and l: "lru_list (KLruCache_put lru_example 4 ''d'') = rest @ [4]"
    and g: "snd (KLruCache_get (KLruCache_put lru_example 4 ''d'') x) = None"
    by blast
  from xr have "x = 2" "rest = [3, 1]" by (simp_all add: lru_example_eq)
  with l g h1 h2 h3 h4 h5 show ?thesis by simp
qed

text \<open>
  C3 as stated fails on KLruCache: after the five calls the whole state of the cache is
  its capacity, the three entries 1, 3 and 4, their chain and the dummy key. Key 2 is
  in no list of it.
\<close>

theorem C3_counterexample:
  "KLruCache_run (KLruCache_init 3 0)
     [Put 1 ''a'', Put 2 ''b'', Put 3 ''c'', Get 1, Put (4::nat) ''d''] =
     \<lparr>lru_capacity = 3,
      lru_nodeMap = [(1, \<lparr>node_value = ''a'', node_accessCount = 1\<rparr>),
                     (3, \<lparr>node_value = ''c'', node_accessCount = 1\<rparr>),
                     (4, \<lparr>node_value = ''d'', node_accessCount = 1\<rparr>)],
      lru_list = [3, 1, 4], lru_dummyKey = 0\<rparr>
   \<and> 2 \<notin> set (lru_list (KLruCache_run (KLruCache_init 3 0)
                  [Put 1 ''a'', Put 2 ''b'', Put 3 ''c'', Get 1, Put (4::nat) ''d'']))
   \<and> umap_find (lru_nodeMap (KLruCache_run (KLruCache_init 3 0)
                  [Put 1 ''a'', Put 2 ''b'', Put 3 ''c'', Get 1, Put (4::nat) ''d''])) 2 = None"
  by (simp add: KLruCache_defs to_size_t_def umap_size_def umap_keys_def
      umap_find_def umap_assign_def umap_erase_def Let_def)

lemmas KLfuCache_defs =
  KLfuCache_init_def KLfuCache_removeFromFreqList_def KLfuCache_addToFreqList_def
  KLfuCache_updateMinFreq_def KLfuCache_handleOverMaxAverageNum_def KLfuCache_average_def
  KLfuCache_addFreqNum_def KLfuCache_decreaseFreqNum_def KLfuCache_kickOut_def
  KLfuCache_getInternal_def KLfuCache_putInternal_def KLfuCache_put_def KLfuCache_get_def
  KLfuCache_purge_def

lemmas umap_defs = umap_find_def umap_assign_def umap_erase_def umap_keys_def umap_size_def

section \<open>KLfuCache: the steps of a call\<close>

lemma KLfuCache_lists_ok_iff:
  "KLfuCache_lists_ok s \<longleftrightarrow>
     (\<forall>k node. umap_find (lfu_nodeMap s) k = Some node \<longrightarrow>
         1 \<le> fnode_freq node \<and> umap_find (lfu_freqToFreqList s) (fnode_freq node) \<noteq> None)
     \<and> (\<forall>f. umap_find (lfu_freqToFreqList s) f \<noteq> None \<longrightarrow> 1 \<le> f)
     \<and> (lfu_nodeMap s \<noteq> [] \<longrightarrow> umap_find (lfu_freqToFreqList s) 1 \<noteq> None)
     \<and> 1 \<le> lfu_minFreq s
     \<and> - (2 ^ 31) \<le> lfu_capacity s \<and> lfu_capacity s < 2 ^ 31"
proof -
  have "list_all (\<lambda>k. case umap_find (lfu_nodeMap s) k of
                       None \<Rightarrow> True
                     | Some node \<Rightarrow>
                         1 \<le> fnode_freq node
                         \<and> umap_find (lfu_freqToFreqList s) (fnode_freq node) \<noteq> None)
               (umap_keys (lfu_nodeMap s))
     \<longleftrightarrow> (\<forall>k node. umap_find (lfu_nodeMap s) k = Some node \<longrightarrow>
         1 \<le> fnode_freq node \<and> umap_find (lfu_freqToFreqList s) (fnode_freq node) \<noteq> None)"
    by (auto simp: list_all_iff set_umap_keys split: option.splits)
  moreover have "list_all (\<lambda>f. 1 \<le> f) (umap_keys (lfu_freqToFreqList s))
     \<longleftrightarrow> (\<forall>f. umap_find (lfu_freqToFreqList s) f \<noteq> None \<longrightarrow> 1 \<le> f)"
    by (auto simp: list_all_iff set_umap_keys)
  ultimately show ?thesis by (auto simp: KLfuCache_lists_ok_def)
qed

text \<open>The fields a step leaves alone.\<close>

lemma moveNode_eq:
  assumes "umap_find (lfu_freqToFreqList s) (fnode_freq node) = Some ks"
  shows "KLfuCache_moveNode s k node f =
    Some (s\<lparr>lfu_nodeMap := umap_assign k (node\<lparr>fnode_freq := f\<rparr>) (lfu_nodeMap s),
            lfu_freqToFreqList :=
              umap_assign f
                ((if f = fnode_freq node then remove1 k ks
                  else case umap_find (lfu_freqToFreqList s) f of None \<Rightarrow> [] | Some l \<Rightarrow> l) @ [k])
                (umap_assign (fnode_freq node) (remove1 k ks) (lfu_freqToFreqList s))\<rparr>)"
  using assms
  by (simp add: KLfuCache_moveNode_def KLfuCache_removeFromFreqList_def
      KLfuCache_addToFreqList_def Let_def)

lemma moveNode_None:
  assumes "umap_find (lfu_freqToFreqList s) (fnode_freq node) = None"
  shows "KLfuCache_moveNode s k node f = None"
  using assms by (simp add: KLfuCache_moveNode_def KLfuCache_removeFromFreqList_def)

lemma moveNode_frame:
  assumes "KLfuCache_moveNode s k node f = Some s'"
  shows "lfu_capacity s' = lfu_capacity s" "lfu_minFreq s' = lfu_minFreq s"
    "lfu_maxAverageNum s' = lfu_maxAverageNum s" "lfu_curAverageNum s' = lfu_curAverageNum s"
    "lfu_curTotalNum s' = lfu_curTotalNum s" "lfu_tailKey s' = lfu_tailKey s"
    "lfu_nodeMap s' = umap_assign k (node\<lparr>fnode_freq := f\<rparr>) (lfu_nodeMap s)"
    "umap_find (lfu_freqToFreqList s) g \<noteq> None \<Longrightarrow> umap_find (lfu_freqToFreqList s') g \<noteq> None"
    "umap_find (lfu_freqToFreqList s') f \<noteq> None"
  using assms
  by (cases "umap_find (lfu_freqToFreqList s) (fnode_freq node)";
      auto simp: moveNode_eq moveNode_None)+

lemma ageNodes_Cons:
  "KLfuCache_ageNodes (k # ks) s =
     (case umap_find (lfu_nodeMap s) k of
        None \<Rightarrow> KLfuCache_ageNodes ks s
      | Some node \<Rightarrow>
          (case KLfuCache_moveNode s k node (KLfuCache_aged (lfu_maxAverageNum s) (fnode_freq node)) of
             None \<Rightarrow> None
           | Some s1 \<Rightarrow> KLfuCache_ageNodes ks s1))"
proof (cases "umap_find (lfu_nodeMap s) k")
  case None
  then show ?thesis by simp
next
  case (Some node)
  show ?thesis
  proof (cases "umap_find (lfu_freqToFreqList s) (fnode_freq node)")
    case None
    with Some show ?thesis
      by (simp add: KLfuCache_moveNode_def KLfuCache_removeFromFreqList_def)
  next
    case (Some ks')
    with \<open>umap_find (lfu_nodeMap s) k = Some node\<close> show ?thesis
      by (simp add: KLfuCache_moveNode_def KLfuCache_aged_def KLfuCache_removeFromFreqList_def
          Let_def)
  qed
qed

lemma getInternal_eq:
  "KLfuCache_getInternal s k node =
     (case KLfuCache_moveNode s k node (fnode_freq node + 1) of
        None \<Rightarrow> None
      | Some s3 \<Rightarrow>
          (case (if fnode_freq node = lfu_minFreq s3
                 then (case umap_find (lfu_freqToFreqList s3) (fnode_freq node) of
                         None \<Rightarrow> None
                       | Some ks \<Rightarrow>
                           Some (if ks = [] then s3\<lparr>lfu_minFreq := lfu_minFreq s3 + 1\<rparr> else s3))
                 else Some s3) of
             None \<Rightarrow> None
           | Some s4 \<Rightarrow>
               (case KLfuCache_addFreqNum s4 of
                  None \<Rightarrow> None
                | Some s5 \<Rightarrow> Some (s5, fnode_value node))))"
  by (simp add: KLfuCache_getInternal_def KLfuCache_moveNode_def Let_def split: option.splits)

declare KLfuCache_ageNodes.simps(2) [simp del]

section \<open>KLfuCache: no call is undefined\<close>

lemma moveNode_ok:
  assumes "KLfuCache_lists_ok s" "umap_find (lfu_nodeMap s) k = Some node" "1 \<le> f"
  shows "\<exists>s'. KLfuCache_moveNode s k node f = Some s' \<and> KLfuCache_lists_ok s'"
proof -
  from assms have "umap_find (lfu_freqToFreqList s) (fnode_freq node) \<noteq> None"
    unfolding KLfuCache_lists_ok_iff by blast
  then obtain ks where ks: "umap_find (lfu_freqToFreqList s) (fnode_freq node) = Some ks"
    by blast
  let ?s' = "the (KLfuCache_moveNode s k node f)"
  have m: "KLfuCache_moveNode s k node f = Some ?s'"
    by (simp add: moveNode_eq[OF ks])
  have ne: "lfu_nodeMap s \<noteq> []" using assms(2) by auto
  have b: "umap_find (lfu_freqToFreqList ?s') g \<noteq> None \<Longrightarrow>
      g = f \<or> umap_find (lfu_freqToFreqList s) g \<noteq> None" for g
    using ks by (auto simp: moveNode_eq[OF ks] split: if_splits)
  note ok = assms(1)[unfolded KLfuCache_lists_ok_iff]
  have c1: "1 \<le> fnode_freq n \<and> umap_find (lfu_freqToFreqList ?s') (fnode_freq n) \<noteq> None"
    if "umap_find (lfu_nodeMap ?s') j = Some n" for j n
  proof (cases "j = k")
    case True
    with that have "n = node\<lparr>fnode_freq := f\<rparr>" by (simp add: moveNode_frame(7)[OF m])
    then show ?thesis using assms(3) moveNode_frame(9)[OF m] by simp
  next
    case False
    with that have "umap_find (lfu_nodeMap s) j = Some n" by (simp add: moveNode_frame(7)[OF m])
    with ok have "1 \<le> fnode_freq n" "umap_find (lfu_freqToFreqList s) (fnode_freq n) \<noteq> None"
      by blast+
    then show ?thesis using moveNode_frame(8)[OF m] by blast
  qed
  have c2: "1 \<le> g" if "umap_find (lfu_freqToFreqList ?s') g \<noteq> None" for g
    using b[OF that] assms(3) ok by blast
  have c3: "umap_find (lfu_freqToFreqList ?s') 1 \<noteq> None"
    using ok ne moveNode_frame(8)[OF m] by blast
  have "KLfuCache_lists_ok ?s'"
    unfolding KLfuCache_lists_ok_iff
    using c1 c2 c3 ok by (simp add: moveNode_frame(1,2)[OF m])
  with m show ?thesis by blast
qed

lemma moveNode_value:
  assumes "KLfuCache_moveNode s k node f = Some s'" "umap_find (lfu_nodeMap s) k = Some node"
  shows "KLfuCache_value s' j = KLfuCache_value s j"
  using assms by (simp add: KLfuCache_value_def moveNode_frame(7))

lemma KLfuCache_aged_ge1: "1 \<le> KLfuCache_aged m f"
  by (simp add: KLfuCache_aged_def Let_def)

lemma ageNodes_ok:
  assumes "KLfuCache_lists_ok s"
  shows "\<exists>s'. KLfuCache_ageNodes ks s = Some s' \<and> KLfuCache_lists_ok s'
     \<and> lfu_capacity s' = lfu_capacity s \<and> lfu_minFreq s' = lfu_minFreq s
     \<and> lfu_maxAverageNum s' = lfu_maxAverageNum s \<and> lfu_curAverageNum s' = lfu_curAverageNum s
     \<and> lfu_curTotalNum s' = lfu_curTotalNum s \<and> lfu_tailKey s' = lfu_tailKey s
     \<and> (\<forall>j. KLfuCache_value s' j = KLfuCache_value s j)
     \<and> (\<forall>g. umap_find (lfu_freqToFreqList s) g \<noteq> None \<longrightarrow>
              umap_find (lfu_freqToFreqList s') g \<noteq> None)"
  using assms
proof (induction ks arbitrary: s)
  case Nil
  then show ?case by simp
next
  case (Cons k ks)
  show ?case
  proof (cases "umap_find (lfu_nodeMap s) k")
    case None
    with Cons show ?thesis by (simp add: ageNodes_Cons)
  next
    case (Some node)
    from moveNode_ok[OF Cons.prems Some KLfuCache_aged_ge1]
    obtain s1 where m: "KLfuCache_moveNode s k node (KLfuCache_aged (lfu_maxAverageNum s) (fnode_freq node)) = Some s1"
      and s1: "KLfuCache_lists_ok s1" by blast
    from Cons.IH[OF s1] obtain s' where r: "KLfuCache_ageNodes ks s1 = Some s'"
      and s': "KLfuCache_lists_ok s'"
      and fr: "lfu_capacity s' = lfu_capacity s1" "lfu_minFreq s' = lfu_minFreq s1"
        "lfu_maxAverageNum s' = lfu_maxAverageNum s1" "lfu_curAverageNum s' = lfu_curAverageNum s1"
        "lfu_curTotalNum s' = lfu_curTotalNum s1" "lfu_tailKey s' = lfu_tailKey s1"
        "\<forall>j. KLfuCache_value s' j = KLfuCache_value s1 j"
        "\<forall>g. umap_find (lfu_freqToFreqList s1) g \<noteq> None \<longrightarrow>
              umap_find (lfu_freqToFreqList s') g \<noteq> None"
      by blast
    have "KLfuCache_ageNodes (k # ks) s = Some s'"
      using Some m r by (simp add: ageNodes_Cons)
    moreover have "\<forall>j. KLfuCache_value s' j = KLfuCache_value s j"
      using fr(7) moveNode_value[OF m Some] by simp
    moreover have "\<forall>g. umap_find (lfu_freqToFreqList s) g \<noteq> None \<longrightarrow>
              umap_find (lfu_freqToFreqList s') g \<noteq> None"
      using fr(8) moveNode_frame(8)[OF m] by blast
    ultimately show ?thesis
      using s' fr(1-6) moveNode_frame(1-6)[OF m] by simp
  qed
qed

lemma value_Nil_iff: "lfu_nodeMap s = [] \<longleftrightarrow> (\<forall>j. KLfuCache_value s j = None)"
  by (simp add: KLfuCache_value_def umap_Nil_iff)

lemma fold_minFreq_mem:
  "fold (\<lambda>f m. case umap_find bk f of None \<Rightarrow> m | Some ks \<Rightarrow> if ks \<noteq> [] then min m f else m) fs m0
     \<in> insert m0 {f. \<exists>ks. umap_find bk f = Some ks \<and> ks \<noteq> []}"
proof (induction fs arbitrary: m0)
  case Nil
  then show ?case by simp
next
  case (Cons f fs)
  show ?case
    using Cons.IH[of m0] Cons.IH[of "min m0 f"]
    by (auto split: option.splits simp: min_def)
qed

lemma updateMinFreq_frame:
  "lfu_capacity (KLfuCache_updateMinFreq s) = lfu_capacity s"
  "lfu_maxAverageNum (KLfuCache_updateMinFreq s) = lfu_maxAverageNum s"
  "lfu_curAverageNum (KLfuCache_updateMinFreq s) = lfu_curAverageNum s"
  "lfu_curTotalNum (KLfuCache_updateMinFreq s) = lfu_curTotalNum s"
  "lfu_tailKey (KLfuCache_updateMinFreq s) = lfu_tailKey s"
  "lfu_nodeMap (KLfuCache_updateMinFreq s) = lfu_nodeMap s"
  "lfu_freqToFreqList (KLfuCache_updateMinFreq s) = lfu_freqToFreqList s"
  by (simp_all add: KLfuCache_updateMinFreq_def Let_def)

lemma updateMinFreq_safe:
  assumes "KLfuCache_lists_ok s"
  shows "KLfuCache_safe (KLfuCache_updateMinFreq s)"
proof -
  let ?m = "fold (\<lambda>f m. case umap_find (lfu_freqToFreqList s) f of
                             None \<Rightarrow> m
                           | Some ks \<Rightarrow> if ks \<noteq> [] then min m f else m)
                   (umap_keys (lfu_freqToFreqList s)) INT8_MAX"
  have mf: "lfu_minFreq (KLfuCache_updateMinFreq s) = (if ?m = INT8_MAX then 1 else ?m)"
    by (simp add: KLfuCache_updateMinFreq_def Let_def)
  have "?m \<noteq> INT8_MAX \<Longrightarrow> umap_find (lfu_freqToFreqList s) ?m \<noteq> None"
    using fold_minFreq_mem[of "lfu_freqToFreqList s" "umap_keys (lfu_freqToFreqList s)" INT8_MAX]
    by auto
  then show ?thesis
    using assms unfolding KLfuCache_safe_def KLfuCache_lists_ok_iff updateMinFreq_frame mf
    by auto
qed

lemma handleOverMaxAverageNum_ok:
  assumes "KLfuCache_lists_ok s"
  shows "\<exists>s'. KLfuCache_handleOverMaxAverageNum s = Some s' \<and> KLfuCache_safe s'
     \<and> lfu_capacity s' = lfu_capacity s
     \<and> lfu_maxAverageNum s' = lfu_maxAverageNum s \<and> lfu_curAverageNum s' = lfu_curAverageNum s
     \<and> lfu_curTotalNum s' = lfu_curTotalNum s \<and> lfu_tailKey s' = lfu_tailKey s
     \<and> (\<forall>j. KLfuCache_value s' j = KLfuCache_value s j)
     \<and> (\<forall>g. umap_find (lfu_freqToFreqList s) g \<noteq> None \<longrightarrow>
              umap_find (lfu_freqToFreqList s') g \<noteq> None)"
proof (cases "lfu_nodeMap s = []")
  case True
  then show ?thesis using assms
    by (simp add: KLfuCache_handleOverMaxAverageNum_def KLfuCache_safe_def)
next
  case False
  from ageNodes_ok[OF assms, of "umap_keys (lfu_nodeMap s)"]
  obtain s1 where r: "KLfuCache_ageNodes (umap_keys (lfu_nodeMap s)) s = Some s1"
    and s1: "KLfuCache_lists_ok s1"
    and fr: "lfu_capacity s1 = lfu_capacity s"
        "lfu_maxAverageNum s1 = lfu_maxAverageNum s" "lfu_curAverageNum s1 = lfu_curAverageNum s"
        "lfu_curTotalNum s1 = lfu_curTotalNum s" "lfu_tailKey s1 = lfu_tailKey s"
        "\<forall>j. KLfuCache_value s1 j = KLfuCache_value s j"
        "\<forall>g. umap_find (lfu_freqToFreqList s) g \<noteq> None \<longrightarrow>
              umap_find (lfu_freqToFreqList s1) g \<noteq> None"
    by blast
  have "KLfuCache_handleOverMaxAverageNum s = Some (KLfuCache_updateMinFreq s1)"
    using False r by (simp add: KLfuCache_handleOverMaxAverageNum_def)
  then show ?thesis
    using updateMinFreq_safe[OF s1] fr
    by (simp add: updateMinFreq_frame KLfuCache_value_def)
qed

lemma lists_ok_counters:
  assumes "KLfuCache_lists_ok s"
  shows "KLfuCache_lists_ok (s\<lparr>lfu_curTotalNum := t, lfu_curAverageNum := a\<rparr>)"
  using assms by (simp add: KLfuCache_lists_ok_iff)

text \<open>
  \<^verbatim>\<open>addFreqNum\<close> returns; it keeps the lists in order, and the list of \<^verbatim>\<open>minFreq_\<close>
  exists afterwards if it did before.
\<close>

lemma addFreqNum_ok:
  assumes "KLfuCache_lists_ok s"
  shows "\<exists>s'. KLfuCache_addFreqNum s = Some s' \<and> KLfuCache_lists_ok s'
     \<and> (KLfuCache_safe s \<longrightarrow> KLfuCache_safe s')
     \<and> lfu_capacity s' = lfu_capacity s
     \<and> lfu_maxAverageNum s' = lfu_maxAverageNum s
     \<and> lfu_curTotalNum s' = lfu_curTotalNum s + 1 \<and> lfu_tailKey s' = lfu_tailKey s
     \<and> (\<forall>j. KLfuCache_value s' j = KLfuCache_value s j)
     \<and> (\<forall>g. umap_find (lfu_freqToFreqList s) g \<noteq> None \<longrightarrow>
              umap_find (lfu_freqToFreqList s') g \<noteq> None)"
proof -
  let ?s2 = "s\<lparr>lfu_curTotalNum := lfu_curTotalNum s + 1,
               lfu_curAverageNum := KLfuCache_average (s\<lparr>lfu_curTotalNum := lfu_curTotalNum s + 1\<rparr>)\<rparr>"
  have s2: "KLfuCache_lists_ok ?s2" by (rule lists_ok_counters[OF assms])
  have e: "KLfuCache_addFreqNum s =
      (if lfu_curAverageNum ?s2 > lfu_maxAverageNum ?s2
       then KLfuCache_handleOverMaxAverageNum ?s2 else Some ?s2)"
    by (simp add: KLfuCache_addFreqNum_def Let_def)
  show ?thesis
  proof (cases "lfu_curAverageNum ?s2 > lfu_maxAverageNum ?s2")
    case True
    from handleOverMaxAverageNum_ok[OF s2] True e show ?thesis
      by (auto simp: KLfuCache_value_def KLfuCache_safe_def)
  next
    case False
    with e s2 show ?thesis by (auto simp: KLfuCache_value_def KLfuCache_safe_def)
  qed
qed

lemma to_size_t_nonzero:
  assumes "- (2 ^ 31) \<le> c" "c < 2 ^ 31" "c \<noteq> 0"
  shows "to_size_t c \<noteq> 0"
proof -
  have "c mod 2 ^ 64 \<noteq> 0"
    using assms by (auto simp: zmod_eq_0_iff)
  moreover have "0 \<le> c mod 2 ^ 64" by simp
  ultimately show ?thesis by (simp add: to_size_t_def)
qed

lemma getInternal_safe:
  assumes safe: "KLfuCache_safe s" and k: "umap_find (lfu_nodeMap s) k = Some node"
  shows "\<exists>s'. KLfuCache_getInternal s k node = Some (s', fnode_value node) \<and> KLfuCache_safe s'
     \<and> lfu_capacity s' = lfu_capacity s
     \<and> lfu_maxAverageNum s' = lfu_maxAverageNum s
     \<and> lfu_curTotalNum s' = lfu_curTotalNum s + 1 \<and> lfu_tailKey s' = lfu_tailKey s
     \<and> (\<forall>j. KLfuCache_value s' j = KLfuCache_value s j)"
proof -
  from safe have ok: "KLfuCache_lists_ok s" by (simp add: KLfuCache_safe_def)
  note oks = ok[unfolded KLfuCache_lists_ok_iff]
  from oks k have f1: "1 \<le> fnode_freq node"
    and fb: "umap_find (lfu_freqToFreqList s) (fnode_freq node) \<noteq> None" by blast+
  have ne: "lfu_nodeMap s \<noteq> []" using k by auto
  with safe have mb: "umap_find (lfu_freqToFreqList s) (lfu_minFreq s) \<noteq> None"
    by (simp add: KLfuCache_safe_def)
  from moveNode_ok[OF ok k, of "fnode_freq node + 1"] f1
  obtain s3 where m: "KLfuCache_moveNode s k node (fnode_freq node + 1) = Some s3"
    and ok3: "KLfuCache_lists_ok s3" by auto
  note fr = moveNode_frame[OF m]
  from fb fr(8) obtain ks where ks: "umap_find (lfu_freqToFreqList s3) (fnode_freq node) = Some ks"
    by blast
  define s4 where "s4 = (if fnode_freq node = lfu_minFreq s3 \<and> ks = []
                         then s3\<lparr>lfu_minFreq := lfu_minFreq s3 + 1\<rparr> else s3)"
  have e: "KLfuCache_getInternal s k node =
     (case KLfuCache_addFreqNum s4 of None \<Rightarrow> None | Some s5 \<Rightarrow> Some (s5, fnode_value node))"
    using ks by (auto simp: getInternal_eq m s4_def)
  have ne3: "lfu_nodeMap s3 \<noteq> []" by (simp add: fr(7))
  have ok4: "KLfuCache_lists_ok s4"
    using ok3 by (auto simp: s4_def KLfuCache_lists_ok_iff)
  have "umap_find (lfu_freqToFreqList s4) (lfu_minFreq s4) \<noteq> None"
    using fr(8)[OF mb] fr(9) fr(2) by (auto simp: s4_def)
  with ok4 have safe4: "KLfuCache_safe s4" by (simp add: KLfuCache_safe_def)
  have fr4: "lfu_capacity s4 = lfu_capacity s" "lfu_maxAverageNum s4 = lfu_maxAverageNum s"
    "lfu_curTotalNum s4 = lfu_curTotalNum s" "lfu_tailKey s4 = lfu_tailKey s"
    "KLfuCache_value s4 j = KLfuCache_value s j" for j
    using fr(1-6) moveNode_value[OF m k, of j] by (auto simp: s4_def KLfuCache_value_def)
  from addFreqNum_ok[OF ok4] safe4 obtain s5 where r5: "KLfuCache_addFreqNum s4 = Some s5"
    and safe5: "KLfuCache_safe s5"
    and fr5: "lfu_capacity s5 = lfu_capacity s4" "lfu_maxAverageNum s5 = lfu_maxAverageNum s4"
      "lfu_curTotalNum s5 = lfu_curTotalNum s4 + 1" "lfu_tailKey s5 = lfu_tailKey s4"
      "\<forall>j. KLfuCache_value s5 j = KLfuCache_value s4 j"
    by blast
  show ?thesis
    by (intro exI[of _ s5] conjI safe5) (simp_all add: e r5 fr5 fr4)
qed

lemma decreaseFreqNum_frame:
  "lfu_capacity (KLfuCache_decreaseFreqNum s n) = lfu_capacity s"
  "lfu_maxAverageNum (KLfuCache_decreaseFreqNum s n) = lfu_maxAverageNum s"
  "lfu_minFreq (KLfuCache_decreaseFreqNum s n) = lfu_minFreq s"
  "lfu_tailKey (KLfuCache_decreaseFreqNum s n) = lfu_tailKey s"
  "lfu_nodeMap (KLfuCache_decreaseFreqNum s n) = lfu_nodeMap s"
  "lfu_freqToFreqList (KLfuCache_decreaseFreqNum s n) = lfu_freqToFreqList s"
  "lfu_curTotalNum (KLfuCache_decreaseFreqNum s n) = lfu_curTotalNum s - n"
  by (simp_all add: KLfuCache_decreaseFreqNum_def Let_def)

text \<open>
  What \<^verbatim>\<open>kickOut\<close> does to the map: it erases the key of the first node of the list
  of \<^verbatim>\<open>minFreq_\<close>, or the sentinel's key when that list is empty.
\<close>

lemma kickOut_eq:
  assumes "umap_find (lfu_freqToFreqList s) (lfu_minFreq s) = Some l"
    and "umap_find (lfu_freqToFreqList s) 1 \<noteq> None"
  shows "\<exists>s'. KLfuCache_kickOut s = Some s'
     \<and> lfu_nodeMap s' = umap_erase (case l of [] \<Rightarrow> lfu_tailKey s | x # xs \<Rightarrow> x) (lfu_nodeMap s)
     \<and> lfu_freqToFreqList s' =
          (case l of [] \<Rightarrow> lfu_freqToFreqList s
           | x # xs \<Rightarrow> umap_assign (lfu_minFreq s) (remove1 x l) (lfu_freqToFreqList s))
     \<and> lfu_capacity s' = lfu_capacity s \<and> lfu_maxAverageNum s' = lfu_maxAverageNum s
     \<and> lfu_minFreq s' = lfu_minFreq s \<and> lfu_tailKey s' = lfu_tailKey s
     \<and> lfu_curTotalNum s' = lfu_curTotalNum s - (case l of [] \<Rightarrow> 1 | x # xs \<Rightarrow> lfu_minFreq s)"
  using assms
  by (cases l)
     (auto simp: KLfuCache_kickOut_def KLfuCache_removeFromFreqList_def decreaseFreqNum_frame)

lemma kickOut_safe:
  assumes safe: "KLfuCache_safe s" and ne: "lfu_nodeMap s \<noteq> []"
  shows "\<exists>s'. KLfuCache_kickOut s = Some s' \<and> KLfuCache_lists_ok s'
     \<and> lfu_capacity s' = lfu_capacity s
     \<and> lfu_maxAverageNum s' = lfu_maxAverageNum s \<and> lfu_tailKey s' = lfu_tailKey s
     \<and> (\<forall>j. KLfuCache_value s' j = None \<or> KLfuCache_value s' j = KLfuCache_value s j)
     \<and> (\<forall>g. umap_find (lfu_freqToFreqList s) g \<noteq> None \<longrightarrow>
              umap_find (lfu_freqToFreqList s') g \<noteq> None)
     \<and> (\<forall>g. umap_find (lfu_freqToFreqList s') g \<noteq> None \<longrightarrow>
              umap_find (lfu_freqToFreqList s) g \<noteq> None)"
proof -
  from safe have ok: "KLfuCache_lists_ok s" by (simp add: KLfuCache_safe_def)
  note oks = ok[unfolded KLfuCache_lists_ok_iff]
  from safe ne obtain l where l: "umap_find (lfu_freqToFreqList s) (lfu_minFreq s) = Some l"
    by (auto simp: KLfuCache_safe_def)
  from oks ne have b1: "umap_find (lfu_freqToFreqList s) 1 \<noteq> None" by blast
  from kickOut_eq[OF l b1] obtain s' where r: "KLfuCache_kickOut s = Some s'"
    and nm: "lfu_nodeMap s' = umap_erase (case l of [] \<Rightarrow> lfu_tailKey s | x # xs \<Rightarrow> x) (lfu_nodeMap s)"
    and bk: "lfu_freqToFreqList s' =
          (case l of [] \<Rightarrow> lfu_freqToFreqList s
           | x # xs \<Rightarrow> umap_assign (lfu_minFreq s) (remove1 x l) (lfu_freqToFreqList s))"
    and fr: "lfu_capacity s' = lfu_capacity s" "lfu_maxAverageNum s' = lfu_maxAverageNum s"
      "lfu_minFreq s' = lfu_minFreq s" "lfu_tailKey s' = lfu_tailKey s"
    by blast
  have mono: "umap_find (lfu_freqToFreqList s') g \<noteq> None \<longleftrightarrow>
      umap_find (lfu_freqToFreqList s) g \<noteq> None" for g
    using l by (auto simp: bk split: list.splits)
  have sub: "umap_find (lfu_nodeMap s') j = Some n \<Longrightarrow> umap_find (lfu_nodeMap s) j = Some n" for j n
    by (auto simp: nm split: if_splits)
  have c1: "1 \<le> fnode_freq n \<and> umap_find (lfu_freqToFreqList s') (fnode_freq n) \<noteq> None"
    if "umap_find (lfu_nodeMap s') j = Some n" for j n
  proof -
    from sub[OF that] oks
    have "1 \<le> fnode_freq n" "umap_find (lfu_freqToFreqList s) (fnode_freq n) \<noteq> None"
      by blast+
    then show ?thesis using mono by blast
  qed
  have c2: "1 \<le> g" if "umap_find (lfu_freqToFreqList s') g \<noteq> None" for g
    using that mono oks by blast
  have c3: "umap_find (lfu_freqToFreqList s') 1 \<noteq> None" using b1 mono by blast
  have ok': "KLfuCache_lists_ok s'"
    unfolding KLfuCache_lists_ok_iff using c1 c2 c3 oks by (simp add: fr)
  have v: "\<forall>j. KLfuCache_value s' j = None \<or> KLfuCache_value s' j = KLfuCache_value s j"
    by (simp add: KLfuCache_value_def nm)
  show ?thesis
    by (intro exI[of _ s'] conjI r ok' fr v) (use mono in blast)+
qed

lemma putInternal_safe:
  assumes safe: "KLfuCache_safe s" and cap: "lfu_capacity s \<noteq> 0"
  shows "\<exists>s'. KLfuCache_putInternal s k v = Some s' \<and> KLfuCache_safe s'
     \<and> lfu_capacity s' = lfu_capacity s
     \<and> lfu_maxAverageNum s' = lfu_maxAverageNum s \<and> lfu_tailKey s' = lfu_tailKey s
     \<and> KLfuCache_value s' k = Some v
     \<and> (\<forall>j. j \<noteq> k \<longrightarrow> KLfuCache_value s' j = None \<or> KLfuCache_value s' j = KLfuCache_value s j)"
proof -
  from safe have ok: "KLfuCache_lists_ok s" by (simp add: KLfuCache_safe_def)
  note oks = ok[unfolded KLfuCache_lists_ok_iff]
  have "\<exists>s1. (if umap_size (lfu_nodeMap s) = to_size_t (lfu_capacity s)
            then KLfuCache_kickOut s else Some s) = Some s1 \<and> KLfuCache_lists_ok s1
     \<and> lfu_capacity s1 = lfu_capacity s
     \<and> lfu_maxAverageNum s1 = lfu_maxAverageNum s \<and> lfu_tailKey s1 = lfu_tailKey s
     \<and> (\<forall>j. KLfuCache_value s1 j = None \<or> KLfuCache_value s1 j = KLfuCache_value s j)"
  proof (cases "umap_size (lfu_nodeMap s) = to_size_t (lfu_capacity s)")
    case True
    have "to_size_t (lfu_capacity s) \<noteq> 0"
      using oks cap by (intro to_size_t_nonzero) auto
    with True have "lfu_nodeMap s \<noteq> []" by auto
    from kickOut_safe[OF safe this] True show ?thesis by auto
  next
    case False
    then show ?thesis using ok by simp
  qed
  then obtain s1 where r1: "(if umap_size (lfu_nodeMap s) = to_size_t (lfu_capacity s)
            then KLfuCache_kickOut s else Some s) = Some s1"
    and ok1: "KLfuCache_lists_ok s1"
    and fr1: "lfu_capacity s1 = lfu_capacity s"
      "lfu_maxAverageNum s1 = lfu_maxAverageNum s" "lfu_tailKey s1 = lfu_tailKey s"
      "\<forall>j. KLfuCache_value s1 j = None \<or> KLfuCache_value s1 j = KLfuCache_value s j"
    by blast
  define s3 where "s3 = KLfuCache_addToFreqList
      (s1\<lparr>lfu_nodeMap := umap_assign k \<lparr>fnode_value = v, fnode_freq = 1\<rparr> (lfu_nodeMap s1)\<rparr>) k 1"
  have e: "KLfuCache_putInternal s k v =
      (case KLfuCache_addFreqNum s3 of None \<Rightarrow> None
       | Some s4 \<Rightarrow> Some (s4\<lparr>lfu_minFreq := min (lfu_minFreq s4) 1\<rparr>))"
    by (simp add: KLfuCache_putInternal_def r1 s3_def Let_def)
  note ok1s = ok1[unfolded KLfuCache_lists_ok_iff]
  have nm3: "lfu_nodeMap s3 = umap_assign k \<lparr>fnode_value = v, fnode_freq = 1\<rparr> (lfu_nodeMap s1)"
    and bk3: "umap_find (lfu_freqToFreqList s3) g \<noteq> None \<longleftrightarrow>
         g = 1 \<or> umap_find (lfu_freqToFreqList s1) g \<noteq> None"
    and fr3: "lfu_capacity s3 = lfu_capacity s1" "lfu_maxAverageNum s3 = lfu_maxAverageNum s1"
      "lfu_tailKey s3 = lfu_tailKey s1" "lfu_minFreq s3 = lfu_minFreq s1" for g
    by (auto simp: s3_def KLfuCache_addToFreqList_def Let_def)
  have c1: "1 \<le> fnode_freq n \<and> umap_find (lfu_freqToFreqList s3) (fnode_freq n) \<noteq> None"
    if "umap_find (lfu_nodeMap s3) j = Some n" for j n
  proof (cases "j = k")
    case True
    with that have "n = \<lparr>fnode_value = v, fnode_freq = 1\<rparr>" by (simp add: nm3)
    moreover have "umap_find (lfu_freqToFreqList s3) 1 \<noteq> None" using bk3 by blast
    ultimately show ?thesis by simp
  next
    case False
    with that have "umap_find (lfu_nodeMap s1) j = Some n" by (simp add: nm3)
    with ok1s have "1 \<le> fnode_freq n" "umap_find (lfu_freqToFreqList s1) (fnode_freq n) \<noteq> None"
      by blast+
    then show ?thesis using bk3 by blast
  qed
  have c2: "1 \<le> g" if "umap_find (lfu_freqToFreqList s3) g \<noteq> None" for g
  proof -
    from that bk3 have "g = 1 \<or> umap_find (lfu_freqToFreqList s1) g \<noteq> None" by blast
    with ok1s show ?thesis by auto
  qed
  have c3: "umap_find (lfu_freqToFreqList s3) 1 \<noteq> None" using bk3 by blast
  have ok3: "KLfuCache_lists_ok s3"
    unfolding KLfuCache_lists_ok_iff using c1 c2 c3 ok1s by (simp add: fr3)
  from addFreqNum_ok[OF ok3] obtain s4 where r4: "KLfuCache_addFreqNum s3 = Some s4"
    and ok4: "KLfuCache_lists_ok s4"
    and fr4: "lfu_capacity s4 = lfu_capacity s3" "lfu_maxAverageNum s4 = lfu_maxAverageNum s3"
      "lfu_tailKey s4 = lfu_tailKey s3" "\<forall>j. KLfuCache_value s4 j = KLfuCache_value s3 j"
      "\<forall>g. umap_find (lfu_freqToFreqList s3) g \<noteq> None \<longrightarrow>
              umap_find (lfu_freqToFreqList s4) g \<noteq> None"
    by blast
  let ?s' = "s4\<lparr>lfu_minFreq := min (lfu_minFreq s4) 1\<rparr>"
  have r: "KLfuCache_putInternal s k v = Some ?s'" by (simp add: e r4)
  have b1: "umap_find (lfu_freqToFreqList s4) 1 \<noteq> None"
    using fr4(5) bk3 by blast
  have m1: "min (lfu_minFreq s4) 1 = 1"
    using ok4 by (simp add: KLfuCache_lists_ok_iff)
  have safe': "KLfuCache_safe ?s'"
    using ok4 b1 by (simp add: KLfuCache_safe_def KLfuCache_lists_ok_iff m1)
  have v3: "KLfuCache_value ?s' j = KLfuCache_value s3 j" for j
    using fr4(4) by (simp add: KLfuCache_value_def)
  have vk: "KLfuCache_value ?s' k = Some v"
    by (simp add: v3) (simp add: KLfuCache_value_def nm3)
  have vj: "KLfuCache_value ?s' j = None \<or> KLfuCache_value ?s' j = KLfuCache_value s j"
    if "j \<noteq> k" for j
  proof -
    have "KLfuCache_value s3 j = KLfuCache_value s1 j"
      using that by (simp add: KLfuCache_value_def nm3)
    with fr1(4) v3[of j] show ?thesis by metis
  qed
  have frs: "lfu_capacity ?s' = lfu_capacity s" "lfu_maxAverageNum ?s' = lfu_maxAverageNum s"
    "lfu_tailKey ?s' = lfu_tailKey s"
    using fr1(1-3) fr3(1-3) fr4(1-3) by simp_all
  show ?thesis
    by (intro exI[of _ ?s'] conjI r safe' vk frs) (use vj in blast)
qed

lemma KLfuCache_safe_init:
  assumes "- (2 ^ 31) \<le> c" "c < 2 ^ 31"
  shows "KLfuCache_safe (KLfuCache_init c m tk)"
  using assms
  by (simp add: KLfuCache_safe_def KLfuCache_lists_ok_def KLfuCache_init_def INT8_MAX_def
      umap_keys_def)

lemma KLfuCache_put_safe:
  assumes safe: "KLfuCache_safe s"
  shows "\<exists>s'. KLfuCache_put s k v = Some s' \<and> KLfuCache_safe s'
     \<and> lfu_capacity s' = lfu_capacity s
     \<and> lfu_maxAverageNum s' = lfu_maxAverageNum s \<and> lfu_tailKey s' = lfu_tailKey s
     \<and> (lfu_capacity s \<noteq> 0 \<longrightarrow> KLfuCache_value s' k = Some v)
     \<and> (lfu_capacity s = 0 \<longrightarrow> s' = s)
     \<and> (\<forall>j. j \<noteq> k \<longrightarrow> KLfuCache_value s' j = None \<or> KLfuCache_value s' j = KLfuCache_value s j)"
proof (cases "lfu_capacity s = 0")
  case True
  then show ?thesis using safe by (simp add: KLfuCache_put_def)
next
  case False
  show ?thesis
  proof (cases "umap_find (lfu_nodeMap s) k")
    case None
    with False have e: "KLfuCache_put s k v = KLfuCache_putInternal s k v"
      by (simp add: KLfuCache_put_def)
    from putInternal_safe[OF safe False, of k v] show ?thesis
      unfolding e using False by auto
  next
    case (Some node)
    define node1 where "node1 = node\<lparr>fnode_value := v\<rparr>"
    define s1 where "s1 = s\<lparr>lfu_nodeMap := umap_assign k node1 (lfu_nodeMap s)\<rparr>"
    have e: "KLfuCache_put s k v = map_option fst (KLfuCache_getInternal s1 k node1)"
      using False Some by (simp add: KLfuCache_put_def s1_def node1_def Let_def)
    have k1: "umap_find (lfu_nodeMap s1) k = Some node1" by (simp add: s1_def)
    have ne: "lfu_nodeMap s \<noteq> []" using Some by auto
    have safe1: "KLfuCache_safe s1"
      using safe Some ne unfolding KLfuCache_safe_def KLfuCache_lists_ok_iff
      by (auto simp: s1_def node1_def)
    from getInternal_safe[OF safe1 k1] obtain s' where
      r: "KLfuCache_getInternal s1 k node1 = Some (s', fnode_value node1)"
      and safe': "KLfuCache_safe s'"
      and fr: "lfu_capacity s' = lfu_capacity s1" "lfu_maxAverageNum s' = lfu_maxAverageNum s1"
        "lfu_tailKey s' = lfu_tailKey s1" "\<forall>j. KLfuCache_value s' j = KLfuCache_value s1 j"
      by blast
    have vk: "KLfuCache_value s' k = Some v"
      using fr(4) by (simp add: KLfuCache_value_def s1_def node1_def)
    have vj: "j \<noteq> k \<Longrightarrow> KLfuCache_value s' j = KLfuCache_value s j" for j
      using fr(4) by (simp add: KLfuCache_value_def s1_def)
    have r': "KLfuCache_put s k v = Some s'" by (simp add: e r)
    have frs: "lfu_capacity s' = lfu_capacity s" "lfu_maxAverageNum s' = lfu_maxAverageNum s"
      "lfu_tailKey s' = lfu_tailKey s"
      using fr(1-3) by (simp_all add: s1_def)
    show ?thesis
      by (intro exI[of _ s'] conjI safe' r' frs) (use False vk vj in simp_all)
  qed
qed

lemma KLfuCache_get_safe:
  assumes safe: "KLfuCache_safe s"
  shows "\<exists>s'. KLfuCache_get s k = Some (s', KLfuCache_value s k) \<and> KLfuCache_safe s'
     \<and> lfu_capacity s' = lfu_capacity s
     \<and> lfu_maxAverageNum s' = lfu_maxAverageNum s \<and> lfu_tailKey s' = lfu_tailKey s
     \<and> (\<forall>j. KLfuCache_value s' j = KLfuCache_value s j)"
proof (cases "umap_find (lfu_nodeMap s) k")
  case None
  then show ?thesis using safe by (simp add: KLfuCache_get_def KLfuCache_value_def)
next
  case (Some node)
  from getInternal_safe[OF safe Some] obtain s' where
      r: "KLfuCache_getInternal s k node = Some (s', fnode_value node)"
      and safe': "KLfuCache_safe s'"
      and fr: "lfu_capacity s' = lfu_capacity s" "lfu_maxAverageNum s' = lfu_maxAverageNum s"
        "lfu_tailKey s' = lfu_tailKey s" "\<forall>j. KLfuCache_value s' j = KLfuCache_value s j"
      by blast
  show ?thesis
    by (intro exI[of _ s'] conjI safe' fr) (simp add: KLfuCache_get_def Some r KLfuCache_value_def)
qed

text \<open>
  A run of \<^verbatim>\<open>put\<close> and \<^verbatim>\<open>get\<close> from a safe state returns, and the value held for a
  key that the run does not put either stays or goes.
\<close>

lemma KLfuCache_run_safe:
  assumes "KLfuCache_safe s"
  shows "\<exists>s'. KLfuCache_run s ops = Some s' \<and> KLfuCache_safe s'
     \<and> lfu_capacity s' = lfu_capacity s
     \<and> ((\<forall>v. Put k v \<notin> set ops) \<longrightarrow>
           KLfuCache_value s' k = None \<or> KLfuCache_value s' k = KLfuCache_value s k)"
  using assms
proof (induction ops arbitrary: s)
  case Nil
  then show ?case by simp
next
  case (Cons op ops)
  show ?case
  proof (cases op)
    case (Put j w)
    from KLfuCache_put_safe[OF Cons.prems, of j w] obtain s1 where
      r: "KLfuCache_put s j w = Some s1" and s1: "KLfuCache_safe s1"
      and c: "lfu_capacity s1 = lfu_capacity s"
      and v: "\<forall>i. i \<noteq> j \<longrightarrow> KLfuCache_value s1 i = None \<or> KLfuCache_value s1 i = KLfuCache_value s i"
      by blast
    from Cons.IH[OF s1] obtain s' where r': "KLfuCache_run s1 ops = Some s'"
      and s': "KLfuCache_safe s'" and c': "lfu_capacity s' = lfu_capacity s1"
      and v': "(\<forall>v. Put k v \<notin> set ops) \<longrightarrow>
           KLfuCache_value s' k = None \<or> KLfuCache_value s' k = KLfuCache_value s1 k"
      by blast
    have "(\<forall>v. Put k v \<notin> set (op # ops)) \<longrightarrow>
           KLfuCache_value s' k = None \<or> KLfuCache_value s' k = KLfuCache_value s k"
      using v v' Put by (metis list.set_intros(1,2))
    then show ?thesis using Put r r' s' c c' by simp
  next
    case (Get j)
    from KLfuCache_get_safe[OF Cons.prems, of j] obtain s1 where
      r: "KLfuCache_get s j = Some (s1, KLfuCache_value s j)" and s1: "KLfuCache_safe s1"
      and c: "lfu_capacity s1 = lfu_capacity s"
      and v: "\<forall>i. KLfuCache_value s1 i = KLfuCache_value s i"
      by blast
    from Cons.IH[OF s1] obtain s' where r': "KLfuCache_run s1 ops = Some s'"
      and s': "KLfuCache_safe s'" and c': "lfu_capacity s' = lfu_capacity s1"
      and v': "(\<forall>v. Put k v \<notin> set ops) \<longrightarrow>
           KLfuCache_value s' k = None \<or> KLfuCache_value s' k = KLfuCache_value s1 k"
      by blast
    show ?thesis using Get r r' s' c c' v v' by simp
  next
    case (GetMain j)
    from KLfuCache_get_safe[OF Cons.prems, of j] obtain s1 where
      r: "KLfuCache_get s j = Some (s1, KLfuCache_value s j)" and s1: "KLfuCache_safe s1"
      and c: "lfu_capacity s1 = lfu_capacity s"
      and v: "\<forall>i. KLfuCache_value s1 i = KLfuCache_value s i"
      by blast
    from Cons.IH[OF s1] obtain s' where r': "KLfuCache_run s1 ops = Some s'"
      and s': "KLfuCache_safe s'" and c': "lfu_capacity s' = lfu_capacity s1"
      and v': "(\<forall>v. Put k v \<notin> set ops) \<longrightarrow>
           KLfuCache_value s' k = None \<or> KLfuCache_value s' k = KLfuCache_value s1 k"
      by blast
    show ?thesis using GetMain r r' s' c c' v v' by simp
  qed
qed

section \<open>KLfuCache: purge\<close>

text \<open>
  C6. \<^verbatim>\<open>purge\<close> clears the two maps and nothing else: afterwards every \<^verbatim>\<open>get\<close> misses
  and leaves the state alone, but \<^verbatim>\<open>curTotalNum_\<close>, \<^verbatim>\<open>curAverageNum_\<close> and \<^verbatim>\<open>minFreq_\<close>
  keep the values they had. After \<^verbatim>\<open>put(1,a), get(1), purge()\<close> on a cache of capacity
  2 they are 2, 2 and 2, where the constructor sets 0, 0 and \<^verbatim>\<open>INT8_MAX\<close>.
\<close>

theorem C6_purge_keeps_counters:
  "lfu_nodeMap (KLfuCache_purge s) = []
   \<and> KLfuCache_get (KLfuCache_purge s) k = Some (KLfuCache_purge s, None)
   \<and> lfu_curTotalNum (KLfuCache_purge s) = lfu_curTotalNum s
   \<and> lfu_curAverageNum (KLfuCache_purge s) = lfu_curAverageNum s
   \<and> lfu_minFreq (KLfuCache_purge s) = lfu_minFreq s
   \<and> map_option KLfuCache_purge
        (KLfuCache_run (KLfuCache_init 2 10 0) [Put (1::nat) ''a'', Get 1]) =
       Some \<lparr>lfu_capacity = 2, lfu_minFreq = 2, lfu_maxAverageNum = 10, lfu_curAverageNum = 2,
             lfu_curTotalNum = 2, lfu_nodeMap = [], lfu_freqToFreqList = [], lfu_tailKey = 0\<rparr>
   \<and> lfu_minFreq (KLfuCache_init 2 10 (0::nat) :: (nat, string) KLfuCache) = 127
   \<and> lfu_curTotalNum (KLfuCache_init 2 10 (0::nat) :: (nat, string) KLfuCache) = 0
   \<and> lfu_curAverageNum (KLfuCache_init 2 10 (0::nat) :: (nat, string) KLfuCache) = 0"
proof -
  have "map_option KLfuCache_purge
        (KLfuCache_run (KLfuCache_init 2 10 0) [Put (1::nat) ''a'', Get 1]) =
       Some \<lparr>lfu_capacity = 2, lfu_minFreq = 2, lfu_maxAverageNum = 10, lfu_curAverageNum = 2,
             lfu_curTotalNum = 2, lfu_nodeMap = [], lfu_freqToFreqList = [], lfu_tailKey = 0\<rparr>"
    by (simp add: KLfuCache_defs umap_defs to_size_t_def to_int_def INT8_MAX_def cpp_div_def
        Let_def KLfuCache_ageNodes.simps)
  then show ?thesis
    by (simp add: KLfuCache_purge_def KLfuCache_get_def KLfuCache_init_def INT8_MAX_def)
qed

section \<open>KLfuCache: the aging rescale\<close>

lemma ageNodes_nodeMap:
  assumes "KLfuCache_ageNodes ks s = Some s'" "distinct ks"
  shows "umap_find (lfu_nodeMap s') j =
     (if j \<in> set ks
      then map_option (\<lambda>n. n\<lparr>fnode_freq := KLfuCache_aged (lfu_maxAverageNum s) (fnode_freq n)\<rparr>)
             (umap_find (lfu_nodeMap s) j)
      else umap_find (lfu_nodeMap s) j)"
  using assms
proof (induction ks arbitrary: s)
  case Nil
  then show ?case by simp
next
  case (Cons k ks)
  show ?case
  proof (cases "umap_find (lfu_nodeMap s) k")
    case None
    with Cons.prems have "KLfuCache_ageNodes ks s = Some s'" by (simp add: ageNodes_Cons)
    from Cons.IH[OF this] Cons.prems(2) None show ?thesis by auto
  next
    case (Some node)
    with Cons.prems obtain s1 where
      m: "KLfuCache_moveNode s k node (KLfuCache_aged (lfu_maxAverageNum s) (fnode_freq node)) = Some s1"
      and r: "KLfuCache_ageNodes ks s1 = Some s'"
      by (auto simp: ageNodes_Cons split: option.splits)
    note fr = moveNode_frame[OF m]
    from Cons.IH[OF r] Cons.prems(2) Some show ?thesis
      by (auto simp: fr(3) fr(7))
  qed
qed

lemma handleOverMaxAverageNum_effect:
  assumes "KLfuCache_lists_ok s"
  shows "\<exists>s'. KLfuCache_handleOverMaxAverageNum s = Some s' \<and> KLfuCache_safe s'
     \<and> lfu_capacity s' = lfu_capacity s
     \<and> lfu_maxAverageNum s' = lfu_maxAverageNum s \<and> lfu_curAverageNum s' = lfu_curAverageNum s
     \<and> lfu_curTotalNum s' = lfu_curTotalNum s \<and> lfu_tailKey s' = lfu_tailKey s
     \<and> (\<forall>j. KLfuCache_value s' j = KLfuCache_value s j)
     \<and> (\<forall>j. umap_find (lfu_nodeMap s') j =
            map_option (\<lambda>n. n\<lparr>fnode_freq := KLfuCache_aged (lfu_maxAverageNum s) (fnode_freq n)\<rparr>)
              (umap_find (lfu_nodeMap s) j))"
proof -
  from handleOverMaxAverageNum_ok[OF assms] obtain s' where
    r: "KLfuCache_handleOverMaxAverageNum s = Some s'" and safe': "KLfuCache_safe s'"
    and fr: "lfu_capacity s' = lfu_capacity s"
      "lfu_maxAverageNum s' = lfu_maxAverageNum s" "lfu_curAverageNum s' = lfu_curAverageNum s"
      "lfu_curTotalNum s' = lfu_curTotalNum s" "lfu_tailKey s' = lfu_tailKey s"
      "\<forall>j. KLfuCache_value s' j = KLfuCache_value s j"
    by blast
  have "umap_find (lfu_nodeMap s') j =
            map_option (\<lambda>n. n\<lparr>fnode_freq := KLfuCache_aged (lfu_maxAverageNum s) (fnode_freq n)\<rparr>)
              (umap_find (lfu_nodeMap s) j)" for j
  proof (cases "lfu_nodeMap s = []")
    case True
    with r show ?thesis by (simp add: KLfuCache_handleOverMaxAverageNum_def)
  next
    case False
    with r obtain s1 where a: "KLfuCache_ageNodes (umap_keys (lfu_nodeMap s)) s = Some s1"
      and e: "s' = KLfuCache_updateMinFreq s1"
      by (auto simp: KLfuCache_handleOverMaxAverageNum_def split: option.splits)
    from ageNodes_nodeMap[OF a distinct_umap_keys, of j] show ?thesis
      by (cases "umap_find (lfu_nodeMap s) j")
         (auto simp: e updateMinFreq_frame set_umap_keys domIff)
  qed
  with r safe' fr show ?thesis by blast
qed

lemma to_int_small: "n < 2 ^ 31 \<Longrightarrow> to_int n = int n"
  by (simp add: to_int_def Let_def)

lemma KLfuCache_average_eq:
  assumes "lfu_nodeMap s \<noteq> []" "0 \<le> lfu_curTotalNum s" "lfu_curTotalNum s < 2 ^ 31"
  shows "KLfuCache_average s = lfu_curTotalNum s div int (umap_size (lfu_nodeMap s))"
proof -
  have t: "to_size_t (lfu_curTotalNum s) = nat (lfu_curTotalNum s)"
    using assms by (simp add: to_size_t_nat)
  have "nat (lfu_curTotalNum s) div umap_size (lfu_nodeMap s) \<le> nat (lfu_curTotalNum s)"
    by (rule div_le_dividend)
  also have "\<dots> < 2 ^ 31" using assms by (simp add: nat_less_iff)
  finally have "to_int (nat (lfu_curTotalNum s) div umap_size (lfu_nodeMap s)) =
      int (nat (lfu_curTotalNum s) div umap_size (lfu_nodeMap s))"
    by (rule to_int_small)
  also have "\<dots> = lfu_curTotalNum s div int (umap_size (lfu_nodeMap s))"
    using assms(2) by (simp add: zdiv_int)
  finally show ?thesis using assms(1) t by (simp add: KLfuCache_average_def)
qed

lemma getInternal_steps:
  assumes safe: "KLfuCache_safe s" and k: "umap_find (lfu_nodeMap s) k = Some node"
  shows "\<exists>s4. KLfuCache_getInternal s k node =
        (case KLfuCache_addFreqNum s4 of None \<Rightarrow> None | Some s5 \<Rightarrow> Some (s5, fnode_value node))
     \<and> KLfuCache_safe s4
     \<and> lfu_nodeMap s4 = umap_assign k (node\<lparr>fnode_freq := fnode_freq node + 1\<rparr>) (lfu_nodeMap s)
     \<and> lfu_capacity s4 = lfu_capacity s \<and> lfu_maxAverageNum s4 = lfu_maxAverageNum s
     \<and> lfu_curTotalNum s4 = lfu_curTotalNum s \<and> lfu_tailKey s4 = lfu_tailKey s"
proof -
  from safe have ok: "KLfuCache_lists_ok s" by (simp add: KLfuCache_safe_def)
  note oks = ok[unfolded KLfuCache_lists_ok_iff]
  from oks k have f1: "1 \<le> fnode_freq node"
    and fb: "umap_find (lfu_freqToFreqList s) (fnode_freq node) \<noteq> None" by blast+
  have ne: "lfu_nodeMap s \<noteq> []" using k by auto
  with safe have mb: "umap_find (lfu_freqToFreqList s) (lfu_minFreq s) \<noteq> None"
    by (simp add: KLfuCache_safe_def)
  from moveNode_ok[OF ok k, of "fnode_freq node + 1"] f1
  obtain s3 where m: "KLfuCache_moveNode s k node (fnode_freq node + 1) = Some s3"
    and ok3: "KLfuCache_lists_ok s3" by auto
  note fr = moveNode_frame[OF m]
  from fb fr(8) obtain ks where ks: "umap_find (lfu_freqToFreqList s3) (fnode_freq node) = Some ks"
    by blast
  define s4 where "s4 = (if fnode_freq node = lfu_minFreq s3 \<and> ks = []
                         then s3\<lparr>lfu_minFreq := lfu_minFreq s3 + 1\<rparr> else s3)"
  have e: "KLfuCache_getInternal s k node =
     (case KLfuCache_addFreqNum s4 of None \<Rightarrow> None | Some s5 \<Rightarrow> Some (s5, fnode_value node))"
    using ks by (auto simp: getInternal_eq m s4_def)
  have ok4: "KLfuCache_lists_ok s4"
    using ok3 by (auto simp: s4_def KLfuCache_lists_ok_iff)
  have "umap_find (lfu_freqToFreqList s4) (lfu_minFreq s4) \<noteq> None"
    using fr(8)[OF mb] fr(9) fr(2) by (auto simp: s4_def)
  with ok4 have safe4: "KLfuCache_safe s4" by (simp add: KLfuCache_safe_def)
  have fr4: "lfu_capacity s4 = lfu_capacity s" "lfu_maxAverageNum s4 = lfu_maxAverageNum s"
    "lfu_curTotalNum s4 = lfu_curTotalNum s" "lfu_tailKey s4 = lfu_tailKey s"
    "lfu_nodeMap s4 = umap_assign k (node\<lparr>fnode_freq := fnode_freq node + 1\<rparr>) (lfu_nodeMap s)"
    using fr(1-7) by (auto simp: s4_def)
  show ?thesis
    by (intro exI[of _ s4] conjI e safe4 fr4)
qed

text \<open>
  A hit while the running average exceeds \<^verbatim>\<open>maxAverageNum_\<close> rescales every entry, and
  the average exceeds the maximum afterwards as well.
\<close>

lemma getInternal_rescales:
  assumes safe: "KLfuCache_safe s"
    and k: "umap_find (lfu_nodeMap s) k = Some node"
    and t: "0 \<le> lfu_curTotalNum s" "lfu_curTotalNum s + 1 < 2 ^ 31"
    and avg: "lfu_maxAverageNum s < KLfuCache_average s"
  shows "\<exists>s'. KLfuCache_getInternal s k node = Some (s', fnode_value node)
     \<and> KLfuCache_safe s'
     \<and> lfu_curTotalNum s' = lfu_curTotalNum s + 1
     \<and> lfu_maxAverageNum s' = lfu_maxAverageNum s
     \<and> lfu_capacity s' = lfu_capacity s
     \<and> lfu_maxAverageNum s < lfu_curAverageNum s'
     \<and> lfu_maxAverageNum s < KLfuCache_average s'
     \<and> (\<forall>j. umap_find (lfu_nodeMap s') j =
            map_option (\<lambda>n. n\<lparr>fnode_freq := KLfuCache_aged (lfu_maxAverageNum s)
                                   (if j = k then fnode_freq n + 1 else fnode_freq n)\<rparr>)
              (umap_find (lfu_nodeMap s) j))"
proof -
  from getInternal_steps[OF safe k] obtain s4 where
    e: "KLfuCache_getInternal s k node =
        (case KLfuCache_addFreqNum s4 of None \<Rightarrow> None | Some s5 \<Rightarrow> Some (s5, fnode_value node))"
    and safe4: "KLfuCache_safe s4"
    and nm4: "lfu_nodeMap s4 = umap_assign k (node\<lparr>fnode_freq := fnode_freq node + 1\<rparr>) (lfu_nodeMap s)"
    and fr4: "lfu_capacity s4 = lfu_capacity s" "lfu_maxAverageNum s4 = lfu_maxAverageNum s"
      "lfu_curTotalNum s4 = lfu_curTotalNum s" "lfu_tailKey s4 = lfu_tailKey s"
    by blast
  have ne: "lfu_nodeMap s \<noteq> []" using k by auto
  have sz: "umap_size (lfu_nodeMap s4) = umap_size (lfu_nodeMap s)"
    using k by (simp add: nm4 umap_size_assign)
  have szpos: "0 < int (umap_size (lfu_nodeMap s))"
    using ne by (cases "umap_size (lfu_nodeMap s)") auto
  define s1 where "s1 = s4\<lparr>lfu_curTotalNum := lfu_curTotalNum s4 + 1\<rparr>"
  define s2 where "s2 = s1\<lparr>lfu_curAverageNum := KLfuCache_average s1\<rparr>"
  have a0: "KLfuCache_average s = lfu_curTotalNum s div int (umap_size (lfu_nodeMap s))"
    using t by (intro KLfuCache_average_eq ne) auto
  have a1: "KLfuCache_average s1 = (lfu_curTotalNum s + 1) div int (umap_size (lfu_nodeMap s))"
    using t KLfuCache_average_eq[of s1] by (simp add: s1_def nm4 fr4 sz[unfolded nm4])
  have "KLfuCache_average s \<le> KLfuCache_average s1"
    unfolding a0 a1 using szpos by (intro zdiv_mono1) auto
  with avg have big: "lfu_maxAverageNum s < KLfuCache_average s1" by simp
  have ok2: "KLfuCache_lists_ok s2"
    using safe4 by (simp add: s2_def s1_def KLfuCache_safe_def lists_ok_counters)
  have e2: "KLfuCache_addFreqNum s4 = KLfuCache_handleOverMaxAverageNum s2"
    using big by (simp add: KLfuCache_addFreqNum_def Let_def s2_def s1_def fr4)
  from handleOverMaxAverageNum_effect[OF ok2] obtain s' where
    r: "KLfuCache_handleOverMaxAverageNum s2 = Some s'" and safe': "KLfuCache_safe s'"
    and fr: "lfu_capacity s' = lfu_capacity s2"
      "lfu_maxAverageNum s' = lfu_maxAverageNum s2" "lfu_curAverageNum s' = lfu_curAverageNum s2"
      "lfu_curTotalNum s' = lfu_curTotalNum s2" "lfu_tailKey s' = lfu_tailKey s2"
    and nm': "\<forall>j. umap_find (lfu_nodeMap s') j =
            map_option (\<lambda>n. n\<lparr>fnode_freq := KLfuCache_aged (lfu_maxAverageNum s2) (fnode_freq n)\<rparr>)
              (umap_find (lfu_nodeMap s2) j)"
    by blast
  have r': "KLfuCache_getInternal s k node = Some (s', fnode_value node)"
    by (simp add: e e2 r)
  have f2: "lfu_curTotalNum s2 = lfu_curTotalNum s + 1" "lfu_maxAverageNum s2 = lfu_maxAverageNum s"
    "lfu_capacity s2 = lfu_capacity s" "lfu_curAverageNum s2 = KLfuCache_average s1"
    "lfu_nodeMap s2 = lfu_nodeMap s4"
    by (simp_all add: s2_def s1_def fr4)
  have dom': "umap_find (lfu_nodeMap s') j = None \<longleftrightarrow> umap_find (lfu_nodeMap s) j = None" for j
    using nm' k by (simp add: f2 nm4)
  have ne': "lfu_nodeMap s' \<noteq> []"
    using dom'[of k] k by auto
  have "dom (umap_find (lfu_nodeMap s')) = dom (umap_find (lfu_nodeMap s))"
    unfolding dom_def using dom' by simp
  then have sz': "umap_size (lfu_nodeMap s') = umap_size (lfu_nodeMap s)"
    by (simp add: umap_size_card)
  have a': "KLfuCache_average s' = KLfuCache_average s1"
    using KLfuCache_average_eq[OF ne'] t by (simp add: fr f2 sz' a1)
  have eff: "\<forall>j. umap_find (lfu_nodeMap s') j =
            map_option (\<lambda>n. n\<lparr>fnode_freq := KLfuCache_aged (lfu_maxAverageNum s)
                                   (if j = k then fnode_freq n + 1 else fnode_freq n)\<rparr>)
              (umap_find (lfu_nodeMap s) j)"
    using nm' k by (auto simp: f2 nm4)
  show ?thesis
    by (intro exI[of _ s'] conjI r' safe' eff)
       (use big in \<open>simp_all add: fr f2 a'\<close>)
qed

lemma safe_set_value:
  assumes "KLfuCache_safe s" "umap_find (lfu_nodeMap s) k = Some node"
  shows "KLfuCache_safe (s\<lparr>lfu_nodeMap := umap_assign k (node\<lparr>fnode_value := v\<rparr>) (lfu_nodeMap s)\<rparr>)"
proof -
  have ne: "lfu_nodeMap s \<noteq> []" using assms(2) by auto
  show ?thesis
    using assms ne unfolding KLfuCache_safe_def KLfuCache_lists_ok_iff by auto
qed

lemma lfu_example_run:
  "KLfuCache_run (KLfuCache_init 2 4 0) [Put 1 ''a'', Get 1, Get 1, Get 1, Get 1] = Some lfu_example"
  unfolding lfu_example_def by code_simp

lemma lfu_example_safe: "KLfuCache_safe lfu_example"
  unfolding lfu_example_def by code_simp

lemma lfu_example_average: "KLfuCache_average lfu_example = 5"
  unfolding lfu_example_def by code_simp

text \<open>
  C10, as the source has it. \<^verbatim>\<open>handleOverMaxAverageNum\<close> returns from every state whose
  lists are in order and changes only the frequencies of the nodes, the lists and
  \<^verbatim>\<open>minFreq_\<close>: \<^verbatim>\<open>curTotalNum_\<close>, \<^verbatim>\<open>curAverageNum_\<close>, the capacity, the maximum, the keys
  and the values are as before, and every frequency \<open>f\<close> has become
  \<open>max 1 (f - maxAverageNum_ / 2)\<close>. So once the running average exceeds the maximum,
  every hit, a \<^verbatim>\<open>get\<close> or a \<^verbatim>\<open>put\<close> of a key that is cached, counts the access,
  rescales every entry again and leaves the average above the maximum. A \<^verbatim>\<open>put\<close> of a
  new key is a counted access too, but it divides the total by one entry more and need
  not rescale.
\<close>

theorem C10_aging_retriggers:
  assumes safe: "KLfuCache_safe s"
  shows "(\<exists>s'. KLfuCache_handleOverMaxAverageNum s = Some s'
           \<and> lfu_curTotalNum s' = lfu_curTotalNum s \<and> lfu_curAverageNum s' = lfu_curAverageNum s
           \<and> lfu_capacity s' = lfu_capacity s \<and> lfu_maxAverageNum s' = lfu_maxAverageNum s
           \<and> (\<forall>j. KLfuCache_value s' j = KLfuCache_value s j)
           \<and> (\<forall>j. umap_find (lfu_nodeMap s') j =
                  map_option (\<lambda>n. n\<lparr>fnode_freq := KLfuCache_aged (lfu_maxAverageNum s) (fnode_freq n)\<rparr>)
                    (umap_find (lfu_nodeMap s) j)))
       \<and> (\<forall>k node v.
             umap_find (lfu_nodeMap s) k = Some node
             \<and> 0 \<le> lfu_curTotalNum s \<and> lfu_curTotalNum s + 1 < 2 ^ 31
             \<and> lfu_maxAverageNum s < KLfuCache_average s \<longrightarrow>
             (\<exists>s'. KLfuCache_get s k = Some (s', Some (fnode_value node))
                \<and> KLfuCache_safe s'
                \<and> lfu_curTotalNum s' = lfu_curTotalNum s + 1
                \<and> lfu_maxAverageNum s' < lfu_curAverageNum s'
                \<and> lfu_maxAverageNum s' < KLfuCache_average s'
                \<and> (\<forall>j. umap_find (lfu_nodeMap s') j =
                       map_option (\<lambda>n. n\<lparr>fnode_freq := KLfuCache_aged (lfu_maxAverageNum s)
                                              (if j = k then fnode_freq n + 1 else fnode_freq n)\<rparr>)
                         (umap_find (lfu_nodeMap s) j)))
             \<and> (lfu_capacity s = 0 \<or>
                 (\<exists>s'. KLfuCache_put s k v = Some s'
                    \<and> KLfuCache_safe s'
                    \<and> lfu_curTotalNum s' = lfu_curTotalNum s + 1
                    \<and> lfu_maxAverageNum s' < lfu_curAverageNum s'
                    \<and> lfu_maxAverageNum s' < KLfuCache_average s'
                    \<and> (\<forall>j. umap_find (lfu_nodeMap s') j =
                           map_option (\<lambda>n. if j = k
                                            then \<lparr>fnode_value = v,
                                                  fnode_freq = KLfuCache_aged (lfu_maxAverageNum s)
                                                                 (fnode_freq n + 1)\<rparr>
                                            else n\<lparr>fnode_freq := KLfuCache_aged (lfu_maxAverageNum s)
                                                                     (fnode_freq n)\<rparr>)
                             (umap_find (lfu_nodeMap s) j)))))"
proof (intro conjI allI impI)
  from safe have ok: "KLfuCache_lists_ok s" by (simp add: KLfuCache_safe_def)
  from handleOverMaxAverageNum_effect[OF ok]
  show "\<exists>s'. KLfuCache_handleOverMaxAverageNum s = Some s'
           \<and> lfu_curTotalNum s' = lfu_curTotalNum s \<and> lfu_curAverageNum s' = lfu_curAverageNum s
           \<and> lfu_capacity s' = lfu_capacity s \<and> lfu_maxAverageNum s' = lfu_maxAverageNum s
           \<and> (\<forall>j. KLfuCache_value s' j = KLfuCache_value s j)
           \<and> (\<forall>j. umap_find (lfu_nodeMap s') j =
                  map_option (\<lambda>n. n\<lparr>fnode_freq := KLfuCache_aged (lfu_maxAverageNum s) (fnode_freq n)\<rparr>)
                    (umap_find (lfu_nodeMap s) j))"
    by blast
next
  fix k node v
  assume h: "umap_find (lfu_nodeMap s) k = Some node
             \<and> 0 \<le> lfu_curTotalNum s \<and> lfu_curTotalNum s + 1 < 2 ^ 31
             \<and> lfu_maxAverageNum s < KLfuCache_average s"
  then have k: "umap_find (lfu_nodeMap s) k = Some node"
    and t: "0 \<le> lfu_curTotalNum s" "lfu_curTotalNum s + 1 < 2 ^ 31"
    and avg: "lfu_maxAverageNum s < KLfuCache_average s" by auto
  from getInternal_rescales[OF safe k t avg] obtain s' where
    r: "KLfuCache_getInternal s k node = Some (s', fnode_value node)"
    and rest: "KLfuCache_safe s'" "lfu_curTotalNum s' = lfu_curTotalNum s + 1"
      "lfu_maxAverageNum s' = lfu_maxAverageNum s"
      "lfu_maxAverageNum s < lfu_curAverageNum s'" "lfu_maxAverageNum s < KLfuCache_average s'"
      "\<forall>j. umap_find (lfu_nodeMap s') j =
            map_option (\<lambda>n. n\<lparr>fnode_freq := KLfuCache_aged (lfu_maxAverageNum s)
                                   (if j = k then fnode_freq n + 1 else fnode_freq n)\<rparr>)
              (umap_find (lfu_nodeMap s) j)"
    by blast
  have g: "KLfuCache_get s k = Some (s', Some (fnode_value node))"
    by (simp add: KLfuCache_get_def k r)
  show "\<exists>s'. KLfuCache_get s k = Some (s', Some (fnode_value node))
                \<and> KLfuCache_safe s'
                \<and> lfu_curTotalNum s' = lfu_curTotalNum s + 1
                \<and> lfu_maxAverageNum s' < lfu_curAverageNum s'
                \<and> lfu_maxAverageNum s' < KLfuCache_average s'
                \<and> (\<forall>j. umap_find (lfu_nodeMap s') j =
                       map_option (\<lambda>n. n\<lparr>fnode_freq := KLfuCache_aged (lfu_maxAverageNum s)
                                              (if j = k then fnode_freq n + 1 else fnode_freq n)\<rparr>)
                         (umap_find (lfu_nodeMap s) j))"
    by (intro exI[of _ s'] conjI g rest(1,2,6)) (simp_all add: rest(3-5))
  show "lfu_capacity s = 0 \<or>
                 (\<exists>s'. KLfuCache_put s k v = Some s'
                    \<and> KLfuCache_safe s'
                    \<and> lfu_curTotalNum s' = lfu_curTotalNum s + 1
                    \<and> lfu_maxAverageNum s' < lfu_curAverageNum s'
                    \<and> lfu_maxAverageNum s' < KLfuCache_average s'
                    \<and> (\<forall>j. umap_find (lfu_nodeMap s') j =
                           map_option (\<lambda>n. if j = k
                                            then \<lparr>fnode_value = v,
                                                  fnode_freq = KLfuCache_aged (lfu_maxAverageNum s)
                                                                 (fnode_freq n + 1)\<rparr>
                                            else n\<lparr>fnode_freq := KLfuCache_aged (lfu_maxAverageNum s)
                                                                     (fnode_freq n)\<rparr>)
                             (umap_find (lfu_nodeMap s) j)))"
  proof (cases "lfu_capacity s = 0")
    case True
    then show ?thesis by simp
  next
    case False
    define node1 where "node1 = node\<lparr>fnode_value := v\<rparr>"
    define s1 where "s1 = s\<lparr>lfu_nodeMap := umap_assign k node1 (lfu_nodeMap s)\<rparr>"
    have e: "KLfuCache_put s k v = map_option fst (KLfuCache_getInternal s1 k node1)"
      using False k by (simp add: KLfuCache_put_def s1_def node1_def Let_def)
    have k1: "umap_find (lfu_nodeMap s1) k = Some node1" by (simp add: s1_def)
    have safe1: "KLfuCache_safe s1"
      unfolding s1_def node1_def by (rule safe_set_value[OF safe k])
    have ne: "lfu_nodeMap s \<noteq> []" using k by auto
    have "umap_size (lfu_nodeMap s1) = umap_size (lfu_nodeMap s)"
      using k by (simp add: s1_def umap_size_assign)
    then have a1: "KLfuCache_average s1 = KLfuCache_average s"
      using ne by (simp add: KLfuCache_average_def s1_def)
    have t1: "0 \<le> lfu_curTotalNum s1" "lfu_curTotalNum s1 + 1 < 2 ^ 31"
      and avg1: "lfu_maxAverageNum s1 < KLfuCache_average s1"
      using t avg a1 by (simp_all add: s1_def)
    from getInternal_rescales[OF safe1 k1 t1 avg1] obtain s' where
      r: "KLfuCache_getInternal s1 k node1 = Some (s', fnode_value node1)"
      and rest: "KLfuCache_safe s'" "lfu_curTotalNum s' = lfu_curTotalNum s1 + 1"
        "lfu_maxAverageNum s' = lfu_maxAverageNum s1"
        "lfu_maxAverageNum s1 < lfu_curAverageNum s'" "lfu_maxAverageNum s1 < KLfuCache_average s'"
        "\<forall>j. umap_find (lfu_nodeMap s') j =
            map_option (\<lambda>n. n\<lparr>fnode_freq := KLfuCache_aged (lfu_maxAverageNum s1)
                                   (if j = k then fnode_freq n + 1 else fnode_freq n)\<rparr>)
              (umap_find (lfu_nodeMap s1) j)"
      by blast
    have p: "KLfuCache_put s k v = Some s'" by (simp add: e r)
    have eff: "\<forall>j. umap_find (lfu_nodeMap s') j =
                           map_option (\<lambda>n. if j = k
                                            then \<lparr>fnode_value = v,
                                                  fnode_freq = KLfuCache_aged (lfu_maxAverageNum s)
                                                                 (fnode_freq n + 1)\<rparr>
                                            else n\<lparr>fnode_freq := KLfuCache_aged (lfu_maxAverageNum s)
                                                                     (fnode_freq n)\<rparr>)
                             (umap_find (lfu_nodeMap s) j)"
      using rest(6) k by (auto simp: s1_def node1_def)
    have "\<exists>s'. KLfuCache_put s k v = Some s'
                    \<and> KLfuCache_safe s'
                    \<and> lfu_curTotalNum s' = lfu_curTotalNum s + 1
                    \<and> lfu_maxAverageNum s' < lfu_curAverageNum s'
                    \<and> lfu_maxAverageNum s' < KLfuCache_average s'
                    \<and> (\<forall>j. umap_find (lfu_nodeMap s') j =
                           map_option (\<lambda>n. if j = k
                                            then \<lparr>fnode_value = v,
                                                  fnode_freq = KLfuCache_aged (lfu_maxAverageNum s)
                                                                 (fnode_freq n + 1)\<rparr>
                                            else n\<lparr>fnode_freq := KLfuCache_aged (lfu_maxAverageNum s)
                                                                     (fnode_freq n)\<rparr>)
                             (umap_find (lfu_nodeMap s) j))"
      by (intro exI[of _ s'] conjI p rest(1) eff)
         (use rest(2-5) in \<open>simp_all add: s1_def\<close>)
    then show ?thesis by blast
  qed
qed

text \<open>
  The hypotheses of C10 hold of the example state, whose average 5 exceeds the maximum
  4: \<^verbatim>\<open>get(1)\<close> rescales the frequency of key 1, 3 + 1, to 2 and leaves the average
  above 4.
\<close>

theorem C10_aging_retriggers_witness:
  "KLfuCache_safe lfu_example
   \<and> umap_find (lfu_nodeMap lfu_example) 1 = Some \<lparr>fnode_value = ''a'', fnode_freq = 3\<rparr>
   \<and> lfu_maxAverageNum lfu_example < KLfuCache_average lfu_example
   \<and> (\<exists>s'. KLfuCache_get lfu_example 1 = Some (s', Some ''a'')
         \<and> 4 < lfu_curAverageNum s'
         \<and> umap_find (lfu_nodeMap s') 1 = Some \<lparr>fnode_value = ''a'', fnode_freq = 2\<rparr>)"
proof -
  have k: "umap_find (lfu_nodeMap lfu_example) 1 = Some \<lparr>fnode_value = ''a'', fnode_freq = 3\<rparr>"
    by (simp add: lfu_example_def umap_find_def)
  have h: "umap_find (lfu_nodeMap lfu_example) 1 = Some \<lparr>fnode_value = ''a'', fnode_freq = 3\<rparr>
             \<and> 0 \<le> lfu_curTotalNum lfu_example \<and> lfu_curTotalNum lfu_example + 1 < 2 ^ 31
             \<and> lfu_maxAverageNum lfu_example < KLfuCache_average lfu_example"
    using k by (simp add: lfu_example_average) (simp add: lfu_example_def)
  note th = C10_aging_retriggers[OF lfu_example_safe, THEN conjunct2, rule_format,
      of 1 "\<lparr>fnode_value = ''a'', fnode_freq = 3\<rparr>" "''a''", OF h, THEN conjunct1]
  from th
  obtain s' where g: "KLfuCache_get lfu_example 1 = Some (s', Some ''a'')"
    and a: "lfu_maxAverageNum s' < lfu_curAverageNum s'"
    and m: "\<forall>j. umap_find (lfu_nodeMap s') j =
                       map_option (\<lambda>n. n\<lparr>fnode_freq := KLfuCache_aged (lfu_maxAverageNum lfu_example)
                                              (if j = 1 then fnode_freq n + 1 else fnode_freq n)\<rparr>)
                         (umap_find (lfu_nodeMap lfu_example) j)"
    and ms: "KLfuCache_safe s'"
    by auto
  from KLfuCache_get_safe[OF lfu_example_safe, of 1] g
  have "lfu_maxAverageNum s' = 4" by (auto simp: lfu_example_def)
  with a have a4: "4 < lfu_curAverageNum s'" by simp
  from m k have "umap_find (lfu_nodeMap s') 1 = Some \<lparr>fnode_value = ''a'', fnode_freq = 2\<rparr>"
    by (simp add: KLfuCache_aged_def cpp_div_def lfu_example_def)
  with g a4 h lfu_example_safe show ?thesis by blast
qed

text \<open>
  C10 as stated fails. In the example state the average 5 exceeds the maximum 4.
  \<^verbatim>\<open>put(2,b)\<close> is a counted access (the total goes from 5 to 6) and evicts nothing (the
  capacity is 2), yet it rescales nothing: the new average is 6 / 2 = 3, and key 1
  keeps frequency 3, which a rescale would have brought to 1.
\<close>

theorem C10_counterexample:
  "KLfuCache_run (KLfuCache_init 2 4 0) [Put 1 ''a'', Get 1, Get 1, Get 1, Get 1] = Some lfu_example
   \<and> lfu_maxAverageNum lfu_example < lfu_curAverageNum lfu_example
   \<and> lfu_maxAverageNum lfu_example < KLfuCache_average lfu_example
   \<and> lfu_curTotalNum lfu_example = 5
   \<and> KLfuCache_put lfu_example 2 ''b'' =
       Some \<lparr>lfu_capacity = 2, lfu_minFreq = 1, lfu_maxAverageNum = 4, lfu_curAverageNum = 3,
             lfu_curTotalNum = 6,
             lfu_nodeMap = [(1, \<lparr>fnode_value = ''a'', fnode_freq = 3\<rparr>),
                            (2, \<lparr>fnode_value = ''b'', fnode_freq = 1\<rparr>)],
             lfu_freqToFreqList = [(1, [2]), (2, []), (3, [1]), (4, []), (5, [])],
             lfu_tailKey = 0\<rparr>
   \<and> KLfuCache_aged 4 3 = 1"
proof -
  have "KLfuCache_put lfu_example 2 ''b'' =
       Some \<lparr>lfu_capacity = 2, lfu_minFreq = 1, lfu_maxAverageNum = 4, lfu_curAverageNum = 3,
             lfu_curTotalNum = 6,
             lfu_nodeMap = [(1, \<lparr>fnode_value = ''a'', fnode_freq = 3\<rparr>),
                            (2, \<lparr>fnode_value = ''b'', fnode_freq = 1\<rparr>)],
             lfu_freqToFreqList = [(1, [2]), (2, []), (3, [1]), (4, []), (5, [])],
             lfu_tailKey = 0\<rparr>"
    unfolding lfu_example_def by code_simp
  moreover have "KLfuCache_aged 4 3 = 1"
    by (simp add: KLfuCache_aged_def cpp_div_def)
  moreover have "lfu_maxAverageNum lfu_example < lfu_curAverageNum lfu_example"
    "lfu_curTotalNum lfu_example = 5"
    by (simp_all add: lfu_example_def)
  ultimately show ?thesis
    using lfu_example_run lfu_example_average by (simp add: lfu_example_def)
qed

section \<open>KLfuCache: what updateMinFreq computes\<close>

lemma fold_minFreq_Min:
  "fold (\<lambda>f m. case umap_find bk f of None \<Rightarrow> m | Some ks \<Rightarrow> if ks \<noteq> [] then min m f else m) fs m0
     = Min (insert m0 {g \<in> set fs. \<exists>ks. umap_find bk g = Some ks \<and> ks \<noteq> []})"
proof (induction fs arbitrary: m0)
  case Nil
  then show ?case by simp
next
  case (Cons f fs)
  let ?S = "{g \<in> set fs. \<exists>ks. umap_find bk g = Some ks \<and> ks \<noteq> []}"
  have fin: "finite ?S" by simp
  show ?case
  proof (cases "\<exists>ks. umap_find bk f = Some ks \<and> ks \<noteq> []")
    case True
    then have "{g \<in> set (f # fs). \<exists>ks. umap_find bk g = Some ks \<and> ks \<noteq> []} = insert f ?S"
      by auto
    moreover have "Min (insert (min m0 f) ?S) = Min (insert m0 (insert f ?S))"
    proof (cases "?S = {}")
      case True
      show ?thesis unfolding True by simp
    next
      case False
      have "Min (insert (min m0 f) ?S) = min (min m0 f) (Min ?S)"
        by (rule Min_insert[OF fin False])
      moreover have "Min (insert m0 (insert f ?S)) = min m0 (min f (Min ?S))"
        using fin False by simp
      ultimately show ?thesis by (simp add: min.assoc)
    qed
    ultimately show ?thesis using True Cons.IH[of "min m0 f"] by auto
  next
    case False
    then have "{g \<in> set (f # fs). \<exists>ks. umap_find bk g = Some ks \<and> ks \<noteq> []} = ?S"
      by auto
    then show ?thesis using False Cons.IH[of m0] by (auto split: option.splits)
  qed
qed

lemma updateMinFreq_minFreq:
  "lfu_minFreq (KLfuCache_updateMinFreq s) =
     (let m = Min (insert INT8_MAX
                {g. \<exists>ks. umap_find (lfu_freqToFreqList s) g = Some ks \<and> ks \<noteq> []})
      in if m = INT8_MAX then 1 else m)"
proof -
  have "{g \<in> set (umap_keys (lfu_freqToFreqList s)).
          \<exists>ks. umap_find (lfu_freqToFreqList s) g = Some ks \<and> ks \<noteq> []}
      = {g. \<exists>ks. umap_find (lfu_freqToFreqList s) g = Some ks \<and> ks \<noteq> []}"
    by (auto simp: set_umap_keys)
  then show ?thesis
    by (simp add: KLfuCache_updateMinFreq_def fold_minFreq_Min Let_def)
qed

section \<open>KLfuCache: one key hit again and again\<close>

lemma umap_size_single [simp]: "umap_size [(k, n)] = 1"
  by (simp add: umap_size_def umap_keys_def)

lemma single_get:
  assumes s: "KLfuCache_single k v f s" and f: "1 \<le> f" "f + 1 < 2 ^ 31"
  shows "\<exists>s4. KLfuCache_getInternal s k \<lparr>fnode_value = v, fnode_freq = f\<rparr> =
        (case KLfuCache_addFreqNum s4 of None \<Rightarrow> None | Some s5 \<Rightarrow> Some (s5, v))
     \<and> lfu_nodeMap s4 = [(k, \<lparr>fnode_value = v, fnode_freq = f + 1\<rparr>)]
     \<and> lfu_curTotalNum s4 = f \<and> lfu_minFreq s4 = f + 1
     \<and> umap_find (lfu_freqToFreqList s4) (f + 1) = Some [k]
     \<and> umap_find (lfu_freqToFreqList s4) 1 \<noteq> None
     \<and> \<not> (\<exists>g ks. g \<noteq> f + 1 \<and> umap_find (lfu_freqToFreqList s4) g = Some ks \<and> ks \<noteq> [])
     \<and> lfu_capacity s4 = lfu_capacity s \<and> lfu_maxAverageNum s4 = lfu_maxAverageNum s
     \<and> lfu_tailKey s4 = lfu_tailKey s"
proof -
  note ss = s[unfolded KLfuCache_single_def]
  let ?node = "\<lparr>fnode_value = v, fnode_freq = f\<rparr>"
  have b: "umap_find (lfu_freqToFreqList s) (fnode_freq ?node) = Some [k]" using ss by simp
  from ss have others: "\<forall>g ks. g \<noteq> f \<longrightarrow> umap_find (lfu_freqToFreqList s) g = Some ks \<longrightarrow> ks = []"
    by blast
  have "f + 1 \<noteq> f" by simp
  with others have "\<forall>ks. umap_find (lfu_freqToFreqList s) (f + 1) = Some ks \<longrightarrow> ks = []"
    by blast
  then have up: "(case umap_find (lfu_freqToFreqList s) (f + 1) of None \<Rightarrow> [] | Some l \<Rightarrow> l) = []"
    by (cases "umap_find (lfu_freqToFreqList s) (f + 1)") auto
  define s3 where "s3 = s\<lparr>lfu_nodeMap := [(k, \<lparr>fnode_value = v, fnode_freq = f + 1\<rparr>)],
            lfu_freqToFreqList :=
              umap_assign (f + 1) [k] (umap_assign f [] (lfu_freqToFreqList s))\<rparr>"
  have m: "KLfuCache_moveNode s k ?node (f + 1) = Some s3"
    using ss up by (simp add: moveNode_eq[OF b] s3_def umap_assign_def)
  have mf3: "lfu_minFreq s3 = f" "umap_find (lfu_freqToFreqList s3) f = Some []"
    using ss by (simp_all add: s3_def)
  define s4 where "s4 = s3\<lparr>lfu_minFreq := f + 1\<rparr>"
  have e: "KLfuCache_getInternal s k ?node =
        (case KLfuCache_addFreqNum s4 of None \<Rightarrow> None | Some s5 \<Rightarrow> Some (s5, v))"
    by (simp add: getInternal_eq m mf3 s4_def split: option.split)
  have bk: "umap_find (lfu_freqToFreqList s4) g =
      (if g = f + 1 then Some [k] else if g = f then Some [] else umap_find (lfu_freqToFreqList s) g)" for g
    by (simp add: s4_def s3_def)
  have "umap_find (lfu_freqToFreqList s4) 1 \<noteq> None"
    using ss by (simp add: bk)
  moreover have "\<not> (\<exists>g ks. g \<noteq> f + 1 \<and> umap_find (lfu_freqToFreqList s4) g = Some ks \<and> ks \<noteq> [])"
    using others by (auto simp: bk split: if_splits)
  ultimately show ?thesis
    by (intro exI[of _ s4] conjI e) (simp_all add: bk, simp_all add: s4_def s3_def ss)
qed

lemma single_average:
  assumes "lfu_nodeMap s = [(k, n)]" "0 \<le> lfu_curTotalNum s" "lfu_curTotalNum s < 2 ^ 31"
  shows "KLfuCache_average s = lfu_curTotalNum s"
  using KLfuCache_average_eq[of s] assms by simp

text \<open>Below the maximum a hit only counts.\<close>

lemma single_get_below:
  assumes s: "KLfuCache_single k v f s" and f: "1 \<le> f" "f + 1 < 2 ^ 31"
    and m: "f + 1 \<le> lfu_maxAverageNum s"
  shows "\<exists>s'. KLfuCache_get s k = Some (s', Some v) \<and> KLfuCache_single k v (f + 1) s'
     \<and> lfu_capacity s' = lfu_capacity s \<and> lfu_maxAverageNum s' = lfu_maxAverageNum s
     \<and> lfu_tailKey s' = lfu_tailKey s"
proof -
  from single_get[OF s f] obtain s4 where
    e: "KLfuCache_getInternal s k \<lparr>fnode_value = v, fnode_freq = f\<rparr> =
        (case KLfuCache_addFreqNum s4 of None \<Rightarrow> None | Some s5 \<Rightarrow> Some (s5, v))"
    and s4: "lfu_nodeMap s4 = [(k, \<lparr>fnode_value = v, fnode_freq = f + 1\<rparr>)]"
      "lfu_curTotalNum s4 = f" "lfu_minFreq s4 = f + 1"
      "umap_find (lfu_freqToFreqList s4) (f + 1) = Some [k]"
      "umap_find (lfu_freqToFreqList s4) 1 \<noteq> None"
      "\<not> (\<exists>g ks. g \<noteq> f + 1 \<and> umap_find (lfu_freqToFreqList s4) g = Some ks \<and> ks \<noteq> [])"
      "lfu_capacity s4 = lfu_capacity s" "lfu_maxAverageNum s4 = lfu_maxAverageNum s"
      "lfu_tailKey s4 = lfu_tailKey s"
    by blast
  define s1 where "s1 = s4\<lparr>lfu_curTotalNum := f + 1\<rparr>"
  define s5 where "s5 = s1\<lparr>lfu_curAverageNum := f + 1\<rparr>"
  have a: "KLfuCache_average s1 = f + 1"
    using single_average[of s1] f s4(1) by (simp add: s1_def)
  have m1: "lfu_maxAverageNum s1 = lfu_maxAverageNum s" by (simp add: s1_def s4(8))
  have "KLfuCache_addFreqNum s4 = Some s5"
    using m a m1 by (simp add: KLfuCache_addFreqNum_def Let_def s4(2) s1_def[symmetric] s5_def)
  with e have g: "KLfuCache_get s k = Some (s5, Some v)"
    using s by (simp add: KLfuCache_get_def KLfuCache_single_def umap_find_def)
  have "KLfuCache_single k v (f + 1) s5"
    using s4 by (simp add: KLfuCache_single_def s5_def s1_def)
  with g s4(7-9) show ?thesis by (simp add: s5_def s1_def)
qed

lemma KLfuCache_run_append:
  "KLfuCache_run s (xs @ ys) =
     (case KLfuCache_run s xs of None \<Rightarrow> None | Some s1 \<Rightarrow> KLfuCache_run s1 ys)"
proof (induction xs arbitrary: s)
  case Nil
  then show ?case by simp
next
  case (Cons x xs)
  then show ?case by (cases x) (auto split: option.splits)
qed

lemma single_run_below:
  assumes "KLfuCache_single k v f s" "1 \<le> f" "f + int n < 2 ^ 31"
    "f + int n \<le> lfu_maxAverageNum s"
  shows "\<exists>s'. KLfuCache_run s (replicate n (Get k)) = Some s'
     \<and> KLfuCache_single k v (f + int n) s'
     \<and> lfu_capacity s' = lfu_capacity s \<and> lfu_maxAverageNum s' = lfu_maxAverageNum s
     \<and> lfu_tailKey s' = lfu_tailKey s"
  using assms
proof (induction n arbitrary: s f)
  case 0
  then show ?case by simp
next
  case (Suc n)
  from single_get_below[OF Suc.prems(1,2)] Suc.prems(3,4)
  obtain s1 where g: "KLfuCache_get s k = Some (s1, Some v)"
    and s1: "KLfuCache_single k v (f + 1) s1"
    and fr: "lfu_capacity s1 = lfu_capacity s" "lfu_maxAverageNum s1 = lfu_maxAverageNum s"
      "lfu_tailKey s1 = lfu_tailKey s"
    by auto
  from Suc.IH[OF s1] Suc.prems(2-4) fr
  obtain s' where r: "KLfuCache_run s1 (replicate n (Get k)) = Some s'"
    and s': "KLfuCache_single k v (f + 1 + int n) s'"
    and fr': "lfu_capacity s' = lfu_capacity s1" "lfu_maxAverageNum s' = lfu_maxAverageNum s1"
      "lfu_tailKey s' = lfu_tailKey s1"
    by auto
  have "f + 1 + int n = f + int (Suc n)" by simp
  with s' have "KLfuCache_single k v (f + int (Suc n)) s'" by simp
  then show ?case using g r fr fr' by simp
qed

text \<open>At the maximum the next hit rescales, and \<^verbatim>\<open>updateMinFreq\<close> runs.\<close>

lemma single_get_over:
  assumes s: "KLfuCache_single k v f s" and f: "1 \<le> f" "f + 1 < 2 ^ 31"
    and m: "lfu_maxAverageNum s < f + 1"
    and f': "f' = KLfuCache_aged (lfu_maxAverageNum s) (f + 1)" "f' \<noteq> f + 1"
  shows "\<exists>s'. KLfuCache_get s k = Some (s', Some v)
     \<and> lfu_nodeMap s' = [(k, \<lparr>fnode_value = v, fnode_freq = f'\<rparr>)]
     \<and> lfu_curTotalNum s' = f + 1
     \<and> umap_find (lfu_freqToFreqList s') f' = Some [k]
     \<and> umap_find (lfu_freqToFreqList s') 1 \<noteq> None
     \<and> \<not> (\<exists>g ks. g \<noteq> f' \<and> umap_find (lfu_freqToFreqList s') g = Some ks \<and> ks \<noteq> [])
     \<and> lfu_minFreq s' = (if f' < INT8_MAX then f' else 1)
     \<and> lfu_capacity s' = lfu_capacity s \<and> lfu_maxAverageNum s' = lfu_maxAverageNum s
     \<and> lfu_tailKey s' = lfu_tailKey s"
proof -
  from single_get[OF s f] obtain s4 where
    e: "KLfuCache_getInternal s k \<lparr>fnode_value = v, fnode_freq = f\<rparr> =
        (case KLfuCache_addFreqNum s4 of None \<Rightarrow> None | Some s5 \<Rightarrow> Some (s5, v))"
    and s4: "lfu_nodeMap s4 = [(k, \<lparr>fnode_value = v, fnode_freq = f + 1\<rparr>)]"
      "lfu_curTotalNum s4 = f" "lfu_minFreq s4 = f + 1"
      "umap_find (lfu_freqToFreqList s4) (f + 1) = Some [k]"
      "umap_find (lfu_freqToFreqList s4) 1 \<noteq> None"
      "\<not> (\<exists>g ks. g \<noteq> f + 1 \<and> umap_find (lfu_freqToFreqList s4) g = Some ks \<and> ks \<noteq> [])"
      "lfu_capacity s4 = lfu_capacity s" "lfu_maxAverageNum s4 = lfu_maxAverageNum s"
      "lfu_tailKey s4 = lfu_tailKey s"
    by blast
  let ?node = "\<lparr>fnode_value = v, fnode_freq = f + 1\<rparr>"
  define s1 where "s1 = s4\<lparr>lfu_curTotalNum := f + 1\<rparr>"
  define s2 where "s2 = s1\<lparr>lfu_curAverageNum := f + 1\<rparr>"
  have a: "KLfuCache_average s1 = f + 1"
    using single_average[of s1] f s4(1) by (simp add: s1_def)
  have m1: "lfu_maxAverageNum s1 = lfu_maxAverageNum s" by (simp add: s1_def s4(8))
  have e1: "KLfuCache_addFreqNum s4 = KLfuCache_handleOverMaxAverageNum s2"
    using m a m1 by (simp add: KLfuCache_addFreqNum_def Let_def s4(2) s1_def[symmetric] s2_def)
  have nm2: "lfu_nodeMap s2 = [(k, ?node)]" by (simp add: s2_def s1_def s4(1))
  have bk2: "lfu_freqToFreqList s2 = lfu_freqToFreqList s4" by (simp add: s2_def s1_def)
  have b: "umap_find (lfu_freqToFreqList s2) (fnode_freq ?node) = Some [k]"
    using s4(4) by (simp add: bk2)
  from s4(6) have others: "\<forall>g ks. g \<noteq> f + 1 \<longrightarrow> umap_find (lfu_freqToFreqList s4) g = Some ks \<longrightarrow> ks = []"
    by blast
  with f'(2) have "\<forall>ks. umap_find (lfu_freqToFreqList s4) f' = Some ks \<longrightarrow> ks = []"
    by blast
  then have up: "(case umap_find (lfu_freqToFreqList s4) f' of None \<Rightarrow> [] | Some l \<Rightarrow> l) = []"
    by (cases "umap_find (lfu_freqToFreqList s4) f'") auto
  define s3 where "s3 = s2\<lparr>lfu_nodeMap := [(k, \<lparr>fnode_value = v, fnode_freq = f'\<rparr>)],
            lfu_freqToFreqList :=
              umap_assign f' [k] (umap_assign (f + 1) [] (lfu_freqToFreqList s4))\<rparr>"
  have mv: "KLfuCache_moveNode s2 k ?node f' = Some s3"
    using f'(2) up by (simp add: moveNode_eq[OF b] s3_def nm2 bk2 umap_assign_def)
  have m2: "lfu_maxAverageNum s2 = lfu_maxAverageNum s" by (simp add: s2_def m1)
  have ag: "KLfuCache_ageNodes (umap_keys (lfu_nodeMap s2)) s2 = Some s3"
    using mv f'(1) by (simp add: nm2 umap_keys_def ageNodes_Cons umap_find_def m2)
  have ho: "KLfuCache_handleOverMaxAverageNum s2 = Some (KLfuCache_updateMinFreq s3)"
    using ag by (simp add: KLfuCache_handleOverMaxAverageNum_def nm2)
  let ?s' = "KLfuCache_updateMinFreq s3"
  have g: "KLfuCache_get s k = Some (?s', Some v)"
    using s by (simp add: KLfuCache_get_def KLfuCache_single_def umap_find_def e e1 ho)
  have bk: "umap_find (lfu_freqToFreqList s3) g =
      (if g = f' then Some [k] else if g = f + 1 then Some [] else umap_find (lfu_freqToFreqList s4) g)" for g
    by (simp add: s3_def)
  have ne: "{g. \<exists>ks. umap_find (lfu_freqToFreqList s3) g = Some ks \<and> ks \<noteq> []} = {f'}"
    using others by (auto simp: bk split: if_splits)
  have mf: "lfu_minFreq ?s' = (if f' < INT8_MAX then f' else 1)"
    by (simp add: updateMinFreq_minFreq ne Let_def min_def)
  have b1: "umap_find (lfu_freqToFreqList s3) 1 \<noteq> None"
    using s4(5) by (simp add: bk)
  have o3: "\<not> (\<exists>g ks. g \<noteq> f' \<and> umap_find (lfu_freqToFreqList s3) g = Some ks \<and> ks \<noteq> [])"
    using others by (auto simp: bk split: if_splits)
  show ?thesis
    by (intro exI[of _ ?s'] conjI g mf)
       (use b1 o3 in \<open>simp_all add: updateMinFreq_frame bk\<close>,
        simp_all add: s3_def s2_def s1_def s4)
qed

section \<open>KLfuCache: minFreq after a rescale\<close>

lemma lfu_first_put:
  "KLfuCache_put (KLfuCache_init 1 252 0) (1::nat) ''a'' =
     Some \<lparr>lfu_capacity = 1, lfu_minFreq = 1, lfu_maxAverageNum = 252, lfu_curAverageNum = 1,
           lfu_curTotalNum = 1, lfu_nodeMap = [(1, \<lparr>fnode_value = ''a'', fnode_freq = 1\<rparr>)],
           lfu_freqToFreqList = [(1, [1])], lfu_tailKey = 0\<rparr>"
  by code_simp

lemma lfu_127_run:
  "\<exists>s. KLfuCache_run (KLfuCache_init 1 252 0) (Put (1::nat) ''a'' # replicate 252 (Get 1)) = Some s
      \<and> lfu_nodeMap s = [(1, \<lparr>fnode_value = ''a'', fnode_freq = 127\<rparr>)]
      \<and> lfu_curTotalNum s = 253
      \<and> umap_find (lfu_freqToFreqList s) 127 = Some [1]
      \<and> umap_find (lfu_freqToFreqList s) 1 \<noteq> None
      \<and> \<not> (\<exists>g ks. g \<noteq> 127 \<and> umap_find (lfu_freqToFreqList s) g = Some ks \<and> ks \<noteq> [])
      \<and> lfu_minFreq s = 1
      \<and> lfu_capacity s = 1 \<and> lfu_maxAverageNum s = 252 \<and> lfu_tailKey s = 0"
proof -
  define s1 :: "(nat, string) KLfuCache" where "s1 =
     \<lparr>lfu_capacity = 1, lfu_minFreq = 1, lfu_maxAverageNum = 252, lfu_curAverageNum = 1,
           lfu_curTotalNum = 1, lfu_nodeMap = [(1, \<lparr>fnode_value = ''a'', fnode_freq = 1\<rparr>)],
           lfu_freqToFreqList = [(1, [1])], lfu_tailKey = 0\<rparr>"
  have p: "KLfuCache_put (KLfuCache_init 1 252 0) (1::nat) ''a'' = Some s1"
    unfolding s1_def by (rule lfu_first_put)
  have single1: "KLfuCache_single 1 ''a'' 1 s1"
    by (auto simp: KLfuCache_single_def s1_def umap_find_def split: if_splits)
  from single_run_below[OF single1, of 251]
  obtain s2 where r2: "KLfuCache_run s1 (replicate 251 (Get 1)) = Some s2"
    and single2: "KLfuCache_single 1 ''a'' 252 s2"
    and fr2: "lfu_capacity s2 = 1" "lfu_maxAverageNum s2 = 252" "lfu_tailKey s2 = 0"
    by (auto simp: s1_def)
  have ag: "KLfuCache_aged 252 253 = 127"
    by (simp add: KLfuCache_aged_def cpp_div_def)
  from single_get_over[OF single2, of 127] fr2 ag
  obtain s3 where g3: "KLfuCache_get s2 1 = Some (s3, Some ''a'')"
    and s3: "lfu_nodeMap s3 = [(1, \<lparr>fnode_value = ''a'', fnode_freq = 127\<rparr>)]"
      "lfu_curTotalNum s3 = 253"
      "umap_find (lfu_freqToFreqList s3) 127 = Some [1]"
      "umap_find (lfu_freqToFreqList s3) 1 \<noteq> None"
      "\<not> (\<exists>g ks. g \<noteq> 127 \<and> umap_find (lfu_freqToFreqList s3) g = Some ks \<and> ks \<noteq> [])"
      "lfu_minFreq s3 = 1"
      "lfu_capacity s3 = 1" "lfu_maxAverageNum s3 = 252" "lfu_tailKey s3 = 0"
    by (auto simp: INT8_MAX_def)
  have "(252::nat) = Suc 251" by simp
  then have "replicate 252 (Get (1::nat)) = replicate 251 (Get 1) @ [Get 1 :: (nat, string) cache_op]"
    by (simp only: replicate_Suc replicate_append_same)
  then have "KLfuCache_run (KLfuCache_init 1 252 0) (Put (1::nat) ''a'' # replicate 252 (Get 1)) = Some s3"
    using p r2 g3 by (simp add: KLfuCache_run_append)
  with s3 show ?thesis by blast
qed

lemma lfu_127_put:
  fixes s :: "(nat, string) KLfuCache"
  assumes "lfu_nodeMap s = [(1, \<lparr>fnode_value = ''a'', fnode_freq = 127\<rparr>)]"
    "lfu_curTotalNum s = 253"
    "umap_find (lfu_freqToFreqList s) 1 \<noteq> None"
    "\<not> (\<exists>g ks. g \<noteq> 127 \<and> umap_find (lfu_freqToFreqList s) g = Some ks \<and> ks \<noteq> [])"
    "lfu_minFreq s = 1" "lfu_capacity s = 1" "lfu_maxAverageNum s = 252" "lfu_tailKey s = 0"
  shows "\<exists>s'. KLfuCache_put s 2 ''b'' = Some s'
     \<and> lfu_nodeMap s' = [(1, \<lparr>fnode_value = ''a'', fnode_freq = 127\<rparr>),
                          (2, \<lparr>fnode_value = ''b'', fnode_freq = 1\<rparr>)]
     \<and> lfu_capacity s' = 1"
proof -
  from assms(4) have "\<forall>g ks. g \<noteq> 127 \<longrightarrow> umap_find (lfu_freqToFreqList s) g = Some ks \<longrightarrow> ks = []"
    by blast
  moreover have "(1::int) \<noteq> 127" by simp
  ultimately have "\<forall>ks. umap_find (lfu_freqToFreqList s) 1 = Some ks \<longrightarrow> ks = []"
    by blast
  with assms(3) have b1: "umap_find (lfu_freqToFreqList s) 1 = Some []"
    by (cases "umap_find (lfu_freqToFreqList s) 1") auto
  have sz: "umap_size (lfu_nodeMap s) = to_size_t (lfu_capacity s)"
    by (simp add: assms to_size_t_def)
  define s1 where "s1 = KLfuCache_decreaseFreqNum
                       (s\<lparr>lfu_nodeMap := umap_erase (lfu_tailKey s) (lfu_nodeMap s)\<rparr>) 1"
  have ko: "KLfuCache_kickOut s = Some s1"
    using b1 by (simp add: KLfuCache_kickOut_def assms(5) s1_def)
  have nm1: "lfu_nodeMap s1 = [(1, \<lparr>fnode_value = ''a'', fnode_freq = 127\<rparr>)]"
    by (simp add: s1_def decreaseFreqNum_frame assms umap_erase_def)
  have fr1: "lfu_curTotalNum s1 = 252" "lfu_maxAverageNum s1 = 252" "lfu_capacity s1 = 1"
    by (simp_all add: s1_def decreaseFreqNum_frame assms)
  define s3 where "s3 = KLfuCache_addToFreqList
      (s1\<lparr>lfu_nodeMap := umap_assign 2 \<lparr>fnode_value = ''b'', fnode_freq = 1\<rparr> (lfu_nodeMap s1)\<rparr>) 2 1"
  have nm3: "lfu_nodeMap s3 = [(1, \<lparr>fnode_value = ''a'', fnode_freq = 127\<rparr>),
                          (2, \<lparr>fnode_value = ''b'', fnode_freq = 1\<rparr>)]"
    and fr3: "lfu_curTotalNum s3 = 252" "lfu_maxAverageNum s3 = 252" "lfu_capacity s3 = 1"
    by (simp_all add: s3_def KLfuCache_addToFreqList_def Let_def nm1 fr1 umap_assign_def)
  define s4 where "s4 = s3\<lparr>lfu_curTotalNum := 253\<rparr>"
  have sz4: "umap_size (lfu_nodeMap s4) = 2"
    by (simp add: s4_def nm3 umap_size_def umap_keys_def)
  have av: "KLfuCache_average s4 = 126"
    using KLfuCache_average_eq[of s4] by (simp add: sz4) (simp add: s4_def nm3)
  have af: "KLfuCache_addFreqNum s3 = Some (s4\<lparr>lfu_curAverageNum := 126\<rparr>)"
    using av by (simp add: KLfuCache_addFreqNum_def Let_def fr3 s4_def[symmetric])
      (simp add: s4_def fr3)
  have "KLfuCache_putInternal s 2 ''b'' =
      Some (s4\<lparr>lfu_curAverageNum := 126, lfu_minFreq := min (lfu_minFreq s4) 1\<rparr>)"
    using sz ko af by (simp add: KLfuCache_putInternal_def Let_def s3_def[symmetric])
  then have "KLfuCache_put s 2 ''b'' =
      Some (s4\<lparr>lfu_curAverageNum := 126, lfu_minFreq := min (lfu_minFreq s4) 1\<rparr>)"
    by (simp add: KLfuCache_put_def assms umap_find_def)
  then show ?thesis by (simp add: s4_def nm3 fr3)
qed

text \<open>
  C5. \<^verbatim>\<open>updateMinFreq\<close> starts from \<^verbatim>\<open>INT8_MAX\<close>, 127, takes the minimum with the
  frequency of every non-empty list, and replaces a result of 127 by 1. So it yields
  the smallest non-empty list only when that is below 127: when the smallest is 127 or
  more it yields 1, as if no list were non-empty. After \<^verbatim>\<open>put(1,a)\<close> and 252 times
  \<^verbatim>\<open>get(1)\<close> on a cache of capacity 1 and maximum average 252, the last \<^verbatim>\<open>get\<close>
  rescales key 1 from 253 to 127: the only non-empty list is that of 127, and
  \<^verbatim>\<open>minFreq_\<close> is 1. The \<^verbatim>\<open>put(2,b)\<close> that follows finds the list of 1 empty, evicts
  nothing, and leaves two entries in a cache of capacity 1.
\<close>

theorem C5_minFreq_after_rescale:
  "lfu_minFreq (KLfuCache_updateMinFreq s) =
     (let m = Min (insert INT8_MAX
                {g. \<exists>ks. umap_find (lfu_freqToFreqList s) g = Some ks \<and> ks \<noteq> []})
      in if m = INT8_MAX then 1 else m)
   \<and> (\<exists>s1. KLfuCache_run (KLfuCache_init 1 252 0) (Put (1::nat) ''a'' # replicate 252 (Get 1))
             = Some s1
          \<and> lfu_nodeMap s1 = [(1, \<lparr>fnode_value = ''a'', fnode_freq = 127\<rparr>)]
          \<and> umap_find (lfu_freqToFreqList s1) 127 = Some [1]
          \<and> \<not> (\<exists>g ks. g \<noteq> 127 \<and> umap_find (lfu_freqToFreqList s1) g = Some ks \<and> ks \<noteq> [])
          \<and> lfu_minFreq s1 = 1
          \<and> (\<exists>s2. KLfuCache_put s1 2 ''b'' = Some s2
                 \<and> lfu_nodeMap s2 = [(1, \<lparr>fnode_value = ''a'', fnode_freq = 127\<rparr>),
                                      (2, \<lparr>fnode_value = ''b'', fnode_freq = 1\<rparr>)]
                 \<and> umap_size (lfu_nodeMap s2) = 2
                 \<and> lfu_capacity s2 = 1))"
proof -
  from lfu_127_run obtain s1 where
    r: "KLfuCache_run (KLfuCache_init 1 252 0) (Put (1::nat) ''a'' # replicate 252 (Get 1)) = Some s1"
    and s1: "lfu_nodeMap s1 = [(1, \<lparr>fnode_value = ''a'', fnode_freq = 127\<rparr>)]"
      "lfu_curTotalNum s1 = 253"
      "umap_find (lfu_freqToFreqList s1) 1 \<noteq> None"
      "\<not> (\<exists>g ks. g \<noteq> 127 \<and> umap_find (lfu_freqToFreqList s1) g = Some ks \<and> ks \<noteq> [])"
      "lfu_minFreq s1 = 1" "lfu_capacity s1 = 1" "lfu_maxAverageNum s1 = 252" "lfu_tailKey s1 = 0"
    and b: "umap_find (lfu_freqToFreqList s1) 127 = Some [1]"
    by blast
  from lfu_127_put[OF s1] obtain s2 where
    p: "KLfuCache_put s1 2 ''b'' = Some s2"
    and s2: "lfu_nodeMap s2 = [(1, \<lparr>fnode_value = ''a'', fnode_freq = 127\<rparr>),
                          (2, \<lparr>fnode_value = ''b'', fnode_freq = 1\<rparr>)]"
      "lfu_capacity s2 = 1"
    by blast
  have "umap_size (lfu_nodeMap s2) = 2"
    by (simp add: s2 umap_size_def umap_keys_def)
  with p s2 have "\<exists>s2. KLfuCache_put s1 2 ''b'' = Some s2
                 \<and> lfu_nodeMap s2 = [(1, \<lparr>fnode_value = ''a'', fnode_freq = 127\<rparr>),
                                      (2, \<lparr>fnode_value = ''b'', fnode_freq = 1\<rparr>)]
                 \<and> umap_size (lfu_nodeMap s2) = 2
                 \<and> lfu_capacity s2 = 1"
    by blast
  with r s1 b show ?thesis
    using updateMinFreq_minFreq[of s] by blast
qed

section \<open>ArcLruPart: consistency and the capacity bound\<close>

lemma ArcLruPart_inv_iff:
  "ArcLruPart_inv s \<longleftrightarrow>
     distinct (alru_mainList s) \<and> set (alru_mainList s) = dom (umap_find (alru_mainCache s))"
  by (simp add: ArcLruPart_inv_def set_umap_keys)

lemma ArcLruPart_inv_init: "ArcLruPart_inv (ArcLruPart_init c t)"
  by (simp add: ArcLruPart_inv_iff ArcLruPart_init_def)

lemma ArcLruPart_evict_frame:
  "alru_capacity (ArcLruPart_evictLeastRecent s) = alru_capacity s"
  "alru_ghostCapacity (ArcLruPart_evictLeastRecent s) = alru_ghostCapacity s"
  "alru_transformThreshold (ArcLruPart_evictLeastRecent s) = alru_transformThreshold s"
  "alru_mainList (ArcLruPart_evictLeastRecent s) = butlast (alru_mainList s)"
  "alru_mainCache (ArcLruPart_evictLeastRecent s) =
     (if alru_mainList s = [] then alru_mainCache s
      else umap_erase (last (alru_mainList s)) (alru_mainCache s))"
  by (simp_all add: ArcLruPart_evictLeastRecent_def ArcLruPart_addToGhost_def
      ArcLruPart_removeOldestGhost_def Let_def)

lemma ArcLruPart_inv_evict:
  assumes "ArcLruPart_inv s"
  shows "ArcLruPart_inv (ArcLruPart_evictLeastRecent s)"
proof (cases "alru_mainList s = []")
  case True
  with assms show ?thesis by (simp add: ArcLruPart_inv_iff ArcLruPart_evict_frame)
next
  case False
  then have l: "alru_mainList s = butlast (alru_mainList s) @ [last (alru_mainList s)]" by simp
  from assms have d: "distinct (alru_mainList s)"
    and e: "set (alru_mainList s) = dom (umap_find (alru_mainCache s))"
    by (simp_all add: ArcLruPart_inv_iff)
  from d l have n: "last (alru_mainList s) \<notin> set (butlast (alru_mainList s))"
    by (metis distinct_append distinct.simps(2) disjoint_iff list.set_intros(1))
  from l have "set (alru_mainList s) = insert (last (alru_mainList s)) (set (butlast (alru_mainList s)))"
    by (metis Un_insert_right append_Nil2 list.simps(15) set_append)
  with n e have "set (butlast (alru_mainList s)) =
      dom (umap_find (alru_mainCache s)) - {last (alru_mainList s)}" by auto
  with d False show ?thesis
    by (simp add: ArcLruPart_inv_iff ArcLruPart_evict_frame distinct_butlast)
qed

lemma ArcLruPart_size_evict:
  assumes "ArcLruPart_inv s" "alru_mainCache s \<noteq> []"
  shows "Suc (umap_size (alru_mainCache (ArcLruPart_evictLeastRecent s))) = umap_size (alru_mainCache s)"
proof -
  from assms have ne: "alru_mainList s \<noteq> []"
    by (auto simp: ArcLruPart_inv_iff umap_dom_empty_iff2)
  then have "last (alru_mainList s) \<in> set (alru_mainList s)" by simp
  with assms have "umap_find (alru_mainCache s) (last (alru_mainList s)) \<noteq> None"
    by (auto simp: ArcLruPart_inv_iff)
  moreover have "0 < umap_size (alru_mainCache s)"
    using assms(2) by (cases "umap_size (alru_mainCache s)") auto
  ultimately show ?thesis using ne
    by (simp add: ArcLruPart_evict_frame umap_size_erase del: umap_size_0_iff)
qed

lemma ArcLruPart_put_frame:
  "alru_capacity (fst (ArcLruPart_put s k v)) = alru_capacity s"
  "alru_ghostCapacity (fst (ArcLruPart_put s k v)) = alru_ghostCapacity s"
  "alru_transformThreshold (fst (ArcLruPart_put s k v)) = alru_transformThreshold s"
  by (simp_all add: ArcLruPart_put_def ArcLruPart_updateExistingNode_def ArcLruPart_addNewNode_def
      ArcLruPart_moveToFront_def ArcLruPart_addToFront_def ArcLruPart_evict_frame Let_def
      split: option.splits)

lemma ArcLruPart_inv_put:
  assumes "ArcLruPart_inv s"
  shows "ArcLruPart_inv (fst (ArcLruPart_put s k v))"
proof (cases "alru_capacity s = 0")
  case True
  then show ?thesis using assms by (simp add: ArcLruPart_put_def)
next
  case False
  show ?thesis
  proof (cases "umap_find (alru_mainCache s) k")
    case None
    define s1 where "s1 = (if umap_size (alru_mainCache s) \<ge> alru_capacity s
                then ArcLruPart_evictLeastRecent s else s)"
    have inv1: "ArcLruPart_inv s1"
      using assms by (simp add: s1_def ArcLruPart_inv_evict)
    have "dom (umap_find (alru_mainCache s1)) \<subseteq> dom (umap_find (alru_mainCache s))"
      by (auto simp: s1_def ArcLruPart_evict_frame split: if_splits)
    with None have "k \<notin> dom (umap_find (alru_mainCache s1))" by auto
    with inv1 have "ArcLruPart_inv (ArcLruPart_addNewNode k v s)"
      by (auto simp: ArcLruPart_addNewNode_def ArcLruPart_addToFront_def ArcLruPart_inv_iff
          Let_def s1_def[symmetric])
    with None False show ?thesis by (simp add: ArcLruPart_put_def)
  next
    case (Some node)
    then have "k \<in> dom (umap_find (alru_mainCache s))" by auto
    with assms have "ArcLruPart_inv (ArcLruPart_updateExistingNode k node v s)"
      by (auto simp: ArcLruPart_updateExistingNode_def ArcLruPart_moveToFront_def
          ArcLruPart_addToFront_def ArcLruPart_inv_iff insert_absorb)
    with Some False show ?thesis by (simp add: ArcLruPart_put_def)
  qed
qed

lemma ArcLruPart_size_put:
  assumes inv: "ArcLruPart_inv s"
    and le: "umap_size (alru_mainCache s) \<le> alru_capacity s"
  shows "umap_size (alru_mainCache (fst (ArcLruPart_put s k v))) \<le> alru_capacity s"
proof (cases "alru_capacity s = 0")
  case True
  then show ?thesis using le by (simp add: ArcLruPart_put_def)
next
  case False
  show ?thesis
  proof (cases "umap_find (alru_mainCache s) k")
    case (Some node)
    then show ?thesis using False le
      by (simp add: ArcLruPart_put_def ArcLruPart_updateExistingNode_def
          ArcLruPart_moveToFront_def ArcLruPart_addToFront_def umap_size_assign)
  next
    case None
    show ?thesis
    proof (cases "umap_size (alru_mainCache s) \<ge> alru_capacity s")
      case True
      with False have ne: "alru_mainCache s \<noteq> []" by (cases "alru_mainCache s") auto
      from ArcLruPart_size_evict[OF inv ne] le
      have "umap_size (alru_mainCache (ArcLruPart_evictLeastRecent s)) < alru_capacity s"
        by linarith
      then show ?thesis using None False True
        by (simp add: ArcLruPart_put_def ArcLruPart_addNewNode_def ArcLruPart_addToFront_def
            Let_def umap_size_assign)
    next
      case False2: False
      then show ?thesis using None False
        by (simp add: ArcLruPart_put_def ArcLruPart_addNewNode_def ArcLruPart_addToFront_def
            Let_def umap_size_assign)
    qed
  qed
qed

lemma ArcLruPart_get_frame:
  "alru_capacity (fst (ArcLruPart_get s k)) = alru_capacity s"
  "alru_ghostCapacity (fst (ArcLruPart_get s k)) = alru_ghostCapacity s"
  "alru_transformThreshold (fst (ArcLruPart_get s k)) = alru_transformThreshold s"
  "alru_ghostCache (fst (ArcLruPart_get s k)) = alru_ghostCache s"
  "alru_ghostList (fst (ArcLruPart_get s k)) = alru_ghostList s"
  "umap_size (alru_mainCache (fst (ArcLruPart_get s k))) = umap_size (alru_mainCache s)"
  by (auto simp: ArcLruPart_get_def ArcLruPart_updateNodeAccess_def ArcLruPart_moveToFront_def
      ArcLruPart_addToFront_def Let_def umap_size_assign split: option.splits)

lemma ArcLruPart_inv_get:
  assumes "ArcLruPart_inv s"
  shows "ArcLruPart_inv (fst (ArcLruPart_get s k))"
  using assms
  by (auto simp: ArcLruPart_get_def ArcLruPart_updateNodeAccess_def ArcLruPart_moveToFront_def
      ArcLruPart_addToFront_def ArcLruPart_inv_iff Let_def split: option.splits)

lemma ArcLruPart_checkGhost_frame:
  "alru_capacity (fst (ArcLruPart_checkGhost s k)) = alru_capacity s"
  "alru_ghostCapacity (fst (ArcLruPart_checkGhost s k)) = alru_ghostCapacity s"
  "alru_transformThreshold (fst (ArcLruPart_checkGhost s k)) = alru_transformThreshold s"
  "alru_mainCache (fst (ArcLruPart_checkGhost s k)) = alru_mainCache s"
  "alru_mainList (fst (ArcLruPart_checkGhost s k)) = alru_mainList s"
  "snd (ArcLruPart_checkGhost s k) = (umap_find (alru_ghostCache s) k \<noteq> None)"
  "alru_ghostCache (fst (ArcLruPart_checkGhost s k)) =
     (if umap_find (alru_ghostCache s) k \<noteq> None then umap_erase k (alru_ghostCache s)
      else alru_ghostCache s)"
  "alru_ghostList (fst (ArcLruPart_checkGhost s k)) =
     (if umap_find (alru_ghostCache s) k \<noteq> None then remove1 k (alru_ghostList s)
      else alru_ghostList s)"
  by (simp_all add: ArcLruPart_checkGhost_def split: option.splits)

lemma ArcLruPart_inv_checkGhost:
  "ArcLruPart_inv (fst (ArcLruPart_checkGhost s k)) = ArcLruPart_inv s"
  by (simp add: ArcLruPart_inv_iff ArcLruPart_checkGhost_frame)

lemma ArcLruPart_inv_increase:
  "ArcLruPart_inv (ArcLruPart_increaseCapacity s) = ArcLruPart_inv s"
  by (simp add: ArcLruPart_inv_iff ArcLruPart_increaseCapacity_def)

text \<open>
  \<^verbatim>\<open>decreaseCapacity\<close> fails on capacity 0 and changes nothing; otherwise it evicts
  one entry when the part is full and takes one from the capacity.
\<close>

lemma ArcLruPart_decrease:
  assumes inv: "ArcLruPart_inv s" and le: "umap_size (alru_mainCache s) \<le> alru_capacity s"
  shows "ArcLruPart_inv (fst (ArcLruPart_decreaseCapacity s))"
    and "snd (ArcLruPart_decreaseCapacity s) = (0 < alru_capacity s)"
    and "alru_capacity s = 0 \<Longrightarrow> fst (ArcLruPart_decreaseCapacity s) = s"
    and "0 < alru_capacity s \<Longrightarrow>
           alru_capacity (fst (ArcLruPart_decreaseCapacity s)) = alru_capacity s - 1"
    and "0 < alru_capacity s \<Longrightarrow>
           umap_size (alru_mainCache (fst (ArcLruPart_decreaseCapacity s))) =
             (if umap_size (alru_mainCache s) = alru_capacity s
              then umap_size (alru_mainCache s) - 1 else umap_size (alru_mainCache s))"
    and "umap_size (alru_mainCache (fst (ArcLruPart_decreaseCapacity s)))
           \<le> alru_capacity (fst (ArcLruPart_decreaseCapacity s))"
proof -
  show "ArcLruPart_inv (fst (ArcLruPart_decreaseCapacity s))"
    using inv by (simp add: ArcLruPart_decreaseCapacity_def Let_def ArcLruPart_inv_iff
        ArcLruPart_inv_evict[unfolded ArcLruPart_inv_iff])
  show "snd (ArcLruPart_decreaseCapacity s) = (0 < alru_capacity s)"
    by (simp add: ArcLruPart_decreaseCapacity_def Let_def)
  show "alru_capacity s = 0 \<Longrightarrow> fst (ArcLruPart_decreaseCapacity s) = s"
    by (simp add: ArcLruPart_decreaseCapacity_def)
  show "0 < alru_capacity s \<Longrightarrow>
           alru_capacity (fst (ArcLruPart_decreaseCapacity s)) = alru_capacity s - 1"
    by (simp add: ArcLruPart_decreaseCapacity_def Let_def ArcLruPart_evict_frame)
  have ev: "umap_size (alru_mainCache s) = alru_capacity s \<Longrightarrow> 0 < alru_capacity s \<Longrightarrow>
      umap_size (alru_mainCache (ArcLruPart_evictLeastRecent s)) = umap_size (alru_mainCache s) - 1"
  proof -
    assume a: "umap_size (alru_mainCache s) = alru_capacity s" "0 < alru_capacity s"
    then have "alru_mainCache s \<noteq> []" by (cases "alru_mainCache s") auto
    from ArcLruPart_size_evict[OF inv this] show ?thesis by simp
  qed
  show sz: "0 < alru_capacity s \<Longrightarrow>
           umap_size (alru_mainCache (fst (ArcLruPart_decreaseCapacity s))) =
             (if umap_size (alru_mainCache s) = alru_capacity s
              then umap_size (alru_mainCache s) - 1 else umap_size (alru_mainCache s))"
    using ev by (simp add: ArcLruPart_decreaseCapacity_def Let_def)
  show "umap_size (alru_mainCache (fst (ArcLruPart_decreaseCapacity s)))
           \<le> alru_capacity (fst (ArcLruPart_decreaseCapacity s))"
    using le ev
    by (cases "alru_capacity s = 0")
       (auto simp: ArcLruPart_decreaseCapacity_def Let_def ArcLruPart_evict_frame)
qed

section \<open>ArcLfuPart: consistency and the capacity bound\<close>

lemma freqMap_at_Some: "umap_find m f = Some ks \<Longrightarrow> freqMap_at m f = ks"
  by (simp add: freqMap_at_def)

lemma freqMap_at_None: "umap_find m f = None \<Longrightarrow> freqMap_at m f = []"
  by (simp add: freqMap_at_def)

lemma case_node_iff:
  "(case x of None \<Rightarrow> False | Some node \<Rightarrow> P node) \<longleftrightarrow> (\<exists>node. x = Some node \<and> P node)"
  by (cases x) auto

lemma ArcLfuPart_inv_iff:
  "ArcLfuPart_inv s \<longleftrightarrow>
     (\<forall>k node. umap_find (alfu_mainCache s) k = Some node \<longrightarrow>
        k \<in> set (freqMap_at (alfu_freqMap s) (anode_accessCount node)))
     \<and> (\<forall>f ks. umap_find (alfu_freqMap s) f = Some ks \<longrightarrow>
          ks \<noteq> [] \<and> distinct ks
          \<and> (\<forall>k \<in> set ks. \<exists>node. umap_find (alfu_mainCache s) k = Some node
                                    \<and> anode_accessCount node = f))
     \<and> (alfu_mainCache s = [] \<or> umap_find (alfu_freqMap s) (alfu_minFreq s) \<noteq> None)"
  (is "_ \<longleftrightarrow> ?A \<and> ?B \<and> ?C")
proof -
  have a: "list_all (\<lambda>k. case umap_find (alfu_mainCache s) k of
                       None \<Rightarrow> True
                     | Some node \<Rightarrow> k \<in> set (freqMap_at (alfu_freqMap s) (anode_accessCount node)))
               (umap_keys (alfu_mainCache s)) \<longleftrightarrow> ?A"
    by (auto simp: list_all_iff set_umap_keys split: option.splits)
  have b: "list_all (\<lambda>f. freqMap_at (alfu_freqMap s) f \<noteq> []
                        \<and> distinct (freqMap_at (alfu_freqMap s) f)
                        \<and> list_all (\<lambda>k. case umap_find (alfu_mainCache s) k of
                                            None \<Rightarrow> False
                                          | Some node \<Rightarrow> anode_accessCount node = f)
                                     (freqMap_at (alfu_freqMap s) f))
                 (umap_keys (alfu_freqMap s)) \<longleftrightarrow> ?B"
    unfolding list_all_iff set_umap_keys case_node_iff
  proof
    assume l: "\<forall>f\<in>dom (umap_find (alfu_freqMap s)).
       freqMap_at (alfu_freqMap s) f \<noteq> [] \<and> distinct (freqMap_at (alfu_freqMap s) f) \<and>
       (\<forall>k\<in>set (freqMap_at (alfu_freqMap s) f).
           \<exists>node. umap_find (alfu_mainCache s) k = Some node \<and> anode_accessCount node = f)"
    show ?B
    proof (intro allI impI)
      fix f ks
      assume h: "umap_find (alfu_freqMap s) f = Some ks"
      then have "f \<in> dom (umap_find (alfu_freqMap s))" by auto
      with l freqMap_at_Some[OF h] show "ks \<noteq> [] \<and> distinct ks \<and>
          (\<forall>k\<in>set ks. \<exists>node. umap_find (alfu_mainCache s) k = Some node
              \<and> anode_accessCount node = f)"
        by fastforce
    qed
  next
    assume r: ?B
    show "\<forall>f\<in>dom (umap_find (alfu_freqMap s)).
       freqMap_at (alfu_freqMap s) f \<noteq> [] \<and> distinct (freqMap_at (alfu_freqMap s) f) \<and>
       (\<forall>k\<in>set (freqMap_at (alfu_freqMap s) f).
           \<exists>node. umap_find (alfu_mainCache s) k = Some node \<and> anode_accessCount node = f)"
    proof
      fix f assume "f \<in> dom (umap_find (alfu_freqMap s))"
      then obtain ks where h: "umap_find (alfu_freqMap s) f = Some ks" by auto
      from r h have "ks \<noteq> [] \<and> distinct ks \<and>
          (\<forall>k\<in>set ks. \<exists>node. umap_find (alfu_mainCache s) k = Some node
              \<and> anode_accessCount node = f)" by blast
      then show "freqMap_at (alfu_freqMap s) f \<noteq> [] \<and> distinct (freqMap_at (alfu_freqMap s) f) \<and>
       (\<forall>k\<in>set (freqMap_at (alfu_freqMap s) f).
           \<exists>node. umap_find (alfu_mainCache s) k = Some node \<and> anode_accessCount node = f)"
        unfolding freqMap_at_Some[OF h] .
    qed
  qed
  show ?thesis unfolding ArcLfuPart_inv_def a b ..
qed

lemma ArcLfuPart_inv_init: "ArcLfuPart_inv (ArcLfuPart_init c t)"
  by (simp add: ArcLfuPart_inv_iff ArcLfuPart_init_def)

lemma ArcLfuPart_inv_empty:
  assumes "ArcLfuPart_inv s" "alfu_mainCache s = []"
  shows "alfu_freqMap s = []"
proof -
  have "umap_find (alfu_freqMap s) f = None" for f
  proof (cases "umap_find (alfu_freqMap s) f")
    case (Some ks)
    with assms(1) have "ks \<noteq> []"
      and "\<forall>k \<in> set ks. \<exists>node. umap_find (alfu_mainCache s) k = Some node"
      unfolding ArcLfuPart_inv_iff by blast+
    with assms(2) show ?thesis by (cases ks) auto
  qed simp
  then show ?thesis by (simp add: umap_Nil_iff)
qed

subsection \<open>updateNodeFrequency\<close>

lemma ArcLfuPart_updateNodeFrequency_frame:
  "alfu_capacity (ArcLfuPart_updateNodeFrequency k node s) = alfu_capacity s"
  "alfu_ghostCapacity (ArcLfuPart_updateNodeFrequency k node s) = alfu_ghostCapacity s"
  "alfu_transformThreshold (ArcLfuPart_updateNodeFrequency k node s) = alfu_transformThreshold s"
  "alfu_ghostCache (ArcLfuPart_updateNodeFrequency k node s) = alfu_ghostCache s"
  "alfu_ghostList (ArcLfuPart_updateNodeFrequency k node s) = alfu_ghostList s"
  "alfu_mainCache (ArcLfuPart_updateNodeFrequency k node s) =
     umap_assign k (node\<lparr>anode_accessCount := anode_accessCount node + 1\<rparr>) (alfu_mainCache s)"
  "alfu_minFreq (ArcLfuPart_updateNodeFrequency k node s) =
     (if removeAll k (freqMap_at (alfu_freqMap s) (anode_accessCount node)) = []
         \<and> anode_accessCount node = alfu_minFreq s
      then anode_accessCount node + 1 else alfu_minFreq s)"
  by (auto simp: ArcLfuPart_updateNodeFrequency_def Let_def)

lemma ArcLfuPart_updateNodeFrequency_freqMap:
  "umap_find (alfu_freqMap (ArcLfuPart_updateNodeFrequency k node s)) g =
     (if g = anode_accessCount node + 1
      then Some (freqMap_at (alfu_freqMap s) (anode_accessCount node + 1) @ [k])
      else if g = anode_accessCount node
      then (if removeAll k (freqMap_at (alfu_freqMap s) (anode_accessCount node)) = [] then None
            else Some (removeAll k (freqMap_at (alfu_freqMap s) (anode_accessCount node))))
      else umap_find (alfu_freqMap s) g)"
  by (simp add: ArcLfuPart_updateNodeFrequency_def Let_def freqMap_at_def)

lemma ArcLfuPart_inv_updateNodeFrequency:
  assumes inv: "ArcLfuPart_inv s"
    and k: "umap_find (alfu_mainCache s) k = Some node0"
    and c: "anode_accessCount node = anode_accessCount node0"
  shows "ArcLfuPart_inv (ArcLfuPart_updateNodeFrequency k node s)"
proof -
  let ?c = "anode_accessCount node"
  let ?s' = "ArcLfuPart_updateNodeFrequency k node s"
  let ?old = "removeAll k (freqMap_at (alfu_freqMap s) ?c)"
  from inv have A: "\<And>j n. umap_find (alfu_mainCache s) j = Some n \<Longrightarrow>
        j \<in> set (freqMap_at (alfu_freqMap s) (anode_accessCount n))"
    and B1: "\<And>f ks. umap_find (alfu_freqMap s) f = Some ks \<Longrightarrow> ks \<noteq> [] \<and> distinct ks"
    and B2: "\<And>f ks j. umap_find (alfu_freqMap s) f = Some ks \<Longrightarrow> j \<in> set ks \<Longrightarrow>
        \<exists>n. umap_find (alfu_mainCache s) j = Some n \<and> anode_accessCount n = f"
    and C: "alfu_mainCache s = [] \<or> umap_find (alfu_freqMap s) (alfu_minFreq s) \<noteq> None"
    unfolding ArcLfuPart_inv_iff by blast+
  have B2': "\<And>f j. j \<in> set (freqMap_at (alfu_freqMap s) f) \<Longrightarrow>
        \<exists>n. umap_find (alfu_mainCache s) j = Some n \<and> anode_accessCount n = f"
  proof -
    fix f j assume "j \<in> set (freqMap_at (alfu_freqMap s) f)"
    then obtain ks where "umap_find (alfu_freqMap s) f = Some ks" "j \<in> set ks"
      by (cases "umap_find (alfu_freqMap s) f") (auto simp: freqMap_at_def)
    from B2[OF this] show "\<exists>n. umap_find (alfu_mainCache s) j = Some n \<and> anode_accessCount n = f" .
  qed
  have B1': "\<And>f. distinct (freqMap_at (alfu_freqMap s) f)"
    using B1 by (auto simp: freqMap_at_def split: option.splits)
  have knew: "k \<notin> set (freqMap_at (alfu_freqMap s) (?c + 1))"
    using B2'[of k "?c + 1"] k c by auto
  have ne: "alfu_mainCache s \<noteq> []" using k by auto
  have a: "k' \<in> set (freqMap_at (alfu_freqMap ?s') (anode_accessCount n))"
    if h: "umap_find (alfu_mainCache ?s') k' = Some n" for k' n
  proof (cases "k' = k")
    case True
    with h have "anode_accessCount n = ?c + 1"
      by (auto simp: ArcLfuPart_updateNodeFrequency_frame)
    with True show ?thesis
      by (simp add: freqMap_at_def ArcLfuPart_updateNodeFrequency_freqMap)
  next
    case False
    with h have h0: "umap_find (alfu_mainCache s) k' = Some n"
      by (simp add: ArcLfuPart_updateNodeFrequency_frame)
    from A[OF h0] have m: "k' \<in> set (freqMap_at (alfu_freqMap s) (anode_accessCount n))" .
    show ?thesis
    proof (cases "anode_accessCount n = ?c + 1")
      case True
      with m show ?thesis
        by (simp add: freqMap_at_def ArcLfuPart_updateNodeFrequency_freqMap)
    next
      case n1: False
      show ?thesis
      proof (cases "anode_accessCount n = ?c")
        case True
        with m False have "k' \<in> set ?old" by simp
        then have "?old \<noteq> []" by (metis list.set(1) empty_iff)
        with \<open>k' \<in> set ?old\<close> True n1 show ?thesis
          by (simp add: freqMap_at_def ArcLfuPart_updateNodeFrequency_freqMap)
      next
        case False
        with n1 m show ?thesis
          by (simp add: freqMap_at_def ArcLfuPart_updateNodeFrequency_freqMap)
      qed
    qed
  qed
  have b: "ks \<noteq> [] \<and> distinct ks
          \<and> (\<forall>j \<in> set ks. \<exists>n. umap_find (alfu_mainCache ?s') j = Some n
                                    \<and> anode_accessCount n = f)"
    if h: "umap_find (alfu_freqMap ?s') f = Some ks" for f ks
  proof (cases "f = ?c + 1")
    case True
    with h have ks: "ks = freqMap_at (alfu_freqMap s) (?c + 1) @ [k]"
      by (simp add: ArcLfuPart_updateNodeFrequency_freqMap)
    have "\<exists>n. umap_find (alfu_mainCache ?s') j = Some n \<and> anode_accessCount n = f"
      if "j \<in> set ks" for j
    proof (cases "j = k")
      case True
      then show ?thesis using \<open>f = ?c + 1\<close>
        by (simp add: ArcLfuPart_updateNodeFrequency_frame)
    next
      case False
      with that ks have "j \<in> set (freqMap_at (alfu_freqMap s) (?c + 1))" by simp
      from B2'[OF this] False True show ?thesis
        by (simp add: ArcLfuPart_updateNodeFrequency_frame)
    qed
    with ks knew B1'[of "?c + 1"] show ?thesis by simp
  next
    case n1: False
    show ?thesis
    proof (cases "f = ?c")
      case True
      with h n1 have ks: "ks = ?old" and kne: "?old \<noteq> []"
        by (auto simp: ArcLfuPart_updateNodeFrequency_freqMap split: if_splits)
      have "\<exists>n. umap_find (alfu_mainCache ?s') j = Some n \<and> anode_accessCount n = f"
        if "j \<in> set ks" for j
      proof -
        from that ks have jk: "j \<noteq> k" and "j \<in> set (freqMap_at (alfu_freqMap s) ?c)" by auto
        from B2'[OF this(2)] jk True show ?thesis
          by (simp add: ArcLfuPart_updateNodeFrequency_frame)
      qed
      with ks kne B1'[of ?c] show ?thesis by (simp add: distinct_removeAll)
    next
      case False
      with h n1 have h0: "umap_find (alfu_freqMap s) f = Some ks"
        by (simp add: ArcLfuPart_updateNodeFrequency_freqMap)
      have "\<exists>n. umap_find (alfu_mainCache ?s') j = Some n \<and> anode_accessCount n = f"
        if "j \<in> set ks" for j
      proof -
        from B2[OF h0 that] obtain n where n: "umap_find (alfu_mainCache s) j = Some n"
          "anode_accessCount n = f" by blast
        with k c False have "j \<noteq> k" by auto
        with n show ?thesis by (simp add: ArcLfuPart_updateNodeFrequency_frame)
      qed
      with B1[OF h0] show ?thesis by simp
    qed
  qed
  have cc: "umap_find (alfu_freqMap ?s') (alfu_minFreq ?s') \<noteq> None"
    using C ne
    by (auto simp: ArcLfuPart_updateNodeFrequency_freqMap ArcLfuPart_updateNodeFrequency_frame)
  show ?thesis
    unfolding ArcLfuPart_inv_iff using a b cc by blast
qed

lemma ArcLfuPart_size_updateNodeFrequency:
  "umap_find (alfu_mainCache s) k \<noteq> None \<Longrightarrow>
     umap_size (alfu_mainCache (ArcLfuPart_updateNodeFrequency k node s)) =
       umap_size (alfu_mainCache s)"
  by (simp add: ArcLfuPart_updateNodeFrequency_frame umap_size_assign)

subsection \<open>evictLeastFrequent\<close>

lemma fold_min_mem: "fold min xs (a :: nat) \<in> insert a (set xs)"
proof (induction xs arbitrary: a)
  case Nil
  then show ?case by simp
next
  case (Cons x xs)
  have "min x a = x \<or> min x a = a" by (auto simp: min_def)
  with Cons[of "min x a"] show ?case by auto
qed

lemma freqMap_begin_mem:
  assumes "m \<noteq> []"
  shows "umap_find m (freqMap_begin m) \<noteq> None"
proof -
  from assms have "dom (umap_find m) \<noteq> {}" using umap_dom_empty_iff[of m] by blast
  then have ne: "umap_keys m \<noteq> []" by (metis set_umap_keys set_empty)
  then have "hd (umap_keys m) \<in> set (umap_keys m)" by simp
  with fold_min_mem[of "umap_keys m" "hd (umap_keys m)"]
  have "freqMap_begin m \<in> set (umap_keys m)" by (auto simp: freqMap_begin_def)
  then show ?thesis by (auto simp: set_umap_keys)
qed

lemma ArcLfuPart_evict_frame:
  "alfu_capacity (ArcLfuPart_evictLeastFrequent s) = alfu_capacity s"
  "alfu_ghostCapacity (ArcLfuPart_evictLeastFrequent s) = alfu_ghostCapacity s"
  "alfu_transformThreshold (ArcLfuPart_evictLeastFrequent s) = alfu_transformThreshold s"
  by (simp_all add: ArcLfuPart_evictLeastFrequent_def ArcLfuPart_addToGhost_def
      ArcLfuPart_removeOldestGhost_def Let_def split: list.splits)

text \<open>On a consistent part that holds an entry, the first node of the list of
  \<^verbatim>\<open>minFreq_\<close> leaves the main index and its list.\<close>

lemma ArcLfuPart_evict_eq:
  assumes inv: "ArcLfuPart_inv s" and ne: "alfu_mainCache s \<noteq> []"
  shows "\<exists>leastNode rest.
     umap_find (alfu_freqMap s) (alfu_minFreq s) = Some (leastNode # rest)
     \<and> alfu_mainCache (ArcLfuPart_evictLeastFrequent s) = umap_erase leastNode (alfu_mainCache s)
     \<and> alfu_freqMap (ArcLfuPart_evictLeastFrequent s) =
         (if rest = [] then umap_erase (alfu_minFreq s) (alfu_freqMap s)
          else umap_assign (alfu_minFreq s) rest (alfu_freqMap s))
     \<and> alfu_minFreq (ArcLfuPart_evictLeastFrequent s) =
         (if rest = [] \<and> umap_erase (alfu_minFreq s) (alfu_freqMap s) \<noteq> []
          then freqMap_begin (umap_erase (alfu_minFreq s) (alfu_freqMap s))
          else alfu_minFreq s)"
proof -
  from inv ne obtain ks where ks: "umap_find (alfu_freqMap s) (alfu_minFreq s) = Some ks"
    unfolding ArcLfuPart_inv_iff by auto
  with inv have "ks \<noteq> []" unfolding ArcLfuPart_inv_iff by blast
  then obtain l rest where l: "ks = l # rest" by (cases ks) auto
  from ks have fne: "alfu_freqMap s \<noteq> []" by auto
  have at: "freqMap_at (alfu_freqMap s) (alfu_minFreq s) = l # rest"
    using ks l by (simp add: freqMap_at_def)
  show ?thesis
    by (rule exI[of _ l], rule exI[of _ rest])
       (simp add: ks l ArcLfuPart_evictLeastFrequent_def fne at Let_def ArcLfuPart_addToGhost_def
          ArcLfuPart_removeOldestGhost_def split: list.splits)
qed

lemma ArcLfuPart_evict_Nil:
  assumes "ArcLfuPart_inv s" "alfu_mainCache s = []"
  shows "ArcLfuPart_evictLeastFrequent s = s"
  using ArcLfuPart_inv_empty[OF assms] by (simp add: ArcLfuPart_evictLeastFrequent_def)

lemma ArcLfuPart_inv_evict:
  assumes inv: "ArcLfuPart_inv s"
  shows "ArcLfuPart_inv (ArcLfuPart_evictLeastFrequent s)"
proof (cases "alfu_mainCache s = []")
  case True
  with inv show ?thesis by (simp add: ArcLfuPart_evict_Nil)
next
  case ne: False
  let ?s' = "ArcLfuPart_evictLeastFrequent s"
  let ?m = "alfu_minFreq s"
  from ArcLfuPart_evict_eq[OF inv ne] obtain l rest where
    ks: "umap_find (alfu_freqMap s) ?m = Some (l # rest)"
    and mc: "alfu_mainCache ?s' = umap_erase l (alfu_mainCache s)"
    and fm: "alfu_freqMap ?s' =
         (if rest = [] then umap_erase ?m (alfu_freqMap s)
          else umap_assign ?m rest (alfu_freqMap s))"
    and mf: "alfu_minFreq ?s' =
         (if rest = [] \<and> umap_erase ?m (alfu_freqMap s) \<noteq> []
          then freqMap_begin (umap_erase ?m (alfu_freqMap s)) else ?m)"
    by blast
  from inv have A: "\<And>j n. umap_find (alfu_mainCache s) j = Some n \<Longrightarrow>
        j \<in> set (freqMap_at (alfu_freqMap s) (anode_accessCount n))"
    and B1: "\<And>f ks. umap_find (alfu_freqMap s) f = Some ks \<Longrightarrow> ks \<noteq> [] \<and> distinct ks"
    and B2: "\<And>f ks j. umap_find (alfu_freqMap s) f = Some ks \<Longrightarrow> j \<in> set ks \<Longrightarrow>
        \<exists>n. umap_find (alfu_mainCache s) j = Some n \<and> anode_accessCount n = f"
    unfolding ArcLfuPart_inv_iff by blast+
  have find': "umap_find (alfu_freqMap ?s') g =
      (if g = ?m then (if rest = [] then None else Some rest) else umap_find (alfu_freqMap s) g)"
    for g by (simp add: fm)
  from B1[OF ks] have lrest: "l \<notin> set rest" and drest: "distinct rest" by auto
  from B2[OF ks, of l] obtain nl where nl: "umap_find (alfu_mainCache s) l = Some nl"
    "anode_accessCount nl = ?m" by auto
  have a: "j \<in> set (freqMap_at (alfu_freqMap ?s') (anode_accessCount n))"
    if h: "umap_find (alfu_mainCache ?s') j = Some n" for j n
  proof -
    from h have jl: "j \<noteq> l" and h0: "umap_find (alfu_mainCache s) j = Some n"
      by (auto simp: mc split: if_splits)
    from A[OF h0] have m: "j \<in> set (freqMap_at (alfu_freqMap s) (anode_accessCount n))" .
    show ?thesis
    proof (cases "anode_accessCount n = ?m")
      case True
      with m ks jl have "j \<in> set rest" by (simp add: freqMap_at_def)
      moreover then have "rest \<noteq> []" by auto
      ultimately show ?thesis using True by (simp add: freqMap_at_def find')
    next
      case False
      with m show ?thesis by (simp add: freqMap_at_def find')
    qed
  qed
  have b: "ks \<noteq> [] \<and> distinct ks
          \<and> (\<forall>j \<in> set ks. \<exists>n. umap_find (alfu_mainCache ?s') j = Some n
                                    \<and> anode_accessCount n = f)"
    if h: "umap_find (alfu_freqMap ?s') f = Some ks" for f ks
  proof (cases "f = ?m")
    case True
    with h have r: "ks = rest" "rest \<noteq> []" by (auto simp: find' split: if_splits)
    have "\<exists>n. umap_find (alfu_mainCache ?s') j = Some n \<and> anode_accessCount n = f"
      if "j \<in> set ks" for j
    proof -
      from that r lrest have jl: "j \<noteq> l" and "j \<in> set (l # rest)" by auto
      from B2[OF ks this(2)] jl True show ?thesis by (simp add: mc)
    qed
    with r drest show ?thesis by simp
  next
    case False
    with h have h0: "umap_find (alfu_freqMap s) f = Some ks" by (simp add: find')
    have "\<exists>n. umap_find (alfu_mainCache ?s') j = Some n \<and> anode_accessCount n = f"
      if "j \<in> set ks" for j
    proof -
      from B2[OF h0 that] obtain n where n: "umap_find (alfu_mainCache s) j = Some n"
        "anode_accessCount n = f" by blast
      with nl False have "j \<noteq> l" by auto
      with n show ?thesis by (simp add: mc)
    qed
    with B1[OF h0] show ?thesis by simp
  qed
  have c: "alfu_mainCache ?s' = [] \<or> umap_find (alfu_freqMap ?s') (alfu_minFreq ?s') \<noteq> None"
  proof (cases "rest = []")
    case False
    then show ?thesis by (simp add: find' mf)
  next
    case True
    show ?thesis
    proof (cases "umap_erase ?m (alfu_freqMap s) = []")
      case False
      from freqMap_begin_mem[OF False] True False show ?thesis by (simp add: fm mf)
    next
      case e: True
      have "umap_find (alfu_mainCache ?s') j = None" for j
      proof (cases "umap_find (alfu_mainCache ?s') j")
        case (Some n)
        from a[OF Some] True e show ?thesis by (simp add: fm freqMap_at_def)
      qed simp
      then show ?thesis by (simp add: umap_Nil_iff)
    qed
  qed
  show ?thesis unfolding ArcLfuPart_inv_iff using a b c by blast
qed

lemma ArcLfuPart_size_evict:
  assumes inv: "ArcLfuPart_inv s" and ne: "alfu_mainCache s \<noteq> []"
  shows "Suc (umap_size (alfu_mainCache (ArcLfuPart_evictLeastFrequent s))) =
           umap_size (alfu_mainCache s)"
proof -
  from ArcLfuPart_evict_eq[OF inv ne] obtain l rest where
    ks: "umap_find (alfu_freqMap s) (alfu_minFreq s) = Some (l # rest)"
    and mc: "alfu_mainCache (ArcLfuPart_evictLeastFrequent s) = umap_erase l (alfu_mainCache s)"
    by blast
  from inv ks have "umap_find (alfu_mainCache s) l \<noteq> None"
    unfolding ArcLfuPart_inv_iff by fastforce
  moreover have "0 < umap_size (alfu_mainCache s)"
    using ne by (cases "umap_size (alfu_mainCache s)") auto
  ultimately show ?thesis
    by (simp add: mc umap_size_erase del: umap_size_0_iff)
qed

lemma ArcLfuPart_evict_dom:
  assumes inv: "ArcLfuPart_inv s"
  shows "umap_find (alfu_mainCache s) k = None \<Longrightarrow>
           umap_find (alfu_mainCache (ArcLfuPart_evictLeastFrequent s)) k = None"
proof (cases "alfu_mainCache s = []")
  case True
  assume "umap_find (alfu_mainCache s) k = None"
  with True inv show ?thesis by (simp add: ArcLfuPart_evict_Nil)
next
  case False
  assume n: "umap_find (alfu_mainCache s) k = None"
  from ArcLfuPart_evict_eq[OF inv False] obtain l where
    "alfu_mainCache (ArcLfuPart_evictLeastFrequent s) = umap_erase l (alfu_mainCache s)"
    by blast
  with n show ?thesis by simp
qed

subsection \<open>put, get and the capacity operations\<close>

lemma freqMap_at_assign:
  "freqMap_at (umap_assign f ks m) g = (if g = f then ks else freqMap_at m g)"
  by (simp add: freqMap_at_def)

lemma freqMap_at_erase:
  "freqMap_at (umap_erase f m) g = (if g = f then [] else freqMap_at m g)"
  by (simp add: freqMap_at_def)

lemma ArcLfuPart_inv_addNewNode:
  assumes inv: "ArcLfuPart_inv s" and k: "umap_find (alfu_mainCache s) k = None"
  shows "ArcLfuPart_inv (ArcLfuPart_addNewNode k v s)"
proof -
  define s1 where "s1 = (if umap_size (alfu_mainCache s) \<ge> alfu_capacity s
                then ArcLfuPart_evictLeastFrequent s else s)"
  let ?s' = "ArcLfuPart_addNewNode k v s"
  have inv1: "ArcLfuPart_inv s1" using inv by (simp add: s1_def ArcLfuPart_inv_evict)
  have k1: "umap_find (alfu_mainCache s1) k = None"
    using k ArcLfuPart_evict_dom[OF inv] by (simp add: s1_def)
  have mc: "alfu_mainCache ?s' =
      umap_assign k \<lparr>anode_value = v, anode_accessCount = 1\<rparr> (alfu_mainCache s1)"
    and fm: "alfu_freqMap ?s' =
      umap_assign 1 (freqMap_at (alfu_freqMap s1) 1 @ [k]) (alfu_freqMap s1)"
    and mf: "alfu_minFreq ?s' = 1"
    by (simp_all add: ArcLfuPart_addNewNode_def Let_def s1_def[symmetric])
  from inv1 have A: "\<And>j n. umap_find (alfu_mainCache s1) j = Some n \<Longrightarrow>
        j \<in> set (freqMap_at (alfu_freqMap s1) (anode_accessCount n))"
    and B1: "\<And>f ks. umap_find (alfu_freqMap s1) f = Some ks \<Longrightarrow> ks \<noteq> [] \<and> distinct ks"
    and B2: "\<And>f ks j. umap_find (alfu_freqMap s1) f = Some ks \<Longrightarrow> j \<in> set ks \<Longrightarrow>
        \<exists>n. umap_find (alfu_mainCache s1) j = Some n \<and> anode_accessCount n = f"
    unfolding ArcLfuPart_inv_iff by blast+
  have B2': "\<And>f j. j \<in> set (freqMap_at (alfu_freqMap s1) f) \<Longrightarrow>
        \<exists>n. umap_find (alfu_mainCache s1) j = Some n \<and> anode_accessCount n = f"
  proof -
    fix f j assume "j \<in> set (freqMap_at (alfu_freqMap s1) f)"
    then obtain ks where "umap_find (alfu_freqMap s1) f = Some ks" "j \<in> set ks"
      by (cases "umap_find (alfu_freqMap s1) f") (auto simp: freqMap_at_def)
    from B2[OF this] show "\<exists>n. umap_find (alfu_mainCache s1) j = Some n \<and> anode_accessCount n = f" .
  qed
  have B1': "\<And>f. distinct (freqMap_at (alfu_freqMap s1) f)"
    using B1 by (auto simp: freqMap_at_def split: option.splits)
  have knew: "k \<notin> set (freqMap_at (alfu_freqMap s1) 1)"
    using B2'[of k 1] k1 by auto
  have a: "j \<in> set (freqMap_at (alfu_freqMap ?s') (anode_accessCount n))"
    if h: "umap_find (alfu_mainCache ?s') j = Some n" for j n
  proof (cases "j = k")
    case True
    with h have "anode_accessCount n = 1" by (auto simp: mc)
    with True show ?thesis by (simp add: fm freqMap_at_assign)
  next
    case False
    with h have "umap_find (alfu_mainCache s1) j = Some n" by (simp add: mc)
    from A[OF this] show ?thesis by (auto simp: fm freqMap_at_assign)
  qed
  have b: "ks \<noteq> [] \<and> distinct ks
          \<and> (\<forall>j \<in> set ks. \<exists>n. umap_find (alfu_mainCache ?s') j = Some n
                                    \<and> anode_accessCount n = f)"
    if h: "umap_find (alfu_freqMap ?s') f = Some ks" for f ks
  proof (cases "f = 1")
    case True
    with h have ks: "ks = freqMap_at (alfu_freqMap s1) 1 @ [k]" by (simp add: fm)
    have "\<exists>n. umap_find (alfu_mainCache ?s') j = Some n \<and> anode_accessCount n = f"
      if "j \<in> set ks" for j
    proof (cases "j = k")
      case True
      then show ?thesis using \<open>f = 1\<close> by (simp add: mc)
    next
      case False
      with that ks have "j \<in> set (freqMap_at (alfu_freqMap s1) 1)" by simp
      from B2'[OF this] False True show ?thesis by (simp add: mc)
    qed
    with ks knew B1'[of 1] show ?thesis by simp
  next
    case False
    with h have h0: "umap_find (alfu_freqMap s1) f = Some ks" by (simp add: fm)
    have "\<exists>n. umap_find (alfu_mainCache ?s') j = Some n \<and> anode_accessCount n = f"
      if "j \<in> set ks" for j
    proof -
      from B2[OF h0 that] obtain n where n: "umap_find (alfu_mainCache s1) j = Some n"
        "anode_accessCount n = f" by blast
      with k1 have "j \<noteq> k" by auto
      with n show ?thesis by (simp add: mc)
    qed
    with B1[OF h0] show ?thesis by simp
  qed
  have c: "umap_find (alfu_freqMap ?s') (alfu_minFreq ?s') \<noteq> None"
    by (simp add: fm mf)
  show ?thesis unfolding ArcLfuPart_inv_iff using a b c by blast
qed

lemma ArcLfuPart_put_frame:
  "alfu_capacity (fst (ArcLfuPart_put s k v)) = alfu_capacity s"
  "alfu_ghostCapacity (fst (ArcLfuPart_put s k v)) = alfu_ghostCapacity s"
  "alfu_transformThreshold (fst (ArcLfuPart_put s k v)) = alfu_transformThreshold s"
  by (simp_all add: ArcLfuPart_put_def ArcLfuPart_updateExistingNode_def ArcLfuPart_addNewNode_def
      ArcLfuPart_updateNodeFrequency_frame ArcLfuPart_evict_frame Let_def split: option.splits)

lemma ArcLfuPart_inv_put:
  assumes "ArcLfuPart_inv s"
  shows "ArcLfuPart_inv (fst (ArcLfuPart_put s k v))"
proof (cases "umap_find (alfu_mainCache s) k")
  case None
  with assms show ?thesis by (simp add: ArcLfuPart_put_def ArcLfuPart_inv_addNewNode)
next
  case (Some node)
  have "ArcLfuPart_inv (ArcLfuPart_updateNodeFrequency k (node\<lparr>anode_value := v\<rparr>) s)"
    by (rule ArcLfuPart_inv_updateNodeFrequency[OF assms Some]) simp
  with Some assms show ?thesis
    by (simp add: ArcLfuPart_put_def ArcLfuPart_updateExistingNode_def)
qed

lemma ArcLfuPart_size_put:
  assumes inv: "ArcLfuPart_inv s"
    and le: "umap_size (alfu_mainCache s) \<le> alfu_capacity s"
  shows "umap_size (alfu_mainCache (fst (ArcLfuPart_put s k v))) \<le> alfu_capacity s"
proof (cases "alfu_capacity s = 0")
  case True
  then show ?thesis using le by (simp add: ArcLfuPart_put_def)
next
  case False
  show ?thesis
  proof (cases "umap_find (alfu_mainCache s) k")
    case (Some node)
    then show ?thesis using False le
      by (simp add: ArcLfuPart_put_def ArcLfuPart_updateExistingNode_def
          ArcLfuPart_updateNodeFrequency_frame umap_size_assign)
  next
    case None
    show ?thesis
    proof (cases "umap_size (alfu_mainCache s) \<ge> alfu_capacity s")
      case True
      with False have ne: "alfu_mainCache s \<noteq> []" by (cases "alfu_mainCache s") auto
      from ArcLfuPart_size_evict[OF inv ne] le
      have "umap_size (alfu_mainCache (ArcLfuPart_evictLeastFrequent s)) < alfu_capacity s"
        by linarith
      then show ?thesis using None False True
        by (simp add: ArcLfuPart_put_def ArcLfuPart_addNewNode_def Let_def umap_size_assign)
    next
      case False2: False
      then show ?thesis using None False
        by (simp add: ArcLfuPart_put_def ArcLfuPart_addNewNode_def Let_def umap_size_assign)
    qed
  qed
qed

text \<open>A put on a part of positive capacity leaves the key in the main index, with the
  value put.\<close>

lemma ArcLfuPart_put_stores:
  assumes "0 < alfu_capacity s"
  shows "map_option anode_value (umap_find (alfu_mainCache (fst (ArcLfuPart_put s k v))) k) = Some v"
  using assms
  by (simp add: ArcLfuPart_put_def ArcLfuPart_updateExistingNode_def ArcLfuPart_addNewNode_def
      ArcLfuPart_updateNodeFrequency_frame Let_def split: option.splits)

lemma ArcLfuPart_get_frame:
  "alfu_capacity (fst (ArcLfuPart_get s k)) = alfu_capacity s"
  "alfu_ghostCapacity (fst (ArcLfuPart_get s k)) = alfu_ghostCapacity s"
  "alfu_transformThreshold (fst (ArcLfuPart_get s k)) = alfu_transformThreshold s"
  "alfu_ghostCache (fst (ArcLfuPart_get s k)) = alfu_ghostCache s"
  "alfu_ghostList (fst (ArcLfuPart_get s k)) = alfu_ghostList s"
  "umap_size (alfu_mainCache (fst (ArcLfuPart_get s k))) = umap_size (alfu_mainCache s)"
  by (auto simp: ArcLfuPart_get_def ArcLfuPart_updateNodeFrequency_frame umap_size_assign
      split: option.splits)

lemma ArcLfuPart_inv_get:
  assumes "ArcLfuPart_inv s"
  shows "ArcLfuPart_inv (fst (ArcLfuPart_get s k))"
proof (cases "umap_find (alfu_mainCache s) k")
  case None
  with assms show ?thesis by (simp add: ArcLfuPart_get_def)
next
  case (Some node)
  have "ArcLfuPart_inv (ArcLfuPart_updateNodeFrequency k node s)"
    by (rule ArcLfuPart_inv_updateNodeFrequency[OF assms Some]) simp
  with Some show ?thesis by (simp add: ArcLfuPart_get_def)
qed

lemma ArcLfuPart_checkGhost_frame:
  "alfu_capacity (fst (ArcLfuPart_checkGhost s k)) = alfu_capacity s"
  "alfu_ghostCapacity (fst (ArcLfuPart_checkGhost s k)) = alfu_ghostCapacity s"
  "alfu_transformThreshold (fst (ArcLfuPart_checkGhost s k)) = alfu_transformThreshold s"
  "alfu_mainCache (fst (ArcLfuPart_checkGhost s k)) = alfu_mainCache s"
  "alfu_freqMap (fst (ArcLfuPart_checkGhost s k)) = alfu_freqMap s"
  "alfu_minFreq (fst (ArcLfuPart_checkGhost s k)) = alfu_minFreq s"
  "snd (ArcLfuPart_checkGhost s k) = (umap_find (alfu_ghostCache s) k \<noteq> None)"
  "alfu_ghostCache (fst (ArcLfuPart_checkGhost s k)) =
     (if umap_find (alfu_ghostCache s) k \<noteq> None then umap_erase k (alfu_ghostCache s)
      else alfu_ghostCache s)"
  "alfu_ghostList (fst (ArcLfuPart_checkGhost s k)) =
     (if umap_find (alfu_ghostCache s) k \<noteq> None then remove1_last k (alfu_ghostList s)
      else alfu_ghostList s)"
  by (simp_all add: ArcLfuPart_checkGhost_def split: option.splits)

lemma ArcLfuPart_inv_checkGhost:
  "ArcLfuPart_inv (fst (ArcLfuPart_checkGhost s k)) = ArcLfuPart_inv s"
  by (simp add: ArcLfuPart_inv_iff ArcLfuPart_checkGhost_frame)

lemma ArcLfuPart_inv_capacity:
  "ArcLfuPart_inv (s\<lparr>alfu_capacity := c\<rparr>) = ArcLfuPart_inv s"
  by (simp add: ArcLfuPart_inv_iff)

lemma ArcLfuPart_inv_increase:
  "ArcLfuPart_inv (ArcLfuPart_increaseCapacity s) = ArcLfuPart_inv s"
  by (simp add: ArcLfuPart_inv_capacity ArcLfuPart_increaseCapacity_def)

lemma ArcLfuPart_decrease:
  assumes inv: "ArcLfuPart_inv s" and le: "umap_size (alfu_mainCache s) \<le> alfu_capacity s"
  shows "ArcLfuPart_inv (fst (ArcLfuPart_decreaseCapacity s))"
    and "snd (ArcLfuPart_decreaseCapacity s) = (0 < alfu_capacity s)"
    and "alfu_capacity s = 0 \<Longrightarrow> fst (ArcLfuPart_decreaseCapacity s) = s"
    and "0 < alfu_capacity s \<Longrightarrow>
           alfu_capacity (fst (ArcLfuPart_decreaseCapacity s)) = alfu_capacity s - 1"
    and "0 < alfu_capacity s \<Longrightarrow>
           umap_size (alfu_mainCache (fst (ArcLfuPart_decreaseCapacity s))) =
             (if umap_size (alfu_mainCache s) = alfu_capacity s
              then umap_size (alfu_mainCache s) - 1 else umap_size (alfu_mainCache s))"
    and "umap_size (alfu_mainCache (fst (ArcLfuPart_decreaseCapacity s)))
           \<le> alfu_capacity (fst (ArcLfuPart_decreaseCapacity s))"
proof -
  show "ArcLfuPart_inv (fst (ArcLfuPart_decreaseCapacity s))"
    using inv by (simp add: ArcLfuPart_decreaseCapacity_def Let_def ArcLfuPart_inv_capacity
        ArcLfuPart_inv_evict)
  show "snd (ArcLfuPart_decreaseCapacity s) = (0 < alfu_capacity s)"
    by (simp add: ArcLfuPart_decreaseCapacity_def Let_def)
  show "alfu_capacity s = 0 \<Longrightarrow> fst (ArcLfuPart_decreaseCapacity s) = s"
    by (simp add: ArcLfuPart_decreaseCapacity_def)
  show "0 < alfu_capacity s \<Longrightarrow>
           alfu_capacity (fst (ArcLfuPart_decreaseCapacity s)) = alfu_capacity s - 1"
    by (simp add: ArcLfuPart_decreaseCapacity_def Let_def ArcLfuPart_evict_frame)
  have ev: "umap_size (alfu_mainCache s) = alfu_capacity s \<Longrightarrow> 0 < alfu_capacity s \<Longrightarrow>
      umap_size (alfu_mainCache (ArcLfuPart_evictLeastFrequent s)) = umap_size (alfu_mainCache s) - 1"
  proof -
    assume a: "umap_size (alfu_mainCache s) = alfu_capacity s" "0 < alfu_capacity s"
    then have "alfu_mainCache s \<noteq> []" by (cases "alfu_mainCache s") auto
    from ArcLfuPart_size_evict[OF inv this] show ?thesis by simp
  qed
  show "0 < alfu_capacity s \<Longrightarrow>
           umap_size (alfu_mainCache (fst (ArcLfuPart_decreaseCapacity s))) =
             (if umap_size (alfu_mainCache s) = alfu_capacity s
              then umap_size (alfu_mainCache s) - 1 else umap_size (alfu_mainCache s))"
    using ev by (simp add: ArcLfuPart_decreaseCapacity_def Let_def)
  show "umap_size (alfu_mainCache (fst (ArcLfuPart_decreaseCapacity s)))
           \<le> alfu_capacity (fst (ArcLfuPart_decreaseCapacity s))"
    using le ev
    by (cases "alfu_capacity s = 0")
       (auto simp: ArcLfuPart_decreaseCapacity_def Let_def ArcLfuPart_evict_frame)
qed

section \<open>KArcCache: the ghost step and the bound of each part\<close>

lemmas ArcLfuPart_defs =
  ArcLfuPart_init_def ArcLfuPart_updateNodeFrequency_def ArcLfuPart_removeOldestGhost_def
  ArcLfuPart_addToGhost_def ArcLfuPart_evictLeastFrequent_def ArcLfuPart_updateExistingNode_def
  ArcLfuPart_addNewNode_def ArcLfuPart_put_def ArcLfuPart_get_def ArcLfuPart_contain_def
  ArcLfuPart_checkGhost_def ArcLfuPart_increaseCapacity_def ArcLfuPart_decreaseCapacity_def
  freqMap_at_def freqMap_begin_def remove1_last_def

lemmas KArcCache_defs =
  KArcCache_init_def KArcCache_checkGhostCaches_def KArcCache_put_def KArcCache_get_def

lemma arc_example_ghost_eq:
  "arc_example_ghost =
     \<lparr>arc_capacity = 1, arc_transformThreshold = 2,
      arc_lruPart =
        \<lparr>alru_capacity = 1, alru_ghostCapacity = 1, alru_transformThreshold = 2,
         alru_mainCache = [(2, \<lparr>anode_value = ''b'', anode_accessCount = 1\<rparr>)],
         alru_ghostCache = [(1, ())], alru_mainList = [2], alru_ghostList = [1]\<rparr>,
      arc_lfuPart =
        \<lparr>alfu_capacity = 1, alfu_ghostCapacity = 1, alfu_transformThreshold = 2,
         alfu_minFreq = 1,
         alfu_mainCache = [(1, \<lparr>anode_value = ''a'', anode_accessCount = 1\<rparr>)],
         alfu_ghostCache = [], alfu_freqMap = [(1, [1])], alfu_ghostList = []\<rparr>\<rparr>"
  unfolding arc_example_ghost_def by code_simp

lemma arc_example_shift_eq:
  "arc_example_shift =
     \<lparr>arc_capacity = 1, arc_transformThreshold = 2,
      arc_lruPart =
        \<lparr>alru_capacity = 2, alru_ghostCapacity = 1, alru_transformThreshold = 2,
         alru_mainCache = [(2, \<lparr>anode_value = ''b'', anode_accessCount = 1\<rparr>),
                           (1, \<lparr>anode_value = ''c'', anode_accessCount = 1\<rparr>)],
         alru_ghostCache = [], alru_mainList = [1, 2], alru_ghostList = []\<rparr>,
      arc_lfuPart =
        \<lparr>alfu_capacity = 0, alfu_ghostCapacity = 1, alfu_transformThreshold = 2,
         alfu_minFreq = 0, alfu_mainCache = [], alfu_ghostCache = [], alfu_freqMap = [],
         alfu_ghostList = []\<rparr>\<rparr>"
  unfolding arc_example_shift_def by code_simp

lemma KArcCache_checkGhostCaches_frame:
  "arc_capacity (fst (KArcCache_checkGhostCaches s k)) = arc_capacity s"
  "arc_transformThreshold (fst (KArcCache_checkGhostCaches s k)) = arc_transformThreshold s"
  by (simp_all add: KArcCache_checkGhostCaches_def Let_def split: prod.splits)

text \<open>The three cases of \<^verbatim>\<open>checkGhostCaches\<close>.\<close>

lemma KArcCache_checkGhostCaches_lru:
  assumes "umap_find (alru_ghostCache (arc_lruPart s)) k \<noteq> None"
  shows "arc_lfuPart (fst (KArcCache_checkGhostCaches s k)) =
           fst (ArcLfuPart_decreaseCapacity (arc_lfuPart s))"
    and "arc_lruPart (fst (KArcCache_checkGhostCaches s k)) =
           (if snd (ArcLfuPart_decreaseCapacity (arc_lfuPart s))
            then ArcLruPart_increaseCapacity (fst (ArcLruPart_checkGhost (arc_lruPart s) k))
            else fst (ArcLruPart_checkGhost (arc_lruPart s) k))"
    and "snd (KArcCache_checkGhostCaches s k)"
  using assms
  by (simp_all add: KArcCache_checkGhostCaches_def ArcLruPart_checkGhost_def Let_def
      split: prod.splits option.splits)

lemma KArcCache_checkGhostCaches_lfu:
  assumes "umap_find (alru_ghostCache (arc_lruPart s)) k = None"
    and "umap_find (alfu_ghostCache (arc_lfuPart s)) k \<noteq> None"
  shows "arc_lruPart (fst (KArcCache_checkGhostCaches s k)) =
           fst (ArcLruPart_decreaseCapacity (arc_lruPart s))"
    and "arc_lfuPart (fst (KArcCache_checkGhostCaches s k)) =
           (if snd (ArcLruPart_decreaseCapacity (arc_lruPart s))
            then ArcLfuPart_increaseCapacity (fst (ArcLfuPart_checkGhost (arc_lfuPart s) k))
            else fst (ArcLfuPart_checkGhost (arc_lfuPart s) k))"
    and "snd (KArcCache_checkGhostCaches s k)"
  using assms
  by (simp_all add: KArcCache_checkGhostCaches_def ArcLruPart_checkGhost_def
      ArcLfuPart_checkGhost_def Let_def split: prod.splits option.splits)

lemma KArcCache_checkGhostCaches_none:
  assumes "umap_find (alru_ghostCache (arc_lruPart s)) k = None"
    and "umap_find (alfu_ghostCache (arc_lfuPart s)) k = None"
  shows "KArcCache_checkGhostCaches s k = (s, False)"
  using assms
  by (simp add: KArcCache_checkGhostCaches_def ArcLruPart_checkGhost_def
      ArcLfuPart_checkGhost_def Let_def split: prod.splits option.splits)

lemma ArcLruPart_increase_frame:
  "alru_capacity (ArcLruPart_increaseCapacity s) = alru_capacity s + 1"
  "alru_mainCache (ArcLruPart_increaseCapacity s) = alru_mainCache s"
  "alru_mainList (ArcLruPart_increaseCapacity s) = alru_mainList s"
  "alru_ghostCache (ArcLruPart_increaseCapacity s) = alru_ghostCache s"
  "alru_ghostList (ArcLruPart_increaseCapacity s) = alru_ghostList s"
  by (simp_all add: ArcLruPart_increaseCapacity_def)

lemma ArcLfuPart_increase_frame:
  "alfu_capacity (ArcLfuPart_increaseCapacity s) = alfu_capacity s + 1"
  "alfu_mainCache (ArcLfuPart_increaseCapacity s) = alfu_mainCache s"
  "alfu_freqMap (ArcLfuPart_increaseCapacity s) = alfu_freqMap s"
  "alfu_ghostCache (ArcLfuPart_increaseCapacity s) = alfu_ghostCache s"
  "alfu_ghostList (ArcLfuPart_increaseCapacity s) = alfu_ghostList s"
  by (simp_all add: ArcLfuPart_increaseCapacity_def)

lemma KArcCache_bounded_checkGhostCaches:
  assumes b: "KArcCache_bounded s"
  shows "KArcCache_bounded (fst (KArcCache_checkGhostCaches s k))"
proof -
  let ?s' = "fst (KArcCache_checkGhostCaches s k)"
  from b have il: "ArcLruPart_inv (arc_lruPart s)" and im: "ArcLfuPart_inv (arc_lfuPart s)"
    and ll: "umap_size (alru_mainCache (arc_lruPart s)) \<le> alru_capacity (arc_lruPart s)"
    and lm: "umap_size (alfu_mainCache (arc_lfuPart s)) \<le> alfu_capacity (arc_lfuPart s)"
    and sum: "alru_capacity (arc_lruPart s) + alfu_capacity (arc_lfuPart s) = 2 * arc_capacity s"
    by (simp_all add: KArcCache_bounded_def KArcCache_inv_def)
  note dm = ArcLfuPart_decrease[OF im lm]
  note dl = ArcLruPart_decrease[OF il ll]
  consider (lru) "umap_find (alru_ghostCache (arc_lruPart s)) k \<noteq> None"
    | (lfu) "umap_find (alru_ghostCache (arc_lruPart s)) k = None"
            "umap_find (alfu_ghostCache (arc_lfuPart s)) k \<noteq> None"
    | (none) "umap_find (alru_ghostCache (arc_lruPart s)) k = None"
            "umap_find (alfu_ghostCache (arc_lfuPart s)) k = None"
    by blast
  then show ?thesis
  proof cases
    case lru
    note e = KArcCache_checkGhostCaches_lru[OF lru]
    show ?thesis
    proof (cases "alfu_capacity (arc_lfuPart s) = 0")
      case True
      with dm(2) have nd: "\<not> snd (ArcLfuPart_decreaseCapacity (arc_lfuPart s))" by simp
      from dm(3)[OF True] have same: "fst (ArcLfuPart_decreaseCapacity (arc_lfuPart s)) = arc_lfuPart s" .
      show ?thesis
        unfolding KArcCache_bounded_def KArcCache_inv_def e(1) e(2) same
        using nd il im ll lm sum
        by (simp add: ArcLruPart_inv_checkGhost ArcLruPart_checkGhost_frame
            KArcCache_checkGhostCaches_frame)
    next
      case False
      then have pos: "0 < alfu_capacity (arc_lfuPart s)" by simp
      with dm(2) have d: "snd (ArcLfuPart_decreaseCapacity (arc_lfuPart s))" by simp
      show ?thesis
        unfolding KArcCache_bounded_def KArcCache_inv_def e(1) e(2)
        using d dm(1) dm(4)[OF pos] dm(6) il ll sum pos
        by (simp add: ArcLruPart_inv_increase ArcLruPart_inv_checkGhost ArcLruPart_checkGhost_frame
            ArcLruPart_increase_frame KArcCache_checkGhostCaches_frame)
    qed
  next
    case lfu
    note e = KArcCache_checkGhostCaches_lfu[OF lfu]
    show ?thesis
    proof (cases "alru_capacity (arc_lruPart s) = 0")
      case True
      with dl(2) have nd: "\<not> snd (ArcLruPart_decreaseCapacity (arc_lruPart s))" by simp
      from dl(3)[OF True] have same: "fst (ArcLruPart_decreaseCapacity (arc_lruPart s)) = arc_lruPart s" .
      show ?thesis
        unfolding KArcCache_bounded_def KArcCache_inv_def e(1) e(2) same
        using nd il im ll lm sum
        by (simp add: ArcLfuPart_inv_checkGhost ArcLfuPart_checkGhost_frame
            KArcCache_checkGhostCaches_frame)
    next
      case False
      then have pos: "0 < alru_capacity (arc_lruPart s)" by simp
      with dl(2) have d: "snd (ArcLruPart_decreaseCapacity (arc_lruPart s))" by simp
      show ?thesis
        unfolding KArcCache_bounded_def KArcCache_inv_def e(1) e(2)
        using d dl(1) dl(4)[OF pos] dl(6) im lm sum pos
        by (simp add: ArcLfuPart_inv_increase ArcLfuPart_inv_checkGhost ArcLfuPart_checkGhost_frame
            ArcLfuPart_increase_frame KArcCache_checkGhostCaches_frame)
    qed
  next
    case none
    with b show ?thesis by (simp add: KArcCache_checkGhostCaches_none)
  qed
qed

lemma KArcCache_put_eq:
  "KArcCache_put s k v =
     (let s1 = fst (KArcCache_checkGhostCaches s k);
          s2 = s1\<lparr>arc_lruPart := fst (ArcLruPart_put (arc_lruPart s1) k v)\<rparr>
      in if umap_find (alfu_mainCache (arc_lfuPart s1)) k \<noteq> None
         then s2\<lparr>arc_lfuPart := fst (ArcLfuPart_put (arc_lfuPart s1) k v)\<rparr> else s2)"
  by (simp add: KArcCache_put_def ArcLfuPart_contain_def Let_def split: prod.splits)

lemma KArcCache_get_eq:
  "KArcCache_get s k =
     (let s1 = fst (KArcCache_checkGhostCaches s k);
          s2 = s1\<lparr>arc_lruPart := fst (ArcLruPart_get (arc_lruPart s1) k)\<rparr>
      in case umap_find (alru_mainCache (arc_lruPart s1)) k of
           Some node \<Rightarrow>
             ((if anode_accessCount node + 1 \<ge> alru_transformThreshold (arc_lruPart s1)
               then s2\<lparr>arc_lfuPart := fst (ArcLfuPart_put (arc_lfuPart s1) k (anode_value node))\<rparr>
               else s2), Some (anode_value node))
         | None \<Rightarrow> (s2\<lparr>arc_lfuPart := fst (ArcLfuPart_get (arc_lfuPart s1) k)\<rparr>,
                     snd (ArcLfuPart_get (arc_lfuPart s1) k)))"
proof -
  obtain s1 g where cg: "KArcCache_checkGhostCaches s k = (s1, g)"
    by (cases "KArcCache_checkGhostCaches s k")
  show ?thesis
  proof (cases "umap_find (alru_mainCache (arc_lruPart s1)) k")
    case None
    then show ?thesis
      by (simp add: KArcCache_get_def cg ArcLruPart_get_def Let_def split: prod.splits)
  next
    case (Some node)
    then show ?thesis
      by (simp add: KArcCache_get_def cg ArcLruPart_get_def ArcLruPart_updateNodeAccess_def
          ArcLruPart_moveToFront_def ArcLruPart_addToFront_def Let_def)
  qed
qed

lemma KArcCache_bounded_put:
  assumes "KArcCache_bounded s"
  shows "KArcCache_bounded (KArcCache_put s k v)"
proof -
  define s1 where "s1 = fst (KArcCache_checkGhostCaches s k)"
  have b: "KArcCache_bounded s1"
    unfolding s1_def by (rule KArcCache_bounded_checkGhostCaches[OF assms])
  then have il: "ArcLruPart_inv (arc_lruPart s1)" and im: "ArcLfuPart_inv (arc_lfuPart s1)"
    and ll: "umap_size (alru_mainCache (arc_lruPart s1)) \<le> alru_capacity (arc_lruPart s1)"
    and lm: "umap_size (alfu_mainCache (arc_lfuPart s1)) \<le> alfu_capacity (arc_lfuPart s1)"
    and sum: "alru_capacity (arc_lruPart s1) + alfu_capacity (arc_lfuPart s1) = 2 * arc_capacity s1"
    by (simp_all add: KArcCache_bounded_def KArcCache_inv_def)
  show ?thesis
    unfolding KArcCache_put_eq s1_def[symmetric] Let_def KArcCache_bounded_def KArcCache_inv_def
    using ArcLruPart_inv_put[OF il] ArcLruPart_size_put[OF il ll]
      ArcLfuPart_inv_put[OF im] ArcLfuPart_size_put[OF im lm] im lm sum
    by (simp add: ArcLruPart_put_frame ArcLfuPart_put_frame)
qed

lemma KArcCache_bounded_get:
  assumes "KArcCache_bounded s"
  shows "KArcCache_bounded (fst (KArcCache_get s k))"
proof -
  define s1 where "s1 = fst (KArcCache_checkGhostCaches s k)"
  have b: "KArcCache_bounded s1"
    unfolding s1_def by (rule KArcCache_bounded_checkGhostCaches[OF assms])
  then have il: "ArcLruPart_inv (arc_lruPart s1)" and im: "ArcLfuPart_inv (arc_lfuPart s1)"
    and ll: "umap_size (alru_mainCache (arc_lruPart s1)) \<le> alru_capacity (arc_lruPart s1)"
    and lm: "umap_size (alfu_mainCache (arc_lfuPart s1)) \<le> alfu_capacity (arc_lfuPart s1)"
    and sum: "alru_capacity (arc_lruPart s1) + alfu_capacity (arc_lfuPart s1) = 2 * arc_capacity s1"
    by (simp_all add: KArcCache_bounded_def KArcCache_inv_def)
  show ?thesis
    unfolding KArcCache_get_eq s1_def[symmetric] Let_def KArcCache_bounded_def KArcCache_inv_def
    using ArcLruPart_inv_get[OF il] ArcLfuPart_inv_get[OF im]
      ArcLfuPart_inv_put[OF im] ArcLfuPart_size_put[OF im lm] im ll lm sum
    by (simp add: ArcLruPart_get_frame ArcLfuPart_get_frame ArcLfuPart_put_frame
        split: option.splits)
qed

lemma KArcCache_bounded_init: "KArcCache_bounded (KArcCache_init c t)"
  by (simp add: KArcCache_bounded_def KArcCache_inv_def KArcCache_init_def ArcLruPart_inv_init
      ArcLfuPart_inv_init)
     (simp add: ArcLruPart_init_def ArcLfuPart_init_def)

lemma KArcCache_bounded_run:
  "KArcCache_bounded s \<Longrightarrow> KArcCache_bounded (KArcCache_run s ops)"
proof (induction ops arbitrary: s)
  case Nil
  then show ?case by simp
next
  case (Cons op ops)
  then show ?case
    by (cases op) (simp_all add: KArcCache_bounded_put KArcCache_bounded_get)
qed

lemma KArcCache_run_capacity:
  "arc_capacity (KArcCache_run s ops) = arc_capacity s"
proof (induction ops arbitrary: s)
  case Nil
  then show ?case by simp
next
  case (Cons op ops)
  have p: "arc_capacity (KArcCache_put s k v) = arc_capacity s" for k v
    by (simp add: KArcCache_put_eq Let_def KArcCache_checkGhostCaches_frame)
  have g: "arc_capacity (fst (KArcCache_get s k)) = arc_capacity s" for k
    by (simp add: KArcCache_get_eq Let_def KArcCache_checkGhostCaches_frame split: option.splits)
  from Cons show ?case by (cases op) (simp_all add: p g)
qed

section \<open>KArcCache: capacity moves between the parts on a ghost hit\<close>

lemma KArcCache_put_capacities:
  "alru_capacity (arc_lruPart (KArcCache_put s k v)) =
     alru_capacity (arc_lruPart (fst (KArcCache_checkGhostCaches s k)))"
  "alfu_capacity (arc_lfuPart (KArcCache_put s k v)) =
     alfu_capacity (arc_lfuPart (fst (KArcCache_checkGhostCaches s k)))"
  by (simp_all add: KArcCache_put_eq Let_def ArcLruPart_put_frame ArcLfuPart_put_frame)

lemma KArcCache_get_capacities:
  "alru_capacity (arc_lruPart (fst (KArcCache_get s k))) =
     alru_capacity (arc_lruPart (fst (KArcCache_checkGhostCaches s k)))"
  "alfu_capacity (arc_lfuPart (fst (KArcCache_get s k))) =
     alfu_capacity (arc_lfuPart (fst (KArcCache_checkGhostCaches s k)))"
  by (simp_all add: KArcCache_get_eq Let_def ArcLruPart_get_frame ArcLfuPart_get_frame
      ArcLfuPart_put_frame split: option.splits)

text \<open>
  C7. \<^verbatim>\<open>checkGhostCaches\<close> is the first statement of \<^verbatim>\<open>put\<close> and of \<^verbatim>\<open>get\<close>; the
  capacities of the two parts after either call are those it leaves. On a state whose
  parts are consistent and within their capacities (every state reached from the
  constructor is: \<open>KArcCache_bounded_init\<close>, \<open>KArcCache_bounded_run\<close>):
  \<^item> key in the ghost index of the LRU part: the key leaves that ghost index and ghost
    chain. If the capacity of the LFU part is positive, the LFU part loses one entry
    when it held as many as its capacity and none otherwise, its capacity goes down by
    one and the capacity of the LRU part goes up by one. If the capacity of the LFU
    part is 0 the LFU part and the capacity of the LRU part stay as they are.
  \<^item> key not in the ghost index of the LRU part but in that of the LFU part: the same
    with the parts exchanged.
  \<^item> key in neither: nothing changes.
\<close>

theorem C7_ghost_capacity_transfer:
  assumes b: "KArcCache_bounded s"
  shows
    "(umap_find (alru_ghostCache (arc_lruPart s)) k \<noteq> None \<longrightarrow>
        (let s' = fst (KArcCache_checkGhostCaches s k) in
           snd (KArcCache_checkGhostCaches s k)
         \<and> umap_find (alru_ghostCache (arc_lruPart s')) k = None
         \<and> alru_ghostList (arc_lruPart s') = remove1 k (alru_ghostList (arc_lruPart s))
         \<and> alru_mainCache (arc_lruPart s') = alru_mainCache (arc_lruPart s)
         \<and> (if 0 < alfu_capacity (arc_lfuPart s)
            then alfu_capacity (arc_lfuPart s') = alfu_capacity (arc_lfuPart s) - 1
               \<and> alru_capacity (arc_lruPart s') = alru_capacity (arc_lruPart s) + 1
               \<and> umap_size (alfu_mainCache (arc_lfuPart s')) =
                   (if umap_size (alfu_mainCache (arc_lfuPart s)) = alfu_capacity (arc_lfuPart s)
                    then umap_size (alfu_mainCache (arc_lfuPart s)) - 1
                    else umap_size (alfu_mainCache (arc_lfuPart s)))
            else arc_lfuPart s' = arc_lfuPart s
               \<and> alru_capacity (arc_lruPart s') = alru_capacity (arc_lruPart s))))
     \<and> (umap_find (alru_ghostCache (arc_lruPart s)) k = None
          \<and> umap_find (alfu_ghostCache (arc_lfuPart s)) k \<noteq> None \<longrightarrow>
        (let s' = fst (KArcCache_checkGhostCaches s k) in
           snd (KArcCache_checkGhostCaches s k)
         \<and> umap_find (alfu_ghostCache (arc_lfuPart s')) k = None
         \<and> alfu_ghostList (arc_lfuPart s') = remove1_last k (alfu_ghostList (arc_lfuPart s))
         \<and> alfu_mainCache (arc_lfuPart s') = alfu_mainCache (arc_lfuPart s)
         \<and> (if 0 < alru_capacity (arc_lruPart s)
            then alru_capacity (arc_lruPart s') = alru_capacity (arc_lruPart s) - 1
               \<and> alfu_capacity (arc_lfuPart s') = alfu_capacity (arc_lfuPart s) + 1
               \<and> umap_size (alru_mainCache (arc_lruPart s')) =
                   (if umap_size (alru_mainCache (arc_lruPart s)) = alru_capacity (arc_lruPart s)
                    then umap_size (alru_mainCache (arc_lruPart s)) - 1
                    else umap_size (alru_mainCache (arc_lruPart s)))
            else arc_lruPart s' = arc_lruPart s
               \<and> alfu_capacity (arc_lfuPart s') = alfu_capacity (arc_lfuPart s))))
     \<and> (umap_find (alru_ghostCache (arc_lruPart s)) k = None
          \<and> umap_find (alfu_ghostCache (arc_lfuPart s)) k = None \<longrightarrow>
        KArcCache_checkGhostCaches s k = (s, False))
     \<and> alru_capacity (arc_lruPart (KArcCache_put s k v)) =
         alru_capacity (arc_lruPart (fst (KArcCache_checkGhostCaches s k)))
     \<and> alfu_capacity (arc_lfuPart (KArcCache_put s k v)) =
         alfu_capacity (arc_lfuPart (fst (KArcCache_checkGhostCaches s k)))
     \<and> alru_capacity (arc_lruPart (fst (KArcCache_get s k))) =
         alru_capacity (arc_lruPart (fst (KArcCache_checkGhostCaches s k)))
     \<and> alfu_capacity (arc_lfuPart (fst (KArcCache_get s k))) =
         alfu_capacity (arc_lfuPart (fst (KArcCache_checkGhostCaches s k)))"
proof -
  from b have il: "ArcLruPart_inv (arc_lruPart s)" and im: "ArcLfuPart_inv (arc_lfuPart s)"
    and ll: "umap_size (alru_mainCache (arc_lruPart s)) \<le> alru_capacity (arc_lruPart s)"
    and lm: "umap_size (alfu_mainCache (arc_lfuPart s)) \<le> alfu_capacity (arc_lfuPart s)"
    by (simp_all add: KArcCache_bounded_def KArcCache_inv_def)
  note dm = ArcLfuPart_decrease[OF im lm]
  note dl = ArcLruPart_decrease[OF il ll]
  have p1: "umap_find (alru_ghostCache (arc_lruPart s)) k \<noteq> None \<longrightarrow>
        (let s' = fst (KArcCache_checkGhostCaches s k) in
           snd (KArcCache_checkGhostCaches s k)
         \<and> umap_find (alru_ghostCache (arc_lruPart s')) k = None
         \<and> alru_ghostList (arc_lruPart s') = remove1 k (alru_ghostList (arc_lruPart s))
         \<and> alru_mainCache (arc_lruPart s') = alru_mainCache (arc_lruPart s)
         \<and> (if 0 < alfu_capacity (arc_lfuPart s)
            then alfu_capacity (arc_lfuPart s') = alfu_capacity (arc_lfuPart s) - 1
               \<and> alru_capacity (arc_lruPart s') = alru_capacity (arc_lruPart s) + 1
               \<and> umap_size (alfu_mainCache (arc_lfuPart s')) =
                   (if umap_size (alfu_mainCache (arc_lfuPart s)) = alfu_capacity (arc_lfuPart s)
                    then umap_size (alfu_mainCache (arc_lfuPart s)) - 1
                    else umap_size (alfu_mainCache (arc_lfuPart s)))
            else arc_lfuPart s' = arc_lfuPart s
               \<and> alru_capacity (arc_lruPart s') = alru_capacity (arc_lruPart s)))"
  proof
    assume g: "umap_find (alru_ghostCache (arc_lruPart s)) k \<noteq> None"
    note e = KArcCache_checkGhostCaches_lru[OF g]
    show "let s' = fst (KArcCache_checkGhostCaches s k) in
           snd (KArcCache_checkGhostCaches s k)
         \<and> umap_find (alru_ghostCache (arc_lruPart s')) k = None
         \<and> alru_ghostList (arc_lruPart s') = remove1 k (alru_ghostList (arc_lruPart s))
         \<and> alru_mainCache (arc_lruPart s') = alru_mainCache (arc_lruPart s)
         \<and> (if 0 < alfu_capacity (arc_lfuPart s)
            then alfu_capacity (arc_lfuPart s') = alfu_capacity (arc_lfuPart s) - 1
               \<and> alru_capacity (arc_lruPart s') = alru_capacity (arc_lruPart s) + 1
               \<and> umap_size (alfu_mainCache (arc_lfuPart s')) =
                   (if umap_size (alfu_mainCache (arc_lfuPart s)) = alfu_capacity (arc_lfuPart s)
                    then umap_size (alfu_mainCache (arc_lfuPart s)) - 1
                    else umap_size (alfu_mainCache (arc_lfuPart s)))
            else arc_lfuPart s' = arc_lfuPart s
               \<and> alru_capacity (arc_lruPart s') = alru_capacity (arc_lruPart s))"
    proof (cases "alfu_capacity (arc_lfuPart s) = 0")
      case True
      with dm(2) have nd: "\<not> snd (ArcLfuPart_decreaseCapacity (arc_lfuPart s))" by simp
      from dm(3)[OF True] have same: "fst (ArcLfuPart_decreaseCapacity (arc_lfuPart s)) = arc_lfuPart s" .
      show ?thesis
        unfolding Let_def e(1) e(2) same
        using nd g e(3) True by (simp add: ArcLruPart_checkGhost_frame)
    next
      case False
      then have pos: "0 < alfu_capacity (arc_lfuPart s)" by simp
      with dm(2) have d: "snd (ArcLfuPart_decreaseCapacity (arc_lfuPart s))" by simp
      show ?thesis
        unfolding Let_def e(1) e(2)
        using d g e(3) pos dm(4)[OF pos] dm(5)[OF pos]
        by (simp add: ArcLruPart_checkGhost_frame ArcLruPart_increase_frame)
    qed
  qed
  have p2: "umap_find (alru_ghostCache (arc_lruPart s)) k = None
          \<and> umap_find (alfu_ghostCache (arc_lfuPart s)) k \<noteq> None \<longrightarrow>
        (let s' = fst (KArcCache_checkGhostCaches s k) in
           snd (KArcCache_checkGhostCaches s k)
         \<and> umap_find (alfu_ghostCache (arc_lfuPart s')) k = None
         \<and> alfu_ghostList (arc_lfuPart s') = remove1_last k (alfu_ghostList (arc_lfuPart s))
         \<and> alfu_mainCache (arc_lfuPart s') = alfu_mainCache (arc_lfuPart s)
         \<and> (if 0 < alru_capacity (arc_lruPart s)
            then alru_capacity (arc_lruPart s') = alru_capacity (arc_lruPart s) - 1
               \<and> alfu_capacity (arc_lfuPart s') = alfu_capacity (arc_lfuPart s) + 1
               \<and> umap_size (alru_mainCache (arc_lruPart s')) =
                   (if umap_size (alru_mainCache (arc_lruPart s)) = alru_capacity (arc_lruPart s)
                    then umap_size (alru_mainCache (arc_lruPart s)) - 1
                    else umap_size (alru_mainCache (arc_lruPart s)))
            else arc_lruPart s' = arc_lruPart s
               \<and> alfu_capacity (arc_lfuPart s') = alfu_capacity (arc_lfuPart s)))"
  proof
    assume "umap_find (alru_ghostCache (arc_lruPart s)) k = None
          \<and> umap_find (alfu_ghostCache (arc_lfuPart s)) k \<noteq> None"
    then have n: "umap_find (alru_ghostCache (arc_lruPart s)) k = None"
      and g: "umap_find (alfu_ghostCache (arc_lfuPart s)) k \<noteq> None" by simp_all
    note e = KArcCache_checkGhostCaches_lfu[OF n g]
    show "let s' = fst (KArcCache_checkGhostCaches s k) in
           snd (KArcCache_checkGhostCaches s k)
         \<and> umap_find (alfu_ghostCache (arc_lfuPart s')) k = None
         \<and> alfu_ghostList (arc_lfuPart s') = remove1_last k (alfu_ghostList (arc_lfuPart s))
         \<and> alfu_mainCache (arc_lfuPart s') = alfu_mainCache (arc_lfuPart s)
         \<and> (if 0 < alru_capacity (arc_lruPart s)
            then alru_capacity (arc_lruPart s') = alru_capacity (arc_lruPart s) - 1
               \<and> alfu_capacity (arc_lfuPart s') = alfu_capacity (arc_lfuPart s) + 1
               \<and> umap_size (alru_mainCache (arc_lruPart s')) =
                   (if umap_size (alru_mainCache (arc_lruPart s)) = alru_capacity (arc_lruPart s)
                    then umap_size (alru_mainCache (arc_lruPart s)) - 1
                    else umap_size (alru_mainCache (arc_lruPart s)))
            else arc_lruPart s' = arc_lruPart s
               \<and> alfu_capacity (arc_lfuPart s') = alfu_capacity (arc_lfuPart s))"
    proof (cases "alru_capacity (arc_lruPart s) = 0")
      case True
      with dl(2) have nd: "\<not> snd (ArcLruPart_decreaseCapacity (arc_lruPart s))" by simp
      from dl(3)[OF True] have same: "fst (ArcLruPart_decreaseCapacity (arc_lruPart s)) = arc_lruPart s" .
      show ?thesis
        unfolding Let_def e(1) e(2) same
        using nd g e(3) True by (simp add: ArcLfuPart_checkGhost_frame)
    next
      case False
      then have pos: "0 < alru_capacity (arc_lruPart s)" by simp
      with dl(2) have d: "snd (ArcLruPart_decreaseCapacity (arc_lruPart s))" by simp
      show ?thesis
        unfolding Let_def e(1) e(2)
        using d g e(3) pos dl(4)[OF pos] dl(5)[OF pos]
        by (simp add: ArcLfuPart_checkGhost_frame ArcLfuPart_increase_frame)
    qed
  qed
  have p3: "umap_find (alru_ghostCache (arc_lruPart s)) k = None
          \<and> umap_find (alfu_ghostCache (arc_lfuPart s)) k = None \<longrightarrow>
        KArcCache_checkGhostCaches s k = (s, False)"
    by (simp add: KArcCache_checkGhostCaches_none)
  from p1 p2 p3 KArcCache_put_capacities[of s k v] KArcCache_get_capacities[of s k]
  show ?thesis by blast
qed

lemma arc_example_ghost_bounded: "KArcCache_bounded arc_example_ghost"
  unfolding arc_example_ghost_def
  by (rule KArcCache_bounded_run[OF KArcCache_bounded_init])

text \<open>
  The hypothesis of C7 holds after \<^verbatim>\<open>put(1,a), get(1), put(2,b)\<close> on a cache of capacity
  1: key 1 is a ghost of the LRU part and the LFU part is full with key 1. The ghost
  step on key 1 empties the LFU part and moves its capacity to the LRU part.
\<close>

theorem C7_ghost_capacity_transfer_witness:
  "KArcCache_bounded arc_example_ghost
   \<and> umap_find (alru_ghostCache (arc_lruPart arc_example_ghost)) 1 \<noteq> None
   \<and> alfu_capacity (arc_lfuPart arc_example_ghost) = 1
   \<and> umap_size (alfu_mainCache (arc_lfuPart arc_example_ghost)) = 1
   \<and> alru_capacity (arc_lruPart arc_example_ghost) = 1
   \<and> alfu_capacity (arc_lfuPart (fst (KArcCache_checkGhostCaches arc_example_ghost 1))) = 0
   \<and> alru_capacity (arc_lruPart (fst (KArcCache_checkGhostCaches arc_example_ghost 1))) = 2
   \<and> umap_size (alfu_mainCache (arc_lfuPart (fst (KArcCache_checkGhostCaches arc_example_ghost 1)))) = 0
   \<and> umap_find (alru_ghostCache (arc_lruPart (fst (KArcCache_checkGhostCaches arc_example_ghost 1)))) 1 = None"
proof -
  have g: "umap_find (alru_ghostCache (arc_lruPart arc_example_ghost)) 1 \<noteq> None"
    by (simp add: arc_example_ghost_eq umap_find_def)
  have c: "alfu_capacity (arc_lfuPart arc_example_ghost) = 1"
    "umap_size (alfu_mainCache (arc_lfuPart arc_example_ghost)) = 1"
    "alru_capacity (arc_lruPart arc_example_ghost) = 1"
    by (simp_all add: arc_example_ghost_eq umap_size_def umap_keys_def)
  from C7_ghost_capacity_transfer[OF arc_example_ghost_bounded, of 1, THEN conjunct1, rule_format, OF g]
  show ?thesis using g c arc_example_ghost_bounded by (simp add: Let_def)
qed

section \<open>KArcCache: the first hit of an entry of the LRU part\<close>

lemma ArcLruPart_put_new:
  assumes "0 < alru_capacity s" "umap_find (alru_mainCache s) k = None"
  shows "umap_find (alru_mainCache (fst (ArcLruPart_put s k v))) k =
           Some \<lparr>anode_value = v, anode_accessCount = 1\<rparr>"
  using assms by (simp add: ArcLruPart_put_def ArcLruPart_addNewNode_def ArcLruPart_addToFront_def
      Let_def)

lemma ArcLfuPart_put_zero:
  "alfu_capacity s = 0 \<Longrightarrow> ArcLfuPart_put s k v = (s, False)"
  by (simp add: ArcLfuPart_put_def)

text \<open>
  C9, as the source has it. A key that \<^verbatim>\<open>put\<close> adds to the LRU part gets a node of
  access count 1. When \<^verbatim>\<open>get\<close> finds, after its ghost step, the key in the LRU part
  with access count 1 and the threshold is 2, the count becomes 2, the value is
  returned and the LFU part is what its own \<^verbatim>\<open>put\<close> of the key and value leaves: it
  holds the key with that value if its capacity is positive at that moment, and it is
  unchanged if its capacity is 0 (ghost hits may have moved all of it to the LRU part).
  On a fresh cache of positive capacity \<^verbatim>\<open>put(k, v)\<close> followed by one \<^verbatim>\<open>get(k)\<close> leaves
  the key in the LFU part.
\<close>

theorem C9_promotion_after_one_hit:
  "(let s1 = fst (KArcCache_checkGhostCaches s k) in
      (0 < alru_capacity (arc_lruPart s1) \<and> umap_find (alru_mainCache (arc_lruPart s1)) k = None \<longrightarrow>
         umap_find (alru_mainCache (arc_lruPart (KArcCache_put s k v))) k =
           Some \<lparr>anode_value = v, anode_accessCount = 1\<rparr>)
    \<and> (\<forall>node. umap_find (alru_mainCache (arc_lruPart s1)) k = Some node
               \<and> anode_accessCount node = 1 \<and> alru_transformThreshold (arc_lruPart s1) = 2 \<longrightarrow>
         snd (KArcCache_get s k) = Some (anode_value node)
       \<and> umap_find (alru_mainCache (arc_lruPart (fst (KArcCache_get s k)))) k =
           Some (node\<lparr>anode_accessCount := 2\<rparr>)
       \<and> arc_lfuPart (fst (KArcCache_get s k)) =
           fst (ArcLfuPart_put (arc_lfuPart s1) k (anode_value node))
       \<and> (0 < alfu_capacity (arc_lfuPart s1) \<longrightarrow>
            map_option anode_value
              (umap_find (alfu_mainCache (arc_lfuPart (fst (KArcCache_get s k)))) k) =
            Some (anode_value node))
       \<and> (alfu_capacity (arc_lfuPart s1) = 0 \<longrightarrow>
            arc_lfuPart (fst (KArcCache_get s k)) = arc_lfuPart s1)))
   \<and> (0 < C \<longrightarrow>
        snd (KArcCache_get (KArcCache_put (KArcCache_init C 2) k v) k) = Some v
      \<and> map_option anode_value
          (umap_find (alfu_mainCache (arc_lfuPart
             (fst (KArcCache_get (KArcCache_put (KArcCache_init C 2) k v) k)))) k) = Some v)"
proof -
  define s1 where "s1 = fst (KArcCache_checkGhostCaches s k)"
  have a: "0 < alru_capacity (arc_lruPart s1) \<and> umap_find (alru_mainCache (arc_lruPart s1)) k = None \<longrightarrow>
         umap_find (alru_mainCache (arc_lruPart (KArcCache_put s k v))) k =
           Some \<lparr>anode_value = v, anode_accessCount = 1\<rparr>"
    by (simp add: KArcCache_put_eq Let_def s1_def[symmetric] ArcLruPart_put_new)
  have b: "snd (KArcCache_get s k) = Some (anode_value node)
       \<and> umap_find (alru_mainCache (arc_lruPart (fst (KArcCache_get s k)))) k =
           Some (node\<lparr>anode_accessCount := 2\<rparr>)
       \<and> arc_lfuPart (fst (KArcCache_get s k)) =
           fst (ArcLfuPart_put (arc_lfuPart s1) k (anode_value node))
       \<and> (0 < alfu_capacity (arc_lfuPart s1) \<longrightarrow>
            map_option anode_value
              (umap_find (alfu_mainCache (arc_lfuPart (fst (KArcCache_get s k)))) k) =
            Some (anode_value node))
       \<and> (alfu_capacity (arc_lfuPart s1) = 0 \<longrightarrow>
            arc_lfuPart (fst (KArcCache_get s k)) = arc_lfuPart s1)"
    if h: "umap_find (alru_mainCache (arc_lruPart s1)) k = Some node
               \<and> anode_accessCount node = 1 \<and> alru_transformThreshold (arc_lruPart s1) = 2"
    for node
  proof -
    from h have g: "KArcCache_get s k =
        (s1\<lparr>arc_lruPart := fst (ArcLruPart_get (arc_lruPart s1) k),
            arc_lfuPart := fst (ArcLfuPart_put (arc_lfuPart s1) k (anode_value node))\<rparr>,
         Some (anode_value node))"
      by (simp add: KArcCache_get_eq Let_def s1_def[symmetric])
    from h have l: "umap_find (alru_mainCache (fst (ArcLruPart_get (arc_lruPart s1) k))) k =
        Some (node\<lparr>anode_accessCount := 2\<rparr>)"
      by (simp add: ArcLruPart_get_def ArcLruPart_updateNodeAccess_def ArcLruPart_moveToFront_def
          ArcLruPart_addToFront_def Let_def)
    show ?thesis
      by (simp add: g l ArcLfuPart_put_stores ArcLfuPart_put_zero)
  qed
  have c: "0 < C \<longrightarrow>
        snd (KArcCache_get (KArcCache_put (KArcCache_init C 2) k v) k) = Some v
      \<and> map_option anode_value
          (umap_find (alfu_mainCache (arc_lfuPart
             (fst (KArcCache_get (KArcCache_put (KArcCache_init C 2) k v) k)))) k) = Some v"
    by (simp add: KArcCache_defs ArcLruPart_defs ArcLfuPart_defs Let_def)
  from a b c show ?thesis unfolding Let_def s1_def[symmetric] by blast
qed

text \<open>
  The hypotheses of C9 hold of key 1 after \<^verbatim>\<open>put(1, a)\<close> on a fresh cache of capacity 1,
  and \<^verbatim>\<open>get(1)\<close> puts key 1 into the LFU part.
\<close>

theorem C9_promotion_after_one_hit_witness:
  "umap_find (alru_mainCache (arc_lruPart (fst (KArcCache_checkGhostCaches
      (KArcCache_put (KArcCache_init 1 2) (1::nat) ''a'') 1)))) 1
     = Some \<lparr>anode_value = ''a'', anode_accessCount = 1\<rparr>
   \<and> alru_transformThreshold (arc_lruPart (fst (KArcCache_checkGhostCaches
      (KArcCache_put (KArcCache_init 1 2) (1::nat) ''a'') 1))) = 2
   \<and> 0 < alfu_capacity (arc_lfuPart (fst (KArcCache_checkGhostCaches
      (KArcCache_put (KArcCache_init 1 2) (1::nat) ''a'') 1)))
   \<and> map_option anode_value
        (umap_find (alfu_mainCache (arc_lfuPart
           (fst (KArcCache_get (KArcCache_put (KArcCache_init 1 2) (1::nat) ''a'') 1)))) 1)
       = Some ''a''"
proof -
  let ?s = "KArcCache_put (KArcCache_init 1 2) (1::nat) ''a''"
  have h: "umap_find (alru_mainCache (arc_lruPart (fst (KArcCache_checkGhostCaches ?s 1)))) 1
       = Some \<lparr>anode_value = ''a'', anode_accessCount = 1\<rparr>
     \<and> anode_accessCount \<lparr>anode_value = ''a'', anode_accessCount = 1\<rparr> = 1
     \<and> alru_transformThreshold (arc_lruPart (fst (KArcCache_checkGhostCaches ?s 1))) = 2"
    and p: "0 < alfu_capacity (arc_lfuPart (fst (KArcCache_checkGhostCaches ?s 1)))"
    by (simp_all add: KArcCache_defs ArcLruPart_defs ArcLfuPart_defs Let_def umap_defs)
  note th = C9_promotion_after_one_hit[of ?s 1 "''a''" 1, unfolded Let_def, THEN conjunct1,
      THEN conjunct2, rule_format, OF h]
  have r: "map_option anode_value
        (umap_find (alfu_mainCache (arc_lfuPart (fst (KArcCache_get ?s 1)))) 1) =
        Some (anode_value \<lparr>anode_value = ''a'', anode_accessCount = 1\<rparr>)"
    by (rule th[THEN conjunct2, THEN conjunct2, THEN conjunct2, THEN conjunct1, rule_format, OF p])
  from h p r show ?thesis by (simp del: One_nat_def)
qed

text \<open>
  C9 as stated fails: after \<^verbatim>\<open>put(1,a), put(2,b), put(1,c)\<close> on a cache of capacity 1
  and threshold 2, key 1 is in the LRU part with access count 1 and the capacity of the
  LFU part is 0. The first \<^verbatim>\<open>get(1)\<close> hits and returns c, and the LFU part stays empty.
\<close>

theorem C9_counterexample:
  "umap_find (alru_mainCache (arc_lruPart
      (KArcCache_run (KArcCache_init 1 2) [Put (1::nat) ''a'', Put 2 ''b'', Put 1 ''c''])))  1
     = Some \<lparr>anode_value = ''c'', anode_accessCount = 1\<rparr>
   \<and> snd (KArcCache_get
        (KArcCache_run (KArcCache_init 1 2) [Put (1::nat) ''a'', Put 2 ''b'', Put 1 ''c'']) 1)
     = Some ''c''
   \<and> alfu_mainCache (arc_lfuPart (fst (KArcCache_get
        (KArcCache_run (KArcCache_init 1 2) [Put (1::nat) ''a'', Put 2 ''b'', Put 1 ''c'']) 1)))
     = []"
  by code_simp

section \<open>Caches built with capacity 0\<close>

lemma KLruCache_run_zero:
  "KLruCache_run (KLruCache_init 0 dk) ops = KLruCache_init 0 dk"
proof (induction ops)
  case Nil
  then show ?case by simp
next
  case (Cons op ops)
  have p: "KLruCache_put (KLruCache_init 0 dk) k v = KLruCache_init 0 dk" for k v
    by (simp add: KLruCache_put_def KLruCache_init_def)
  have g: "KLruCache_get (KLruCache_init 0 dk) k = (KLruCache_init 0 dk, None)" for k
    by (simp add: KLruCache_get_def KLruCache_init_def)
  from Cons show ?case by (cases op) (simp_all add: p g)
qed

lemma KLfuCache_run_zero:
  "KLfuCache_run (KLfuCache_init 0 M tk) ops = Some (KLfuCache_init 0 M tk)"
proof (induction ops)
  case Nil
  then show ?case by simp
next
  case (Cons op ops)
  have p: "KLfuCache_put (KLfuCache_init 0 M tk) k v = Some (KLfuCache_init 0 M tk)" for k v
    by (simp add: KLfuCache_put_def KLfuCache_init_def)
  have g: "KLfuCache_get (KLfuCache_init 0 M tk) k = Some (KLfuCache_init 0 M tk, None)" for k
    by (simp add: KLfuCache_get_def KLfuCache_init_def)
  from Cons show ?case by (cases op) (simp_all add: p g)
qed

lemma KArcCache_zero_put: "KArcCache_put (KArcCache_init 0 T) k v = KArcCache_init 0 T"
  by (simp add: KArcCache_defs ArcLruPart_defs ArcLfuPart_defs Let_def)

lemma KArcCache_zero_get: "KArcCache_get (KArcCache_init 0 T) k = (KArcCache_init 0 T, None)"
  by (simp add: KArcCache_defs ArcLruPart_defs ArcLfuPart_defs Let_def)

lemma KArcCache_run_zero:
  "KArcCache_run (KArcCache_init 0 T) ops = KArcCache_init 0 T"
proof (induction ops)
  case Nil
  then show ?case by simp
next
  case (Cons op ops)
  then show ?case by (cases op) (simp_all add: KArcCache_zero_put KArcCache_zero_get)
qed

lemma KLruKCache_run_zero:
  "lruk_base s = KLruCache_init 0 dk \<Longrightarrow>
     lruk_base (KLruKCache_run s ops) = KLruCache_init 0 dk"
proof (induction ops arbitrary: s)
  case Nil
  then show ?case by simp
next
  case (Cons op ops)
  have p: "lruk_base (KLruKCache_put s k v) = KLruCache_init 0 dk" for k v
    using Cons.prems
    by (simp add: KLruKCache_put_def KLruCache_get_def KLruCache_put_def KLruCache_init_def
        Let_def split: prod.splits)
  have g: "lruk_base (fst (KLruKCache_get s k)) = KLruCache_init 0 dk" for k
    using Cons.prems
    by (simp add: KLruKCache_get_def KLruCache_get_def KLruCache_put_def KLruCache_init_def
        Let_def split: prod.splits option.splits)
  have m: "lruk_base (fst (KLruKCache_get_main s k)) = KLruCache_init 0 dk" for k
    using Cons.prems
    by (simp add: KLruKCache_get_main_def KLruCache_get_def KLruCache_init_def)
  show ?case by (cases op) (simp_all add: Cons.IH p g m)
qed

text \<open>
  C8, as the source has it. KLruCache, KLfuCache and KArcCache built with capacity 0:
  every sequence of calls leaves the object as the constructor built it, every \<^verbatim>\<open>get\<close>
  misses, and the \<^verbatim>\<open>put\<close> of each part of a KArcCache returns false. KLruKCache built
  with main capacity 0: its main cache stays as built and a probe of the main cache
  misses, but \<^verbatim>\<open>put\<close> is not a no-op, it counts the access in the history cache and
  records the value as pending; with \<open>k = 2\<close>, \<^verbatim>\<open>put(B, v)\<close> and then \<^verbatim>\<open>get(B)\<close> returns
  \<open>v\<close> whenever the history cache can hold the counter.
\<close>

theorem C8_zero_capacity:
  "KLruCache_run (KLruCache_init 0 dk) ops = KLruCache_init 0 dk
   \<and> KLruCache_put (KLruCache_init 0 dk) k v = KLruCache_init 0 dk
   \<and> snd (KLruCache_get (KLruCache_run (KLruCache_init 0 dk) ops) k) = None
   \<and> KLfuCache_run (KLfuCache_init 0 M tk) fops = Some (KLfuCache_init 0 M tk)
   \<and> KLfuCache_put (KLfuCache_init 0 M tk) fk fv = Some (KLfuCache_init 0 M tk)
   \<and> KLfuCache_get (KLfuCache_init 0 M tk) fk = Some (KLfuCache_init 0 M tk, None)
   \<and> KArcCache_run (KArcCache_init 0 T) aops = KArcCache_init 0 T
   \<and> KArcCache_put (KArcCache_init 0 T) ak av = KArcCache_init 0 T
   \<and> KArcCache_get (KArcCache_init 0 T) ak = (KArcCache_init 0 T, None)
   \<and> ArcLruPart_put (arc_lruPart (KArcCache_init 0 T)) ak av =
       (arc_lruPart (KArcCache_init 0 T), False)
   \<and> ArcLfuPart_put (arc_lfuPart (KArcCache_init 0 T)) ak av =
       (arc_lfuPart (KArcCache_init 0 T), False)
   \<and> lruk_base (KLruKCache_run (KLruKCache_init 0 h kk kd) kops) = KLruCache_init 0 kd
   \<and> snd (KLruKCache_get_main (KLruKCache_run (KLruKCache_init 0 h kk kd) kops) B) = None
   \<and> umap_find (lruk_historyValueMap (KLruKCache_put (KLruKCache_init 0 h 2 kd) B w)) B = Some w
   \<and> snd (KLruKCache_get (KLruKCache_put (KLruKCache_init 0 h 2 kd) B w) B) =
       (if 1 \<le> h then Some w else None)"
proof -
  have l: "KLruCache_put (KLruCache_init 0 dk) k v = KLruCache_init 0 dk"
    "snd (KLruCache_get (KLruCache_run (KLruCache_init 0 dk) ops) k) = None"
    by (simp_all add: KLruCache_run_zero) (simp_all add: KLruCache_defs)
  have f: "KLfuCache_put (KLfuCache_init 0 M tk) fk fv = Some (KLfuCache_init 0 M tk)"
    "KLfuCache_get (KLfuCache_init 0 M tk) fk = Some (KLfuCache_init 0 M tk, None)"
    by (simp_all add: KLfuCache_put_def KLfuCache_get_def KLfuCache_init_def)
  have a: "ArcLruPart_put (arc_lruPart (KArcCache_init 0 T)) ak av =
       (arc_lruPart (KArcCache_init 0 T), False)"
    "ArcLfuPart_put (arc_lfuPart (KArcCache_init 0 T)) ak av =
       (arc_lfuPart (KArcCache_init 0 T), False)"
    by (simp_all add: KArcCache_init_def ArcLruPart_put_def ArcLfuPart_put_def
        ArcLruPart_init_def ArcLfuPart_init_def)
  have b: "lruk_base (KLruKCache_run (KLruKCache_init 0 h kk kd) kops) = KLruCache_init 0 kd"
    by (rule KLruKCache_run_zero) (simp add: KLruKCache_init_def)
  have m: "snd (KLruKCache_get_main (KLruKCache_run (KLruKCache_init 0 h kk kd) kops) B) = None"
    by (simp add: KLruKCache_get_main_def b KLruCache_get_def KLruCache_init_def)
  have p: "umap_find (lruk_historyValueMap (KLruKCache_put (KLruKCache_init 0 h 2 kd) B w)) B = Some w"
    "snd (KLruKCache_get (KLruKCache_put (KLruKCache_init 0 h 2 kd) B w) B) =
       (if 1 \<le> h then Some w else None)"
    by (simp_all add: KLruKCache_defs KLruCache_defs to_size_t_def Let_def split: option.splits)
  from l f a b m p KLruCache_run_zero[of dk ops] KLfuCache_run_zero[of M tk fops]
    KArcCache_run_zero[of T aops] KArcCache_zero_put[of T ak av] KArcCache_zero_get[of T ak]
  show ?thesis by simp
qed

text \<open>
  C8 as stated fails on KLruKCache: with main capacity 0, history capacity 10 and
  \<open>k = 2\<close>, \<^verbatim>\<open>put(B, 2)\<close> changes the state and the \<^verbatim>\<open>get(B)\<close> that follows returns 2.
\<close>

theorem C8_counterexample:
  "KLruKCache_put (KLruKCache_init 0 10 2 [] :: (string, nat) KLruKCache) ''B'' 2
     \<noteq> KLruKCache_init 0 10 2 []
   \<and> snd (KLruKCache_get
          (KLruKCache_put (KLruKCache_init 0 10 2 [] :: (string, nat) KLruKCache) ''B'' 2) ''B'')
     = Some 2"
  by (simp add: KLruKCache_defs KLruCache_defs to_size_t_def Let_def)

section \<open>The value returned after a put: KLruCache and KLruKCache\<close>

lemma KLruCache_get_value: "snd (KLruCache_get s k) = KLruCache_value s k"
  by (simp add: KLruCache_get_def KLruCache_value_def split: option.splits)

lemma KLruCache_get_nodeMap: "lru_nodeMap (fst (KLruCache_get s k)) = lru_nodeMap s"
  by (simp add: KLruCache_get_def KLruCache_moveToMostRecent_def KLruCache_insertNode_def
      KLruCache_removeNode_def split: option.splits)

lemma KLruCache_get_capacity: "lru_capacity (fst (KLruCache_get s k)) = lru_capacity s"
  by (simp add: KLruCache_get_def KLruCache_moveToMostRecent_def KLruCache_insertNode_def
      KLruCache_removeNode_def split: option.splits)

lemma KLruCache_put_capacity: "lru_capacity (KLruCache_put s k v) = lru_capacity s"
  by (simp add: KLruCache_defs Let_def split: option.splits list.splits)

lemma KLruCache_evict_other:
  "umap_find (lru_nodeMap (KLruCache_evictLeastRecent s)) j = None
   \<or> umap_find (lru_nodeMap (KLruCache_evictLeastRecent s)) j = umap_find (lru_nodeMap s) j"
  by (simp add: KLruCache_evictLeastRecent_def KLruCache_removeNode_def Let_def split: list.splits)

lemma KLruCache_put_stores:
  assumes "0 < lru_capacity s"
  shows "KLruCache_value (KLruCache_put s k v) k = Some v"
  using assms
  by (simp add: KLruCache_value_def KLruCache_put_def KLruCache_updateExistingNode_def
      KLruCache_addNewNode_def KLruCache_moveToMostRecent_def KLruCache_insertNode_def
      KLruCache_removeNode_def Let_def split: option.splits)

lemma KLruCache_put_other:
  assumes "j \<noteq> k"
  shows "umap_find (lru_nodeMap (KLruCache_put s k v)) j = None
   \<or> umap_find (lru_nodeMap (KLruCache_put s k v)) j = umap_find (lru_nodeMap s) j"
proof (cases "lru_capacity s \<le> 0")
  case True
  then show ?thesis by (simp add: KLruCache_put_def)
next
  case False
  show ?thesis
  proof (cases "umap_find (lru_nodeMap s) k")
    case (Some node)
    with False assms show ?thesis
      by (simp add: KLruCache_put_def KLruCache_updateExistingNode_def
          KLruCache_moveToMostRecent_def KLruCache_insertNode_def KLruCache_removeNode_def)
  next
    case None
    with False assms KLruCache_evict_other[of s j] show ?thesis
      by (simp add: KLruCache_put_def KLruCache_addNewNode_def KLruCache_insertNode_def Let_def)
  qed
qed

lemma KLruCache_put_dom:
  "umap_find (lru_nodeMap (KLruCache_put s k v)) j \<noteq> None \<Longrightarrow>
     j = k \<or> umap_find (lru_nodeMap s) j \<noteq> None"
  using KLruCache_put_other[of j k s v] by (cases "j = k") auto

lemma KLruCache_run_value:
  assumes "\<forall>w. Put k w \<notin> set ops"
  shows "KLruCache_value (KLruCache_run s ops) k = None
   \<or> KLruCache_value (KLruCache_run s ops) k = KLruCache_value s k"
  using assms
proof (induction ops arbitrary: s)
  case Nil
  then show ?case by simp
next
  case (Cons op ops)
  then have n: "\<forall>w. Put k w \<notin> set ops" by auto
  show ?case
  proof (cases op)
    case (Put j w)
    with Cons.prems have "k \<noteq> j" by auto
    from KLruCache_put_other[OF this, of s w]
    have "KLruCache_value (KLruCache_put s j w) k = None
       \<or> KLruCache_value (KLruCache_put s j w) k = KLruCache_value s k"
      by (auto simp: KLruCache_value_def)
    with Cons.IH[OF n, of "KLruCache_put s j w"] Put show ?thesis by auto
  next
    case (Get j)
    have "KLruCache_value (fst (KLruCache_get s j)) k = KLruCache_value s k"
      by (simp add: KLruCache_value_def KLruCache_get_nodeMap)
    with Cons.IH[OF n, of "fst (KLruCache_get s j)"] Get show ?thesis by auto
  next
    case (GetMain j)
    have "KLruCache_value (fst (KLruCache_get s j)) k = KLruCache_value s k"
      by (simp add: KLruCache_value_def KLruCache_get_nodeMap)
    with Cons.IH[OF n, of "fst (KLruCache_get s j)"] GetMain show ?thesis by auto
  qed
qed

subsection \<open>KLruKCache\<close>

lemma KLruKCache_inv_iff:
  "KLruKCache_inv s \<longleftrightarrow>
     (\<forall>j. umap_find (lru_nodeMap (lruk_base s)) j \<noteq> None \<longrightarrow>
          umap_find (lruk_historyValueMap s) j = None)"
  by (auto simp: KLruKCache_inv_def list_all_iff set_umap_keys)

lemma KLruKCache_inv_init: "KLruKCache_inv (KLruKCache_init c h kk dk)"
  by (simp add: KLruKCache_inv_iff KLruKCache_init_def KLruCache_init_def)

text \<open>What \<^verbatim>\<open>put\<close> and the two \<^verbatim>\<open>get\<close> do to the main index and to the pending values.\<close>

lemma KLruKCache_put_cases:
  "(umap_find (lru_nodeMap (lruk_base s)) j \<noteq> None
      \<and> lruk_base (KLruKCache_put s j w) = KLruCache_put (fst (KLruCache_get (lruk_base s) j)) j w
      \<and> lruk_historyValueMap (KLruKCache_put s j w) = lruk_historyValueMap s)
   \<or> (umap_find (lru_nodeMap (lruk_base s)) j = None
      \<and> lruk_base (KLruKCache_put s j w) = KLruCache_put (lruk_base s) j w
      \<and> lruk_historyValueMap (KLruKCache_put s j w) =
          umap_erase j (umap_assign j w (lruk_historyValueMap s)))
   \<or> (umap_find (lru_nodeMap (lruk_base s)) j = None
      \<and> lruk_base (KLruKCache_put s j w) = lruk_base s
      \<and> lruk_historyValueMap (KLruKCache_put s j w) = umap_assign j w (lruk_historyValueMap s))"
  by (cases "umap_find (lru_nodeMap (lruk_base s)) j")
     (simp_all add: KLruKCache_put_def KLruCache_get_def Let_def split: prod.splits)

lemma KLruKCache_get_cases:
  "(umap_find (lru_nodeMap (lruk_base s)) j \<noteq> None
      \<and> lruk_base (fst (KLruKCache_get s j)) = fst (KLruCache_get (lruk_base s) j)
      \<and> lruk_historyValueMap (fst (KLruKCache_get s j)) = lruk_historyValueMap s)
   \<or> (umap_find (lru_nodeMap (lruk_base s)) j = None
      \<and> (\<exists>w. umap_find (lruk_historyValueMap s) j = Some w
            \<and> lruk_base (fst (KLruKCache_get s j)) = KLruCache_put (lruk_base s) j w)
      \<and> lruk_historyValueMap (fst (KLruKCache_get s j)) = umap_erase j (lruk_historyValueMap s))
   \<or> (umap_find (lru_nodeMap (lruk_base s)) j = None
      \<and> lruk_base (fst (KLruKCache_get s j)) = lruk_base s
      \<and> lruk_historyValueMap (fst (KLruKCache_get s j)) = lruk_historyValueMap s)"
  by (cases "umap_find (lru_nodeMap (lruk_base s)) j")
     (simp_all add: KLruKCache_get_def KLruCache_get_def Let_def split: prod.splits option.splits)

lemma KLruKCache_get_main_frame:
  "lru_nodeMap (lruk_base (fst (KLruKCache_get_main s j))) = lru_nodeMap (lruk_base s)"
  "lruk_historyValueMap (fst (KLruKCache_get_main s j)) = lruk_historyValueMap s"
  by (simp_all add: KLruKCache_get_main_def KLruCache_get_nodeMap split: prod.splits)
     (metis KLruCache_get_nodeMap fst_conv)

lemma KLruKCache_get_result:
  "snd (KLruKCache_get s k) =
     (case KLruCache_value (lruk_base s) k of
        Some x \<Rightarrow> Some x
      | None \<Rightarrow> if to_size_t (lruk_k s) \<le> KLruKCache_historyCount s k + 1
                then umap_find (lruk_historyValueMap s) k else None)"
proof -
  have m: "snd (KLruCache_get (lruk_base s) k) = KLruCache_value (lruk_base s) k"
    and h: "snd (KLruCache_get (lruk_historyList s) k) = KLruCache_value (lruk_historyList s) k"
    by (rule KLruCache_get_value)+
  show ?thesis
    unfolding KLruKCache_get_def Let_def case_prod_beta m h KLruKCache_historyCount_def
    by (cases "KLruCache_value (lruk_base s) k";
        cases "umap_find (lruk_historyValueMap s) k") simp_all
qed

lemma KLruKCache_inv_put:
  assumes inv: "KLruKCache_inv s"
  shows "KLruKCache_inv (KLruKCache_put s j w)"
proof -
  let ?s' = "KLruKCache_put s j w"
  from inv have J: "\<And>i. umap_find (lru_nodeMap (lruk_base s)) i \<noteq> None \<Longrightarrow>
      umap_find (lruk_historyValueMap s) i = None"
    unfolding KLruKCache_inv_iff by blast
  have "umap_find (lruk_historyValueMap ?s') i = None"
    if t: "umap_find (lru_nodeMap (lruk_base ?s')) i \<noteq> None" for i
    using KLruKCache_put_cases[of s j w]
  proof (elim disjE conjE, goal_cases)
    case 1
    from KLruCache_put_dom[OF t[unfolded 1(2)]]
    have "i = j \<or> umap_find (lru_nodeMap (lruk_base s)) i \<noteq> None"
      by (simp add: KLruCache_get_nodeMap)
    with 1(1) J[of i] J[of j] show ?case unfolding 1(3) by auto
  next
    case 2
    from KLruCache_put_dom[OF t[unfolded 2(2)]]
    have "i = j \<or> umap_find (lru_nodeMap (lruk_base s)) i \<noteq> None" .
    with J[of i] show ?case unfolding 2(3) by auto
  next
    case 3
    from t 3(1) have "i \<noteq> j" unfolding 3(2) by auto
    with J[OF t[unfolded 3(2)]] show ?case unfolding 3(3) by simp
  qed
  then show ?thesis unfolding KLruKCache_inv_iff by blast
qed

lemma KLruKCache_inv_get:
  assumes inv: "KLruKCache_inv s"
  shows "KLruKCache_inv (fst (KLruKCache_get s j))"
proof -
  let ?s' = "fst (KLruKCache_get s j)"
  from inv have J: "\<And>i. umap_find (lru_nodeMap (lruk_base s)) i \<noteq> None \<Longrightarrow>
      umap_find (lruk_historyValueMap s) i = None"
    unfolding KLruKCache_inv_iff by blast
  have "umap_find (lruk_historyValueMap ?s') i = None"
    if t: "umap_find (lru_nodeMap (lruk_base ?s')) i \<noteq> None" for i
    using KLruKCache_get_cases[of s j]
  proof (elim disjE conjE exE, goal_cases)
    case 1
    from t have "umap_find (lru_nodeMap (lruk_base s)) i \<noteq> None"
      unfolding 1(2) by (simp add: KLruCache_get_nodeMap)
    from J[OF this] show ?case unfolding 1(3) .
  next
    case (2 w)
    have be: "lruk_base ?s' = KLruCache_put (lruk_base s) j w"
      and pe: "lruk_historyValueMap ?s' = umap_erase j (lruk_historyValueMap s)"
      using 2 by - assumption+
    from KLruCache_put_dom[OF t[unfolded be]]
    have "i = j \<or> umap_find (lru_nodeMap (lruk_base s)) i \<noteq> None" .
    with J[of i] show ?case unfolding pe by auto
  next
    case 3
    from J[OF t[unfolded 3(2)]] show ?case unfolding 3(3) .
  qed
  then show ?thesis unfolding KLruKCache_inv_iff by blast
qed

lemma KLruKCache_inv_get_main:
  "KLruKCache_inv s \<Longrightarrow> KLruKCache_inv (fst (KLruKCache_get_main s j))"
  by (simp add: KLruKCache_inv_iff KLruKCache_get_main_frame)

lemma KLruKCache_inv_run: "KLruKCache_inv s \<Longrightarrow> KLruKCache_inv (KLruKCache_run s ops)"
proof (induction ops arbitrary: s)
  case Nil
  then show ?case by simp
next
  case (Cons op ops)
  then show ?case
    by (cases op) (simp_all add: KLruKCache_inv_put KLruKCache_inv_get KLruKCache_inv_get_main)
qed

text \<open>
  After \<^verbatim>\<open>put(k, v)\<close> the main cache and the pending values hold for \<open>k\<close> the value
  \<open>v\<close> or nothing, and one of them holds it; calls that do not put \<open>k\<close> keep the first.
\<close>

lemma KLruKCache_put_first:
  assumes inv: "KLruKCache_inv s" and cap: "0 < lru_capacity (lruk_base s)"
  shows "(KLruCache_value (lruk_base (KLruKCache_put s k v)) k = None
          \<or> KLruCache_value (lruk_base (KLruKCache_put s k v)) k = Some v)
     \<and> (umap_find (lruk_historyValueMap (KLruKCache_put s k v)) k = None
          \<or> umap_find (lruk_historyValueMap (KLruKCache_put s k v)) k = Some v)
     \<and> (KLruCache_value (lruk_base (KLruKCache_put s k v)) k = Some v
          \<or> umap_find (lruk_historyValueMap (KLruKCache_put s k v)) k = Some v)"
  using KLruKCache_put_cases[of s k v]
proof (elim disjE conjE, goal_cases)
  case 1
  have v: "KLruCache_value (lruk_base (KLruKCache_put s k v)) k = Some v"
    unfolding 1(2) by (rule KLruCache_put_stores) (simp add: KLruCache_get_capacity cap)
  from inv 1(1) have "umap_find (lruk_historyValueMap s) k = None"
    unfolding KLruKCache_inv_iff by blast
  with v show ?case by (simp add: 1(3))
next
  case 2
  have v: "KLruCache_value (lruk_base (KLruKCache_put s k v)) k = Some v"
    unfolding 2(2) by (rule KLruCache_put_stores[OF cap])
  then show ?case by (simp add: 2(3))
next
  case 3
  then show ?case by (simp add: KLruCache_value_def)
qed

lemma KLruKCache_put_keeps:
  assumes jk: "k \<noteq> j"
    and V: "KLruCache_value (lruk_base s) k = None \<or> KLruCache_value (lruk_base s) k = Some v"
    and P: "umap_find (lruk_historyValueMap s) k = None
            \<or> umap_find (lruk_historyValueMap s) k = Some v"
  shows "(KLruCache_value (lruk_base (KLruKCache_put s j w)) k = None
          \<or> KLruCache_value (lruk_base (KLruKCache_put s j w)) k = Some v)
     \<and> (umap_find (lruk_historyValueMap (KLruKCache_put s j w)) k = None
          \<or> umap_find (lruk_historyValueMap (KLruKCache_put s j w)) k = Some v)"
proof -
  have o: "KLruCache_value (KLruCache_put m j w) k = None
      \<or> KLruCache_value (KLruCache_put m j w) k = KLruCache_value m k" for m :: "('a, 'b) KLruCache"
    using KLruCache_put_other[OF jk, of m w] by (auto simp: KLruCache_value_def)
  have g: "KLruCache_value (fst (KLruCache_get (lruk_base s) j)) k = KLruCache_value (lruk_base s) k"
    by (simp add: KLruCache_value_def KLruCache_get_nodeMap)
  from KLruKCache_put_cases[of s j w] show ?thesis
  proof (elim disjE conjE, goal_cases)
    case 1
    from o[of "fst (KLruCache_get (lruk_base s) j)"] V P show ?case
      unfolding 1(2) 1(3) g by auto
  next
    case 2
    from o[of "lruk_base s"] V P jk show ?case unfolding 2(2) 2(3) by auto
  next
    case 3
    from V P jk show ?case unfolding 3(2) 3(3) by simp
  qed
qed

lemma KLruKCache_get_keeps:
  assumes V: "KLruCache_value (lruk_base s) k = None \<or> KLruCache_value (lruk_base s) k = Some v"
    and P: "umap_find (lruk_historyValueMap s) k = None
            \<or> umap_find (lruk_historyValueMap s) k = Some v"
  shows "(KLruCache_value (lruk_base (fst (KLruKCache_get s j))) k = None
          \<or> KLruCache_value (lruk_base (fst (KLruKCache_get s j))) k = Some v)
     \<and> (umap_find (lruk_historyValueMap (fst (KLruKCache_get s j))) k = None
          \<or> umap_find (lruk_historyValueMap (fst (KLruKCache_get s j))) k = Some v)"
  using KLruKCache_get_cases[of s j]
proof (elim disjE conjE exE, goal_cases)
  case 1
  from V P show ?case
    unfolding 1(2) 1(3) by (simp add: KLruCache_value_def KLruCache_get_nodeMap)
next
  case (2 w)
  have pw: "umap_find (lruk_historyValueMap s) j = Some w"
    and be: "lruk_base (fst (KLruKCache_get s j)) = KLruCache_put (lruk_base s) j w"
    and pe: "lruk_historyValueMap (fst (KLruKCache_get s j)) = umap_erase j (lruk_historyValueMap s)"
    using 2 by - assumption+
  have v: "KLruCache_value (KLruCache_put (lruk_base s) j w) k = None
      \<or> KLruCache_value (KLruCache_put (lruk_base s) j w) k = Some v"
  proof (cases "k = j")
    case True
    from pw P True have wv: "w = v" by auto
    show ?thesis
    proof (cases "0 < lru_capacity (lruk_base s)")
      case True2: True
      from KLruCache_put_stores[OF True2, of j w] True wv show ?thesis by simp
    next
      case False
      then have "KLruCache_put (lruk_base s) j w = lruk_base s" by (simp add: KLruCache_put_def)
      with V show ?thesis by simp
    qed
  next
    case False
    from KLruCache_put_other[OF False, of "lruk_base s" w] V show ?thesis
      by (auto simp: KLruCache_value_def)
  qed
  with P show ?case unfolding be pe by auto
next
  case 3
  from V P show ?case unfolding 3(2) 3(3) by simp
qed

lemma KLruKCache_get_main_keeps:
  assumes V: "KLruCache_value (lruk_base s) k = None \<or> KLruCache_value (lruk_base s) k = Some v"
    and P: "umap_find (lruk_historyValueMap s) k = None
            \<or> umap_find (lruk_historyValueMap s) k = Some v"
  shows "(KLruCache_value (lruk_base (fst (KLruKCache_get_main s j))) k = None
          \<or> KLruCache_value (lruk_base (fst (KLruKCache_get_main s j))) k = Some v)
     \<and> (umap_find (lruk_historyValueMap (fst (KLruKCache_get_main s j))) k = None
          \<or> umap_find (lruk_historyValueMap (fst (KLruKCache_get_main s j))) k = Some v)"
  using assms by (simp add: KLruCache_value_def KLruKCache_get_main_frame)

lemma KLruKCache_run_keeps:
  assumes "\<forall>w. Put k w \<notin> set ops"
    and "KLruCache_value (lruk_base s) k = None \<or> KLruCache_value (lruk_base s) k = Some v"
    and "umap_find (lruk_historyValueMap s) k = None
            \<or> umap_find (lruk_historyValueMap s) k = Some v"
  shows "(KLruCache_value (lruk_base (KLruKCache_run s ops)) k = None
          \<or> KLruCache_value (lruk_base (KLruKCache_run s ops)) k = Some v)
     \<and> (umap_find (lruk_historyValueMap (KLruKCache_run s ops)) k = None
          \<or> umap_find (lruk_historyValueMap (KLruKCache_run s ops)) k = Some v)"
  using assms
proof (induction ops arbitrary: s)
  case Nil
  then show ?case by simp
next
  case (Cons op ops)
  then have n: "\<forall>w. Put k w \<notin> set ops" by auto
  show ?case
  proof (cases op)
    case (Put j w)
    with Cons.prems(1) have jk: "k \<noteq> j" by auto
    from KLruKCache_put_keeps[OF jk Cons.prems(2) Cons.prems(3), of w]
    have h: "KLruCache_value (lruk_base (KLruKCache_put s j w)) k = None
          \<or> KLruCache_value (lruk_base (KLruKCache_put s j w)) k = Some v"
      "umap_find (lruk_historyValueMap (KLruKCache_put s j w)) k = None
          \<or> umap_find (lruk_historyValueMap (KLruKCache_put s j w)) k = Some v"
      by blast+
    from Cons.IH[OF n h] Put show ?thesis by simp
  next
    case (Get j)
    from KLruKCache_get_keeps[OF Cons.prems(2) Cons.prems(3), of j]
    have h: "KLruCache_value (lruk_base (fst (KLruKCache_get s j))) k = None
          \<or> KLruCache_value (lruk_base (fst (KLruKCache_get s j))) k = Some v"
      "umap_find (lruk_historyValueMap (fst (KLruKCache_get s j))) k = None
          \<or> umap_find (lruk_historyValueMap (fst (KLruKCache_get s j))) k = Some v"
      by blast+
    from Cons.IH[OF n h] Get show ?thesis by simp
  next
    case (GetMain j)
    from KLruKCache_get_main_keeps[OF Cons.prems(2) Cons.prems(3), of j]
    have h: "KLruCache_value (lruk_base (fst (KLruKCache_get_main s j))) k = None
          \<or> KLruCache_value (lruk_base (fst (KLruKCache_get_main s j))) k = Some v"
      "umap_find (lruk_historyValueMap (fst (KLruKCache_get_main s j))) k = None
          \<or> umap_find (lruk_historyValueMap (fst (KLruKCache_get_main s j))) k = Some v"
      by blast+
    from Cons.IH[OF n h] GetMain show ?thesis by simp
  qed
qed

section \<open>The value returned after a put: KArcCache\<close>

lemma ArcLruPart_evict_value:
  "ArcLruPart_value (ArcLruPart_evictLeastRecent s) k = None
   \<or> ArcLruPart_value (ArcLruPart_evictLeastRecent s) k = ArcLruPart_value s k"
  by (simp add: ArcLruPart_value_def ArcLruPart_evict_frame)

lemma ArcLruPart_put_value:
  "0 < alru_capacity s \<Longrightarrow> ArcLruPart_value (fst (ArcLruPart_put s k v)) k = Some v"
  by (simp add: ArcLruPart_value_def ArcLruPart_put_def ArcLruPart_updateExistingNode_def
      ArcLruPart_addNewNode_def ArcLruPart_moveToFront_def ArcLruPart_addToFront_def Let_def
      split: option.splits)

lemma ArcLruPart_put_other:
  assumes "k \<noteq> j"
  shows "ArcLruPart_value (fst (ArcLruPart_put s j w)) k = None
   \<or> ArcLruPart_value (fst (ArcLruPart_put s j w)) k = ArcLruPart_value s k"
proof (cases "alru_capacity s = 0")
  case True
  then show ?thesis by (simp add: ArcLruPart_put_def)
next
  case False
  show ?thesis
  proof (cases "umap_find (alru_mainCache s) j")
    case (Some node)
    with False assms show ?thesis
      by (simp add: ArcLruPart_value_def ArcLruPart_put_def ArcLruPart_updateExistingNode_def
          ArcLruPart_moveToFront_def ArcLruPart_addToFront_def)
  next
    case None
    with False assms ArcLruPart_evict_value[of s k] show ?thesis
      by (auto simp: ArcLruPart_value_def ArcLruPart_put_def ArcLruPart_addNewNode_def
          ArcLruPart_addToFront_def Let_def)
  qed
qed

lemma ArcLruPart_get_value:
  "ArcLruPart_value (fst (ArcLruPart_get s j)) k = ArcLruPart_value s k"
  "fst (snd (ArcLruPart_get s j)) = ArcLruPart_value s j"
  by (auto simp: ArcLruPart_value_def ArcLruPart_get_def ArcLruPart_updateNodeAccess_def
      ArcLruPart_moveToFront_def ArcLruPart_addToFront_def Let_def split: option.splits)

lemma ArcLruPart_decrease_value:
  "ArcLruPart_value (fst (ArcLruPart_decreaseCapacity s)) k = None
   \<or> ArcLruPart_value (fst (ArcLruPart_decreaseCapacity s)) k = ArcLruPart_value s k"
  using ArcLruPart_evict_value[of s k]
  by (auto simp: ArcLruPart_decreaseCapacity_def Let_def ArcLruPart_value_def)

lemma ArcLfuPart_evict_value:
  "ArcLfuPart_value (ArcLfuPart_evictLeastFrequent s) k = None
   \<or> ArcLfuPart_value (ArcLfuPart_evictLeastFrequent s) k = ArcLfuPart_value s k"
  by (simp add: ArcLfuPart_value_def ArcLfuPart_evictLeastFrequent_def ArcLfuPart_addToGhost_def
      ArcLfuPart_removeOldestGhost_def Let_def split: list.splits)

lemma ArcLfuPart_put_value:
  "0 < alfu_capacity s \<Longrightarrow> ArcLfuPart_value (fst (ArcLfuPart_put s k v)) k = Some v"
  by (simp add: ArcLfuPart_value_def ArcLfuPart_put_stores)

lemma ArcLfuPart_put_other:
  assumes "k \<noteq> j"
  shows "ArcLfuPart_value (fst (ArcLfuPart_put s j w)) k = None
   \<or> ArcLfuPart_value (fst (ArcLfuPart_put s j w)) k = ArcLfuPart_value s k"
proof (cases "alfu_capacity s = 0")
  case True
  then show ?thesis by (simp add: ArcLfuPart_put_def)
next
  case False
  show ?thesis
  proof (cases "umap_find (alfu_mainCache s) j")
    case (Some node)
    with False assms show ?thesis
      by (simp add: ArcLfuPart_value_def ArcLfuPart_put_def ArcLfuPart_updateExistingNode_def
          ArcLfuPart_updateNodeFrequency_frame)
  next
    case None
    with False assms ArcLfuPart_evict_value[of s k] show ?thesis
      by (auto simp: ArcLfuPart_value_def ArcLfuPart_put_def ArcLfuPart_addNewNode_def Let_def)
  qed
qed

lemma ArcLfuPart_get_value:
  "ArcLfuPart_value (fst (ArcLfuPart_get s j)) k = ArcLfuPart_value s k"
  "snd (ArcLfuPart_get s j) = ArcLfuPart_value s j"
  by (auto simp: ArcLfuPart_value_def ArcLfuPart_get_def ArcLfuPart_updateNodeFrequency_frame
      split: option.splits)

lemma ArcLfuPart_decrease_value:
  "ArcLfuPart_value (fst (ArcLfuPart_decreaseCapacity s)) k = None
   \<or> ArcLfuPart_value (fst (ArcLfuPart_decreaseCapacity s)) k = ArcLfuPart_value s k"
  using ArcLfuPart_evict_value[of s k]
  by (auto simp: ArcLfuPart_decreaseCapacity_def Let_def ArcLfuPart_value_def)

lemma KArcCache_checkGhostCaches_value:
  "(ArcLruPart_value (arc_lruPart (fst (KArcCache_checkGhostCaches s j))) k = None
     \<or> ArcLruPart_value (arc_lruPart (fst (KArcCache_checkGhostCaches s j))) k =
         ArcLruPart_value (arc_lruPart s) k)
   \<and> (ArcLfuPart_value (arc_lfuPart (fst (KArcCache_checkGhostCaches s j))) k = None
     \<or> ArcLfuPart_value (arc_lfuPart (fst (KArcCache_checkGhostCaches s j))) k =
         ArcLfuPart_value (arc_lfuPart s) k)"
proof -
  consider (lru) "umap_find (alru_ghostCache (arc_lruPart s)) j \<noteq> None"
    | (lfu) "umap_find (alru_ghostCache (arc_lruPart s)) j = None"
            "umap_find (alfu_ghostCache (arc_lfuPart s)) j \<noteq> None"
    | (none) "umap_find (alru_ghostCache (arc_lruPart s)) j = None"
            "umap_find (alfu_ghostCache (arc_lfuPart s)) j = None"
    by blast
  then show ?thesis
  proof cases
    case lru
    have l: "ArcLruPart_value (arc_lruPart (fst (KArcCache_checkGhostCaches s j))) k =
         ArcLruPart_value (arc_lruPart s) k"
      unfolding KArcCache_checkGhostCaches_lru(2)[OF lru]
      by (simp add: ArcLruPart_value_def ArcLruPart_increase_frame ArcLruPart_checkGhost_frame)
    with ArcLfuPart_decrease_value[of "arc_lfuPart s" k] show ?thesis
      unfolding KArcCache_checkGhostCaches_lru(1)[OF lru] by simp
  next
    case lfu
    have l: "ArcLfuPart_value (arc_lfuPart (fst (KArcCache_checkGhostCaches s j))) k =
         ArcLfuPart_value (arc_lfuPart s) k"
      unfolding KArcCache_checkGhostCaches_lfu(2)[OF lfu]
      by (simp add: ArcLfuPart_value_def ArcLfuPart_increase_frame ArcLfuPart_checkGhost_frame)
    with ArcLruPart_decrease_value[of "arc_lruPart s" k] show ?thesis
      unfolding KArcCache_checkGhostCaches_lfu(1)[OF lfu] by simp
  next
    case none
    then show ?thesis by (simp add: KArcCache_checkGhostCaches_none)
  qed
qed

text \<open>What \<^verbatim>\<open>get\<close> returns, in terms of the state after its ghost step.\<close>

lemma KArcCache_get_result:
  "snd (KArcCache_get s k) =
     (case ArcLruPart_value (arc_lruPart (fst (KArcCache_checkGhostCaches s k))) k of
        Some x \<Rightarrow> Some x
      | None \<Rightarrow> ArcLfuPart_value (arc_lfuPart (fst (KArcCache_checkGhostCaches s k))) k)"
  by (simp add: KArcCache_get_eq Let_def ArcLruPart_value_def ArcLfuPart_get_value
      split: option.splits)

lemma KArcCache_put_keeps:
  assumes jk: "k \<noteq> j"
    and V: "ArcLruPart_value (arc_lruPart s) k = None \<or> ArcLruPart_value (arc_lruPart s) k = Some v"
    and P: "ArcLfuPart_value (arc_lfuPart s) k = None \<or> ArcLfuPart_value (arc_lfuPart s) k = Some v"
  shows "(ArcLruPart_value (arc_lruPart (KArcCache_put s j w)) k = None
          \<or> ArcLruPart_value (arc_lruPart (KArcCache_put s j w)) k = Some v)
     \<and> (ArcLfuPart_value (arc_lfuPart (KArcCache_put s j w)) k = None
          \<or> ArcLfuPart_value (arc_lfuPart (KArcCache_put s j w)) k = Some v)"
proof -
  define s1 where "s1 = fst (KArcCache_checkGhostCaches s j)"
  from KArcCache_checkGhostCaches_value[of s j k] V P
  have V1: "ArcLruPart_value (arc_lruPart s1) k = None \<or> ArcLruPart_value (arc_lruPart s1) k = Some v"
    and P1: "ArcLfuPart_value (arc_lfuPart s1) k = None \<or> ArcLfuPart_value (arc_lfuPart s1) k = Some v"
    unfolding s1_def by auto
  from ArcLruPart_put_other[OF jk, of "arc_lruPart s1" w] V1
  have a: "ArcLruPart_value (fst (ArcLruPart_put (arc_lruPart s1) j w)) k = None
    \<or> ArcLruPart_value (fst (ArcLruPart_put (arc_lruPart s1) j w)) k = Some v" by auto
  from ArcLfuPart_put_other[OF jk, of "arc_lfuPart s1" w] P1
  have b: "ArcLfuPart_value (fst (ArcLfuPart_put (arc_lfuPart s1) j w)) k = None
    \<or> ArcLfuPart_value (fst (ArcLfuPart_put (arc_lfuPart s1) j w)) k = Some v" by auto
  from a b P1 show ?thesis
    unfolding KArcCache_put_eq Let_def s1_def[symmetric] by simp
qed

lemma KArcCache_get_keeps:
  assumes V: "ArcLruPart_value (arc_lruPart s) k = None \<or> ArcLruPart_value (arc_lruPart s) k = Some v"
    and P: "ArcLfuPart_value (arc_lfuPart s) k = None \<or> ArcLfuPart_value (arc_lfuPart s) k = Some v"
  shows "(ArcLruPart_value (arc_lruPart (fst (KArcCache_get s j))) k = None
          \<or> ArcLruPart_value (arc_lruPart (fst (KArcCache_get s j))) k = Some v)
     \<and> (ArcLfuPart_value (arc_lfuPart (fst (KArcCache_get s j))) k = None
          \<or> ArcLfuPart_value (arc_lfuPart (fst (KArcCache_get s j))) k = Some v)"
proof -
  define s1 where "s1 = fst (KArcCache_checkGhostCaches s j)"
  from KArcCache_checkGhostCaches_value[of s j k] V P
  have V1: "ArcLruPart_value (arc_lruPart s1) k = None \<or> ArcLruPart_value (arc_lruPart s1) k = Some v"
    and P1: "ArcLfuPart_value (arc_lfuPart s1) k = None \<or> ArcLfuPart_value (arc_lfuPart s1) k = Some v"
    unfolding s1_def by auto
  have b: "ArcLfuPart_value (fst (ArcLfuPart_put (arc_lfuPart s1) j (anode_value node))) k = None
    \<or> ArcLfuPart_value (fst (ArcLfuPart_put (arc_lfuPart s1) j (anode_value node))) k = Some v"
    if n: "umap_find (alru_mainCache (arc_lruPart s1)) j = Some node" for node
  proof (cases "k = j")
    case False
    from ArcLfuPart_put_other[OF False, of "arc_lfuPart s1" "anode_value node"] P1
    show ?thesis by auto
  next
    case True
    with n V1 have nv: "anode_value node = v" by (auto simp: ArcLruPart_value_def)
    show ?thesis
    proof (cases "alfu_capacity (arc_lfuPart s1) = 0")
      case True
      with P1 show ?thesis by (simp add: ArcLfuPart_put_zero)
    next
      case False
      then have "0 < alfu_capacity (arc_lfuPart s1)" by simp
      from ArcLfuPart_put_value[OF this, of j v] \<open>k = j\<close> nv show ?thesis by simp
    qed
  qed
  show ?thesis
    unfolding KArcCache_get_eq Let_def s1_def[symmetric]
    using V1 P1 b
    by (cases "umap_find (alru_mainCache (arc_lruPart s1)) j")
       (simp_all add: ArcLruPart_get_value ArcLfuPart_get_value)
qed

lemma KArcCache_run_keeps:
  assumes "\<forall>w. Put k w \<notin> set ops"
    and "ArcLruPart_value (arc_lruPart s) k = None \<or> ArcLruPart_value (arc_lruPart s) k = Some v"
    and "ArcLfuPart_value (arc_lfuPart s) k = None \<or> ArcLfuPart_value (arc_lfuPart s) k = Some v"
  shows "(ArcLruPart_value (arc_lruPart (KArcCache_run s ops)) k = None
          \<or> ArcLruPart_value (arc_lruPart (KArcCache_run s ops)) k = Some v)
     \<and> (ArcLfuPart_value (arc_lfuPart (KArcCache_run s ops)) k = None
          \<or> ArcLfuPart_value (arc_lfuPart (KArcCache_run s ops)) k = Some v)"
  using assms
proof (induction ops arbitrary: s)
  case Nil
  then show ?case by simp
next
  case (Cons op ops)
  then have n: "\<forall>w. Put k w \<notin> set ops" by auto
  show ?case
  proof (cases op)
    case (Put j w)
    with Cons.prems(1) have jk: "k \<noteq> j" by auto
    from KArcCache_put_keeps[OF jk Cons.prems(2) Cons.prems(3), of w]
    have h: "ArcLruPart_value (arc_lruPart (KArcCache_put s j w)) k = None
          \<or> ArcLruPart_value (arc_lruPart (KArcCache_put s j w)) k = Some v"
      "ArcLfuPart_value (arc_lfuPart (KArcCache_put s j w)) k = None
          \<or> ArcLfuPart_value (arc_lfuPart (KArcCache_put s j w)) k = Some v"
      by blast+
    from Cons.IH[OF n h] Put show ?thesis by simp
  next
    case (Get j)
    from KArcCache_get_keeps[OF Cons.prems(2) Cons.prems(3), of j]
    have h: "ArcLruPart_value (arc_lruPart (fst (KArcCache_get s j))) k = None
          \<or> ArcLruPart_value (arc_lruPart (fst (KArcCache_get s j))) k = Some v"
      "ArcLfuPart_value (arc_lfuPart (fst (KArcCache_get s j))) k = None
          \<or> ArcLfuPart_value (arc_lfuPart (fst (KArcCache_get s j))) k = Some v"
      by blast+
    from Cons.IH[OF n h] Get show ?thesis by simp
  next
    case (GetMain j)
    from KArcCache_get_keeps[OF Cons.prems(2) Cons.prems(3), of j]
    have h: "ArcLruPart_value (arc_lruPart (fst (KArcCache_get s j))) k = None
          \<or> ArcLruPart_value (arc_lruPart (fst (KArcCache_get s j))) k = Some v"
      "ArcLfuPart_value (arc_lfuPart (fst (KArcCache_get s j))) k = None
          \<or> ArcLfuPart_value (arc_lfuPart (fst (KArcCache_get s j))) k = Some v"
      by blast+
    from Cons.IH[OF n h] GetMain show ?thesis by simp
  qed
qed

text \<open>
  \<^verbatim>\<open>put(k, v)\<close> on a state within its bounds: each part holds \<open>v\<close> or nothing for \<open>k\<close>,
  and the LRU part holds \<open>v\<close> when its capacity after the ghost step is positive.
\<close>

lemma KArcCache_put_first:
  assumes b: "KArcCache_bounded s"
  shows "(ArcLruPart_value (arc_lruPart (KArcCache_put s k v)) k = None
          \<or> ArcLruPart_value (arc_lruPart (KArcCache_put s k v)) k = Some v)
     \<and> (ArcLfuPart_value (arc_lfuPart (KArcCache_put s k v)) k = None
          \<or> ArcLfuPart_value (arc_lfuPart (KArcCache_put s k v)) k = Some v)
     \<and> (0 < alru_capacity (arc_lruPart (fst (KArcCache_checkGhostCaches s k))) \<longrightarrow>
          ArcLruPart_value (arc_lruPart (KArcCache_put s k v)) k = Some v)"
proof -
  define s1 where "s1 = fst (KArcCache_checkGhostCaches s k)"
  have b1: "KArcCache_bounded s1"
    unfolding s1_def by (rule KArcCache_bounded_checkGhostCaches[OF b])
  then have ll: "umap_size (alru_mainCache (arc_lruPart s1)) \<le> alru_capacity (arc_lruPart s1)"
    and lm: "umap_size (alfu_mainCache (arc_lfuPart s1)) \<le> alfu_capacity (arc_lfuPart s1)"
    by (simp_all add: KArcCache_bounded_def)
  have l: "ArcLruPart_value (fst (ArcLruPart_put (arc_lruPart s1) k v)) k =
      (if 0 < alru_capacity (arc_lruPart s1) then Some v else None)"
  proof (cases "0 < alru_capacity (arc_lruPart s1)")
    case True
    then show ?thesis by (simp add: ArcLruPart_put_value)
  next
    case False
    with ll have "alru_mainCache (arc_lruPart s1) = []" by simp
    with False show ?thesis by (simp add: ArcLruPart_put_def ArcLruPart_value_def)
  qed
  have m: "ArcLfuPart_value (fst (ArcLfuPart_put (arc_lfuPart s1) k v)) k = Some v"
    if "umap_find (alfu_mainCache (arc_lfuPart s1)) k \<noteq> None"
  proof -
    from that have "alfu_mainCache (arc_lfuPart s1) \<noteq> []" by auto
    then have "0 < umap_size (alfu_mainCache (arc_lfuPart s1))"
      by (cases "umap_size (alfu_mainCache (arc_lfuPart s1))") auto
    with lm have "0 < alfu_capacity (arc_lfuPart s1)" by linarith
    then show ?thesis by (rule ArcLfuPart_put_value)
  qed
  show ?thesis
    unfolding KArcCache_put_eq Let_def s1_def[symmetric]
    using l m by (auto simp: ArcLfuPart_value_def)
qed

section \<open>The value returned after a put: the four caches\<close>

lemma KLfuCache_put_run_get:
  assumes safe: "KLfuCache_safe s" and cap: "lfu_capacity s \<noteq> 0"
    and n: "\<forall>w. Put k w \<notin> set ops"
  shows "\<exists>s1 s2 s3 s4. KLfuCache_put s k v = Some s1 \<and> KLfuCache_get s1 k = Some (s4, Some v)
     \<and> KLfuCache_run s1 ops = Some s2
     \<and> KLfuCache_get s2 k =
         Some (s3, if umap_find (lfu_nodeMap s2) k \<noteq> None then Some v else None)"
proof -
  from KLfuCache_put_safe[OF safe, of k v] cap obtain s1 where
    p: "KLfuCache_put s k v = Some s1" and s1: "KLfuCache_safe s1"
    and v1: "KLfuCache_value s1 k = Some v" by blast
  from KLfuCache_get_safe[OF s1, of k] obtain s4 where
    g1: "KLfuCache_get s1 k = Some (s4, KLfuCache_value s1 k)" by blast
  from KLfuCache_run_safe[OF s1, of ops k] n obtain s2 where
    r: "KLfuCache_run s1 ops = Some s2" and s2: "KLfuCache_safe s2"
    and v2: "KLfuCache_value s2 k = None \<or> KLfuCache_value s2 k = KLfuCache_value s1 k"
    by blast
  from KLfuCache_get_safe[OF s2, of k] obtain s3 where
    g: "KLfuCache_get s2 k = Some (s3, KLfuCache_value s2 k)" by blast
  from v2 v1 have "KLfuCache_value s2 k =
      (if umap_find (lfu_nodeMap s2) k \<noteq> None then Some v else None)"
    by (auto simp: KLfuCache_value_def)
  with p r g g1 v1 show ?thesis by auto
qed

text \<open>
  C1, as the source has it. \<open>s2\<close> is the state after \<^verbatim>\<open>put(k, v)\<close> and any calls that do
  not put \<open>k\<close>; the \<^verbatim>\<open>get(k)\<close> that follows never returns an older value.
  \<^item> KLruCache of positive capacity: it returns \<open>v\<close> if \<open>k\<close> is still in the index and
    nothing otherwise.
  \<^item> KLfuCache of capacity other than 0, from a safe state: the same, and no call is
    undefined.
  \<^item> KLruKCache of positive main capacity, from a state in which no key of the main
    cache is pending: it returns \<open>v\<close> if \<open>k\<close> is in the main cache, or if \<open>k\<close> is
    pending and this access brings the history count of \<open>k\<close> to \<open>k_\<close> or more; it
    returns nothing otherwise, so a \<^verbatim>\<open>put\<close> of a key that is not admitted is not
    followed by a hit until the count is reached.
  \<^item> KArcCache, from a state within its bounds: it returns \<open>v\<close> if, after the ghost
    step of this \<^verbatim>\<open>get\<close>, \<open>k\<close> is in the LRU part or in the LFU part, and nothing
    otherwise. On a fresh cache of positive capacity \<^verbatim>\<open>put(k, v)\<close> and then \<^verbatim>\<open>get(k)\<close>
    returns \<open>v\<close>.
\<close>

theorem C1_put_get_coherence:
  "(0 < lru_capacity s \<and> (\<forall>w. Put k w \<notin> set ops) \<longrightarrow>
      snd (KLruCache_get (KLruCache_put s k v) k) = Some v
    \<and> (let s2 = KLruCache_run (KLruCache_put s k v) ops in
         snd (KLruCache_get s2 k) =
           (if umap_find (lru_nodeMap s2) k \<noteq> None then Some v else None)))
   \<and> (KLfuCache_safe fs \<and> lfu_capacity fs \<noteq> 0 \<and> (\<forall>w. Put fk w \<notin> set fops) \<longrightarrow>
      (\<exists>s1 s2 s3 s4. KLfuCache_put fs fk fv = Some s1
         \<and> KLfuCache_get s1 fk = Some (s4, Some fv)
         \<and> KLfuCache_run s1 fops = Some s2
         \<and> KLfuCache_get s2 fk =
             Some (s3, if umap_find (lfu_nodeMap s2) fk \<noteq> None then Some fv else None)))
   \<and> (KLruKCache_inv ks \<and> 0 < lru_capacity (lruk_base ks) \<and> (\<forall>w. Put kk w \<notin> set kops) \<longrightarrow>
      (let s2 = KLruKCache_run (KLruKCache_put ks kk kv) kops in
         snd (KLruKCache_get s2 kk) =
           (if umap_find (lru_nodeMap (lruk_base s2)) kk \<noteq> None
               \<or> (to_size_t (lruk_k s2) \<le> KLruKCache_historyCount s2 kk + 1
                    \<and> umap_find (lruk_historyValueMap s2) kk \<noteq> None)
            then Some kv else None)))
   \<and> (KArcCache_bounded a \<and> (\<forall>w. Put ak w \<notin> set aops) \<longrightarrow>
      (let s2 = KArcCache_run (KArcCache_put a ak av) aops;
           s3 = fst (KArcCache_checkGhostCaches s2 ak)
       in snd (KArcCache_get s2 ak) =
            (if umap_find (alru_mainCache (arc_lruPart s3)) ak \<noteq> None
                \<or> umap_find (alfu_mainCache (arc_lfuPart s3)) ak \<noteq> None
             then Some av else None)))
   \<and> (0 < C \<longrightarrow> snd (KArcCache_get (KArcCache_put (KArcCache_init C T) ak av) ak) = Some av)"
proof -
  have lru: "snd (KLruCache_get (KLruCache_put s k v) k) = Some v
    \<and> (let s2 = KLruCache_run (KLruCache_put s k v) ops in
         snd (KLruCache_get s2 k) =
           (if umap_find (lru_nodeMap s2) k \<noteq> None then Some v else None))"
    if h: "0 < lru_capacity s \<and> (\<forall>w. Put k w \<notin> set ops)"
  proof -
    from h have st: "KLruCache_value (KLruCache_put s k v) k = Some v"
      by (simp add: KLruCache_put_stores)
    from h KLruCache_run_value[of k ops "KLruCache_put s k v"] st
    have "KLruCache_value (KLruCache_run (KLruCache_put s k v) ops) k = None
      \<or> KLruCache_value (KLruCache_run (KLruCache_put s k v) ops) k = Some v" by auto
    then have "KLruCache_value (KLruCache_run (KLruCache_put s k v) ops) k =
       (if umap_find (lru_nodeMap (KLruCache_run (KLruCache_put s k v) ops)) k \<noteq> None
        then Some v else None)"
      by (auto simp: KLruCache_value_def)
    with st show ?thesis by (simp add: KLruCache_get_value Let_def)
  qed
  have lfu: "\<exists>s1 s2 s3 s4. KLfuCache_put fs fk fv = Some s1
         \<and> KLfuCache_get s1 fk = Some (s4, Some fv)
         \<and> KLfuCache_run s1 fops = Some s2
         \<and> KLfuCache_get s2 fk =
             Some (s3, if umap_find (lfu_nodeMap s2) fk \<noteq> None then Some fv else None)"
    if h: "KLfuCache_safe fs \<and> lfu_capacity fs \<noteq> 0 \<and> (\<forall>w. Put fk w \<notin> set fops)"
    using KLfuCache_put_run_get[of fs fk fops fv] h by blast
  have lruk: "let s2 = KLruKCache_run (KLruKCache_put ks kk kv) kops in
         snd (KLruKCache_get s2 kk) =
           (if umap_find (lru_nodeMap (lruk_base s2)) kk \<noteq> None
               \<or> (to_size_t (lruk_k s2) \<le> KLruKCache_historyCount s2 kk + 1
                    \<and> umap_find (lruk_historyValueMap s2) kk \<noteq> None)
            then Some kv else None)"
    if h: "KLruKCache_inv ks \<and> 0 < lru_capacity (lruk_base ks) \<and> (\<forall>w. Put kk w \<notin> set kops)"
  proof -
    define s2 where "s2 = KLruKCache_run (KLruKCache_put ks kk kv) kops"
    from h have inv: "KLruKCache_inv ks" and cap: "0 < lru_capacity (lruk_base ks)"
      and n: "\<forall>w. Put kk w \<notin> set kops" by simp_all
    from KLruKCache_put_first[OF inv cap, of kk kv]
    have f: "KLruCache_value (lruk_base (KLruKCache_put ks kk kv)) kk = None
          \<or> KLruCache_value (lruk_base (KLruKCache_put ks kk kv)) kk = Some kv"
      "umap_find (lruk_historyValueMap (KLruKCache_put ks kk kv)) kk = None
          \<or> umap_find (lruk_historyValueMap (KLruKCache_put ks kk kv)) kk = Some kv"
      by blast+
    from KLruKCache_run_keeps[OF n f]
    have V: "KLruCache_value (lruk_base s2) kk = None \<or> KLruCache_value (lruk_base s2) kk = Some kv"
      and P: "umap_find (lruk_historyValueMap s2) kk = None
          \<or> umap_find (lruk_historyValueMap s2) kk = Some kv"
      unfolding s2_def by blast+
    have "snd (KLruKCache_get s2 kk) =
           (if umap_find (lru_nodeMap (lruk_base s2)) kk \<noteq> None
               \<or> (to_size_t (lruk_k s2) \<le> KLruKCache_historyCount s2 kk + 1
                    \<and> umap_find (lruk_historyValueMap s2) kk \<noteq> None)
            then Some kv else None)"
      unfolding KLruKCache_get_result using V P
      by (auto simp: KLruCache_value_def split: option.splits)
    then show ?thesis unfolding s2_def Let_def .
  qed
  have arc: "let s2 = KArcCache_run (KArcCache_put a ak av) aops;
           s3 = fst (KArcCache_checkGhostCaches s2 ak)
       in snd (KArcCache_get s2 ak) =
            (if umap_find (alru_mainCache (arc_lruPart s3)) ak \<noteq> None
                \<or> umap_find (alfu_mainCache (arc_lfuPart s3)) ak \<noteq> None
             then Some av else None)"
    if h: "KArcCache_bounded a \<and> (\<forall>w. Put ak w \<notin> set aops)"
  proof -
    from h have b: "KArcCache_bounded a" and n: "\<forall>w. Put ak w \<notin> set aops" by simp_all
    define s2 where "s2 = KArcCache_run (KArcCache_put a ak av) aops"
    define s3 where "s3 = fst (KArcCache_checkGhostCaches s2 ak)"
    from KArcCache_put_first[OF b, of ak av]
    have f: "ArcLruPart_value (arc_lruPart (KArcCache_put a ak av)) ak = None
          \<or> ArcLruPart_value (arc_lruPart (KArcCache_put a ak av)) ak = Some av"
      "ArcLfuPart_value (arc_lfuPart (KArcCache_put a ak av)) ak = None
          \<or> ArcLfuPart_value (arc_lfuPart (KArcCache_put a ak av)) ak = Some av"
      by blast+
    from KArcCache_run_keeps[OF n f]
    have V: "ArcLruPart_value (arc_lruPart s2) ak = None \<or> ArcLruPart_value (arc_lruPart s2) ak = Some av"
      and P: "ArcLfuPart_value (arc_lfuPart s2) ak = None \<or> ArcLfuPart_value (arc_lfuPart s2) ak = Some av"
      unfolding s2_def by blast+
    from KArcCache_checkGhostCaches_value[of s2 ak ak] V P
    have "ArcLruPart_value (arc_lruPart s3) ak = None
          \<or> ArcLruPart_value (arc_lruPart s3) ak = Some av"
      and "ArcLfuPart_value (arc_lfuPart s3) ak = None
          \<or> ArcLfuPart_value (arc_lfuPart s3) ak = Some av"
      unfolding s3_def by auto
    then have "snd (KArcCache_get s2 ak) =
        (if umap_find (alru_mainCache (arc_lruPart s3)) ak \<noteq> None
            \<or> umap_find (alfu_mainCache (arc_lfuPart s3)) ak \<noteq> None
         then Some av else None)"
      unfolding KArcCache_get_result s3_def[symmetric]
      by (auto simp: ArcLruPart_value_def ArcLfuPart_value_def split: option.splits)
    then show ?thesis unfolding s2_def s3_def Let_def .
  qed
  have fresh: "0 < C \<longrightarrow>
      snd (KArcCache_get (KArcCache_put (KArcCache_init C T) ak av) ak) = Some av"
    by (simp add: KArcCache_defs ArcLruPart_defs ArcLfuPart_defs Let_def)
  from lru lfu lruk arc fresh show ?thesis by blast
qed

text \<open>
  The hypotheses of C1 hold of fresh caches of capacity 2 with \<^verbatim>\<open>put(1, a)\<close> followed by
  calls on key 2, and the \<^verbatim>\<open>get(1)\<close> after them returns a.
\<close>

theorem C1_put_get_coherence_witness:
  "0 < lru_capacity (KLruCache_init 2 0 :: (nat, string) KLruCache)
   \<and> (\<forall>w. Put (1::nat) w \<notin> set [Put 2 ''b'', Get 2])
   \<and> snd (KLruCache_get
        (KLruCache_run (KLruCache_put (KLruCache_init 2 0) (1::nat) ''a'') [Put 2 ''b'', Get 2]) 1)
       = Some ''a''
   \<and> KLfuCache_safe (KLfuCache_init 2 10 0 :: (nat, string) KLfuCache)
   \<and> lfu_capacity (KLfuCache_init 2 10 0 :: (nat, string) KLfuCache) \<noteq> 0
   \<and> (\<exists>s1 s4. KLfuCache_put (KLfuCache_init 2 10 0) (1::nat) ''a'' = Some s1
         \<and> KLfuCache_get s1 1 = Some (s4, Some ''a''))
   \<and> KLruKCache_inv (KLruKCache_init 2 10 2 0 :: (nat, string) KLruKCache)
   \<and> 0 < lru_capacity (lruk_base (KLruKCache_init 2 10 2 0 :: (nat, string) KLruKCache))
   \<and> snd (KLruKCache_get
        (KLruKCache_run (KLruKCache_put (KLruKCache_init 2 10 2 0) (1::nat) ''a'') [Get 2]) 1)
       = Some ''a''
   \<and> KArcCache_bounded (KArcCache_init 2 2 :: (nat, string) KArcCache)
   \<and> snd (KArcCache_get
        (KArcCache_run (KArcCache_put (KArcCache_init 2 2) (1::nat) ''a'') [Put 2 ''b'']) 1)
       = Some ''a''"
proof -
  note th = C1_put_get_coherence[of "KLruCache_init 2 0 :: (nat, string) KLruCache" 1
      "[Put 2 ''b'', Get 2]" "''a''"
      "KLfuCache_init 2 10 0 :: (nat, string) KLfuCache" 1 "[Put 2 ''b'', Get 2]" "''a''"
      "KLruKCache_init 2 10 2 0 :: (nat, string) KLruKCache" 1 "[Get 2]" "''a''"
      "KArcCache_init 2 2 :: (nat, string) KArcCache" 1 "[Put 2 ''b'']" "''a''" 1 2, unfolded Let_def]
  have n1: "\<forall>w. Put (1::nat) w \<notin> set [Put 2 ''b'', Get 2 :: (nat, string) cache_op]"
    and n2: "\<forall>w. Put (1::nat) w \<notin> set [Get 2 :: (nat, string) cache_op]"
    and n3: "\<forall>w. Put (1::nat) w \<notin> set [Put 2 ''b'' :: (nat, string) cache_op]"
    by simp_all
  have h1: "0 < lru_capacity (KLruCache_init 2 0 :: (nat, string) KLruCache)"
    by (simp add: KLruCache_init_def)
  have h2: "KLfuCache_safe (KLfuCache_init 2 10 0 :: (nat, string) KLfuCache)"
    by (rule KLfuCache_safe_init) simp_all
  have h3: "lfu_capacity (KLfuCache_init 2 10 0 :: (nat, string) KLfuCache) \<noteq> 0"
    by (simp add: KLfuCache_init_def)
  have h4: "KLruKCache_inv (KLruKCache_init 2 10 2 0 :: (nat, string) KLruKCache)"
    by (rule KLruKCache_inv_init)
  have h5: "0 < lru_capacity (lruk_base (KLruKCache_init 2 10 2 0 :: (nat, string) KLruKCache))"
    by (simp add: KLruKCache_init_def KLruCache_init_def)
  have h6: "KArcCache_bounded (KArcCache_init 2 2 :: (nat, string) KArcCache)"
    by (rule KArcCache_bounded_init)
  have c1: "umap_find (lru_nodeMap
      (KLruCache_run (KLruCache_put (KLruCache_init 2 0) (1::nat) ''a'') [Put 2 ''b'', Get 2])) 1 \<noteq> None"
    by code_simp
  have c3: "umap_find (lru_nodeMap (lruk_base
      (KLruKCache_run (KLruKCache_put (KLruKCache_init 2 10 2 0) (1::nat) ''a'') [Get 2]))) 1 \<noteq> None
    \<or> (to_size_t (lruk_k (KLruKCache_run (KLruKCache_put (KLruKCache_init 2 10 2 0) (1::nat) ''a'') [Get 2]))
          \<le> KLruKCache_historyCount
               (KLruKCache_run (KLruKCache_put (KLruKCache_init 2 10 2 0) (1::nat) ''a'') [Get 2]) 1 + 1
        \<and> umap_find (lruk_historyValueMap
             (KLruKCache_run (KLruKCache_put (KLruKCache_init 2 10 2 0) (1::nat) ''a'') [Get 2])) 1 \<noteq> None)"
    by code_simp
  have c4: "umap_find (alru_mainCache (arc_lruPart (fst (KArcCache_checkGhostCaches
      (KArcCache_run (KArcCache_put (KArcCache_init 2 2) (1::nat) ''a'') [Put 2 ''b'']) 1)))) 1 \<noteq> None"
    by code_simp
  from th[THEN conjunct1] h1 n1 c1
  have r1: "snd (KLruCache_get
        (KLruCache_run (KLruCache_put (KLruCache_init 2 0) (1::nat) ''a'') [Put 2 ''b'', Get 2]) 1)
       = Some ''a''" by simp
  from th[THEN conjunct2, THEN conjunct1] h2 h3 n1
  have r2: "\<exists>s1 s4. KLfuCache_put (KLfuCache_init 2 10 0) (1::nat) ''a'' = Some s1
         \<and> KLfuCache_get s1 1 = Some (s4, Some ''a'')" by blast
  from th[THEN conjunct2, THEN conjunct2, THEN conjunct1] h4 h5 n2 c3
  have r3: "snd (KLruKCache_get
        (KLruKCache_run (KLruKCache_put (KLruKCache_init 2 10 2 0) (1::nat) ''a'') [Get 2]) 1)
       = Some ''a''" by simp
  from th[THEN conjunct2, THEN conjunct2, THEN conjunct2, THEN conjunct1] h6 n3 c4
  have r4: "snd (KArcCache_get
        (KArcCache_run (KArcCache_put (KArcCache_init 2 2) (1::nat) ''a'') [Put 2 ''b'']) 1)
       = Some ''a''" by simp
  from h1 n1 r1 h2 h3 r2 h4 h5 r3 h6 r4 show ?thesis by blast
qed

text \<open>
  C1 as stated fails. On a KLruKCache of capacity 1 with \<open>k = 3\<close>, \<^verbatim>\<open>put(B, 5)\<close> and then
  \<^verbatim>\<open>get(B)\<close> returns nothing: the value is pending and the count is 2. On a KArcCache of
  capacity 1, after \<^verbatim>\<open>put(1,a), get(1), put(2,b), get(2), put(3,c)\<close> the call
  \<^verbatim>\<open>put(1,x)\<close> finds key 1 among the ghosts of the LFU part, which takes the capacity of
  the LRU part to 0, and stores nothing: the \<^verbatim>\<open>get(1)\<close> that follows returns nothing.
\<close>

theorem C1_counterexample:
  "snd (KLruKCache_get
          (KLruKCache_put (KLruKCache_init 1 10 3 [] :: (string, nat) KLruKCache) ''B'' 5) ''B'')
     = None
   \<and> snd (KArcCache_get
          (KArcCache_run (KArcCache_init 1 2 :: (nat, string) KArcCache)
             [Put 1 ''a'', Get 1, Put 2 ''b'', Get 2, Put 3 ''c'', Put 1 ''x'']) 1)
     = None"
  by code_simp

section \<open>KLfuCache: the lists and the map agree\<close>

lemma KLfuCache_bucket_Some:
  "umap_find (lfu_freqToFreqList s) f = Some ks \<Longrightarrow> KLfuCache_bucket s f = ks"
  by (simp add: KLfuCache_bucket_def)

lemma KLfuCache_bucket_mem:
  "k \<in> set (KLfuCache_bucket s f) \<Longrightarrow>
     \<exists>ks. umap_find (lfu_freqToFreqList s) f = Some ks \<and> k \<in> set ks"
  by (cases "umap_find (lfu_freqToFreqList s) f") (auto simp: KLfuCache_bucket_def)

lemma KLfuCache_linked_iff:
  "KLfuCache_linked s \<longleftrightarrow>
     (\<forall>k node. umap_find (lfu_nodeMap s) k = Some node \<longrightarrow>
        k \<in> set (KLfuCache_bucket s (fnode_freq node)))
     \<and> (\<forall>f. distinct (KLfuCache_bucket s f)
          \<and> (\<forall>k \<in> set (KLfuCache_bucket s f).
                \<exists>node. umap_find (lfu_nodeMap s) k = Some node \<and> fnode_freq node = f))"
  (is "_ \<longleftrightarrow> ?A \<and> ?B")
proof -
  have a: "list_all (\<lambda>k. case umap_find (lfu_nodeMap s) k of
                       None \<Rightarrow> True
                     | Some node \<Rightarrow> k \<in> set (KLfuCache_bucket s (fnode_freq node)))
               (umap_keys (lfu_nodeMap s)) \<longleftrightarrow> ?A"
    by (auto simp: list_all_iff set_umap_keys split: option.splits)
  have b: "list_all (\<lambda>f. distinct (KLfuCache_bucket s f)
                        \<and> list_all (\<lambda>k. case umap_find (lfu_nodeMap s) k of
                                            None \<Rightarrow> False
                                          | Some node \<Rightarrow> fnode_freq node = f)
                                     (KLfuCache_bucket s f))
                 (umap_keys (lfu_freqToFreqList s)) \<longleftrightarrow> ?B"
    unfolding list_all_iff set_umap_keys case_node_iff
  proof
    assume l: "\<forall>f\<in>dom (umap_find (lfu_freqToFreqList s)).
       distinct (KLfuCache_bucket s f) \<and>
       (\<forall>k\<in>set (KLfuCache_bucket s f).
           \<exists>node. umap_find (lfu_nodeMap s) k = Some node \<and> fnode_freq node = f)"
    show ?B
    proof
      fix f
      show "distinct (KLfuCache_bucket s f) \<and>
       (\<forall>k\<in>set (KLfuCache_bucket s f).
           \<exists>node. umap_find (lfu_nodeMap s) k = Some node \<and> fnode_freq node = f)"
      proof (cases "umap_find (lfu_freqToFreqList s) f")
        case None
        then show ?thesis by (simp add: KLfuCache_bucket_def)
      next
        case (Some ks)
        then have "f \<in> dom (umap_find (lfu_freqToFreqList s))" by auto
        with l show ?thesis by blast
      qed
    qed
  next
    assume ?B
    then show "\<forall>f\<in>dom (umap_find (lfu_freqToFreqList s)).
       distinct (KLfuCache_bucket s f) \<and>
       (\<forall>k\<in>set (KLfuCache_bucket s f).
           \<exists>node. umap_find (lfu_nodeMap s) k = Some node \<and> fnode_freq node = f)"
      by blast
  qed
  show ?thesis unfolding KLfuCache_linked_def a b ..
qed

lemma KLfuCache_linked_init: "KLfuCache_linked (KLfuCache_init c m tk)"
  by (simp add: KLfuCache_linked_iff KLfuCache_init_def KLfuCache_bucket_def)

lemma KLfuCache_linked_counters:
  "KLfuCache_linked (s\<lparr>lfu_curTotalNum := t\<rparr>) = KLfuCache_linked s"
  "KLfuCache_linked (s\<lparr>lfu_curAverageNum := a\<rparr>) = KLfuCache_linked s"
  "KLfuCache_linked (s\<lparr>lfu_minFreq := m\<rparr>) = KLfuCache_linked s"
  by (simp_all add: KLfuCache_linked_iff KLfuCache_bucket_def)

lemma moveNode_linked:
  assumes l: "KLfuCache_linked s"
    and k: "umap_find (lfu_nodeMap s) k = Some node"
    and m: "KLfuCache_moveNode s k node f = Some s'"
  shows "KLfuCache_linked s'"
proof -
  let ?old = "fnode_freq node"
  from l have A: "\<And>j n. umap_find (lfu_nodeMap s) j = Some n \<Longrightarrow>
        j \<in> set (KLfuCache_bucket s (fnode_freq n))"
    and B1: "\<And>g. distinct (KLfuCache_bucket s g)"
    and B2: "\<And>g j. j \<in> set (KLfuCache_bucket s g) \<Longrightarrow>
        \<exists>n. umap_find (lfu_nodeMap s) j = Some n \<and> fnode_freq n = g"
    unfolding KLfuCache_linked_iff by blast+
  from KLfuCache_bucket_mem[OF A[OF k]] obtain ks where
    ks: "umap_find (lfu_freqToFreqList s) ?old = Some ks" and kks: "k \<in> set ks" by blast
  have bo: "KLfuCache_bucket s ?old = ks" by (rule KLfuCache_bucket_Some[OF ks])
  from B1[of ?old] bo have dks: "distinct ks" by simp
  define X where "X = (if f = ?old then remove1 k ks else KLfuCache_bucket s f)"
  from m have s': "s' = s\<lparr>lfu_nodeMap := umap_assign k (node\<lparr>fnode_freq := f\<rparr>) (lfu_nodeMap s),
            lfu_freqToFreqList :=
              umap_assign f (X @ [k])
                (umap_assign ?old (remove1 k ks) (lfu_freqToFreqList s))\<rparr>"
    unfolding moveNode_eq[OF ks] X_def KLfuCache_bucket_def by simp
  have bk: "KLfuCache_bucket s' g =
      (if g = f then X @ [k] else if g = ?old then remove1 k ks else KLfuCache_bucket s g)" for g
    by (simp add: s' KLfuCache_bucket_def)
  have nm: "umap_find (lfu_nodeMap s') j =
      (if j = k then Some (node\<lparr>fnode_freq := f\<rparr>) else umap_find (lfu_nodeMap s) j)" for j
    by (simp add: s')
  have kX: "k \<notin> set X"
  proof (cases "f = ?old")
    case True
    with dks show ?thesis by (simp add: X_def)
  next
    case False
    show ?thesis
    proof
      assume "k \<in> set X"
      with False have "k \<in> set (KLfuCache_bucket s f)" by (simp add: X_def)
      from B2[OF this] k False show False by auto
    qed
  qed
  have dX: "distinct X"
    using dks B1[of f] by (simp add: X_def)
  have Xf: "\<exists>n. umap_find (lfu_nodeMap s) j = Some n \<and> fnode_freq n = f" if "j \<in> set X" for j
  proof (cases "f = ?old")
    case True
    with that have "j \<in> set ks" using set_remove1_subset[of k ks] by (auto simp: X_def)
    with B2[of j ?old] bo True show ?thesis by simp
  next
    case False
    with that B2[of j f] show ?thesis by (simp add: X_def)
  qed
  have a: "j \<in> set (KLfuCache_bucket s' (fnode_freq n))"
    if h: "umap_find (lfu_nodeMap s') j = Some n" for j n
  proof (cases "j = k")
    case True
    with h have "fnode_freq n = f" by (auto simp: nm)
    with True show ?thesis by (simp add: bk)
  next
    case False
    with h have h0: "umap_find (lfu_nodeMap s) j = Some n" by (simp add: nm)
    from A[OF h0] have mem: "j \<in> set (KLfuCache_bucket s (fnode_freq n))" .
    show ?thesis
    proof (cases "fnode_freq n = f")
      case True
      have "j \<in> set X"
      proof (cases "f = ?old")
        case True2: True
        with mem True bo have "j \<in> set ks" by simp
        with False True2 show ?thesis by (simp add: X_def)
      next
        case False2: False
        with mem True show ?thesis by (simp add: X_def)
      qed
      with True show ?thesis by (simp add: bk)
    next
      case nf: False
      show ?thesis
      proof (cases "fnode_freq n = ?old")
        case True
        with mem bo have "j \<in> set ks" by simp
        with False have "j \<in> set (remove1 k ks)" by simp
        with True nf show ?thesis by (simp add: bk)
      next
        case False
        with nf mem show ?thesis by (simp add: bk)
      qed
    qed
  qed
  have b: "distinct (KLfuCache_bucket s' g)
          \<and> (\<forall>j \<in> set (KLfuCache_bucket s' g).
                \<exists>n. umap_find (lfu_nodeMap s') j = Some n \<and> fnode_freq n = g)" for g
  proof (cases "g = f")
    case True
    have "\<exists>n. umap_find (lfu_nodeMap s') j = Some n \<and> fnode_freq n = g"
      if "j \<in> set (X @ [k])" for j
    proof (cases "j = k")
      case True
      then show ?thesis using \<open>g = f\<close> by (simp add: nm)
    next
      case False
      with that have "j \<in> set X" by simp
      from Xf[OF this] False True show ?thesis by (simp add: nm)
    qed
    with True dX kX show ?thesis by (simp add: bk)
  next
    case gf: False
    show ?thesis
    proof (cases "g = ?old")
      case True
      have "\<exists>n. umap_find (lfu_nodeMap s') j = Some n \<and> fnode_freq n = g"
        if "j \<in> set (remove1 k ks)" for j
      proof -
        from that dks have jk: "j \<noteq> k" by auto
        from that have "j \<in> set ks" using set_remove1_subset[of k ks] by auto
        with B2[of j ?old] bo jk True show ?thesis by (simp add: nm)
      qed
      with True gf dks show ?thesis by (simp add: bk)
    next
      case False
      have "\<exists>n. umap_find (lfu_nodeMap s') j = Some n \<and> fnode_freq n = g"
        if "j \<in> set (KLfuCache_bucket s g)" for j
      proof -
        from B2[OF that] obtain n where n: "umap_find (lfu_nodeMap s) j = Some n"
          "fnode_freq n = g" by blast
        with k False have "j \<noteq> k" by auto
        with n show ?thesis by (simp add: nm)
      qed
      with False gf B1[of g] show ?thesis by (simp add: bk)
    qed
  qed
  show ?thesis unfolding KLfuCache_linked_iff using a b by blast
qed

lemma ageNodes_linked:
  assumes "KLfuCache_linked s" "KLfuCache_ageNodes ks s = Some s'"
  shows "KLfuCache_linked s'"
  using assms
proof (induction ks arbitrary: s)
  case Nil
  then show ?case by simp
next
  case (Cons k ks)
  show ?case
  proof (cases "umap_find (lfu_nodeMap s) k")
    case None
    with Cons show ?thesis by (simp add: ageNodes_Cons)
  next
    case (Some node)
    from Cons.prems(2) Some obtain s1 where
      m: "KLfuCache_moveNode s k node (KLfuCache_aged (lfu_maxAverageNum s) (fnode_freq node)) = Some s1"
      and r: "KLfuCache_ageNodes ks s1 = Some s'"
      by (auto simp: ageNodes_Cons split: option.splits)
    from Cons.IH[OF moveNode_linked[OF Cons.prems(1) Some m] r] show ?thesis .
  qed
qed

lemma handleOverMaxAverageNum_linked:
  assumes "KLfuCache_linked s" "KLfuCache_handleOverMaxAverageNum s = Some s'"
  shows "KLfuCache_linked s'"
proof (cases "lfu_nodeMap s = []")
  case True
  with assms show ?thesis by (simp add: KLfuCache_handleOverMaxAverageNum_def)
next
  case False
  with assms(2) obtain s1 where r: "KLfuCache_ageNodes (umap_keys (lfu_nodeMap s)) s = Some s1"
    and e: "s' = KLfuCache_updateMinFreq s1"
    by (auto simp: KLfuCache_handleOverMaxAverageNum_def split: option.splits)
  from ageNodes_linked[OF assms(1) r] show ?thesis
    unfolding e by (simp add: KLfuCache_linked_iff KLfuCache_bucket_def updateMinFreq_frame)
qed

lemma addFreqNum_linked:
  assumes "KLfuCache_linked s" "KLfuCache_addFreqNum s = Some s'"
  shows "KLfuCache_linked s'"
proof -
  let ?s2 = "s\<lparr>lfu_curTotalNum := lfu_curTotalNum s + 1,
               lfu_curAverageNum := KLfuCache_average (s\<lparr>lfu_curTotalNum := lfu_curTotalNum s + 1\<rparr>)\<rparr>"
  have l2: "KLfuCache_linked ?s2"
    using assms(1) by (simp add: KLfuCache_linked_iff KLfuCache_bucket_def)
  from assms(2) have "KLfuCache_handleOverMaxAverageNum ?s2 = Some s' \<or> s' = ?s2"
    by (auto simp: KLfuCache_addFreqNum_def Let_def split: if_splits)
  with l2 handleOverMaxAverageNum_linked[OF l2] show ?thesis by auto
qed

lemma KLfuCache_below_iff:
  "KLfuCache_below s \<longleftrightarrow>
     lfu_nodeMap s = []
     \<or> (\<exists>k n. umap_find (lfu_nodeMap s) k = Some n \<and> fnode_freq n < INT8_MAX)"
  unfolding KLfuCache_below_def list_ex_iff set_umap_keys case_node_iff
  by auto

lemma KLfuCache_minOK_counters:
  "KLfuCache_minOK (s\<lparr>lfu_curTotalNum := t\<rparr>) = KLfuCache_minOK s"
  "KLfuCache_minOK (s\<lparr>lfu_curAverageNum := a\<rparr>) = KLfuCache_minOK s"
  by (simp_all add: KLfuCache_minOK_def KLfuCache_bucket_def)

text \<open>
  \<^verbatim>\<open>updateMinFreq\<close> finds the list of the least frequency that has a node, provided
  that frequency is below \<^verbatim>\<open>INT8_MAX\<close>.
\<close>

lemma updateMinFreq_minOK:
  assumes l: "KLfuCache_linked s" and b: "KLfuCache_below s"
  shows "KLfuCache_minOK (KLfuCache_updateMinFreq s)"
proof (cases "lfu_nodeMap s = []")
  case True
  then show ?thesis by (simp add: KLfuCache_minOK_def updateMinFreq_frame)
next
  case False
  with b obtain k n where k: "umap_find (lfu_nodeMap s) k = Some n"
    and f: "fnode_freq n < INT8_MAX"
    unfolding KLfuCache_below_iff by blast
  let ?S = "{g. \<exists>ks. umap_find (lfu_freqToFreqList s) g = Some ks \<and> ks \<noteq> []}"
  let ?m = "Min (insert INT8_MAX ?S)"
  have "?S \<subseteq> dom (umap_find (lfu_freqToFreqList s))" by auto
  then have fin: "finite ?S" by (rule finite_subset) simp
  from l k have "k \<in> set (KLfuCache_bucket s (fnode_freq n))"
    unfolding KLfuCache_linked_iff by blast
  from KLfuCache_bucket_mem[OF this] have mem: "fnode_freq n \<in> ?S" by auto
  have "?m \<le> fnode_freq n" using fin mem by (intro Min_le) auto
  with f have ne: "?m \<noteq> INT8_MAX" by simp
  have "?m \<in> insert INT8_MAX ?S" using fin by (intro Min_in) auto
  with ne have "?m \<in> ?S" by blast
  then obtain ks where ks: "umap_find (lfu_freqToFreqList s) ?m = Some ks" "ks \<noteq> []" by blast
  have mf: "lfu_minFreq (KLfuCache_updateMinFreq s) = ?m"
    using ne by (simp add: updateMinFreq_minFreq Let_def)
  show ?thesis
    unfolding KLfuCache_minOK_def mf using ks
    by (simp add: KLfuCache_bucket_def updateMinFreq_frame)
qed

lemma cpp_div_nonneg: "0 \<le> a \<Longrightarrow> 0 \<le> cpp_div a 2"
  by (simp add: cpp_div_def sgn_if)

lemma KLfuCache_aged_1: "0 \<le> m \<Longrightarrow> KLfuCache_aged m 1 = 1"
  using cpp_div_nonneg[of m] by (simp add: KLfuCache_aged_def Let_def)

text \<open>
  \<^verbatim>\<open>addFreqNum\<close>: the keys stay, the lists and the map still agree, a node of
  frequency 1 keeps it when the maximum average is not negative, and the list of
  \<^verbatim>\<open>minFreq_\<close> has a node afterwards if it had one before and some frequency is below
  \<^verbatim>\<open>INT8_MAX\<close>.
\<close>

lemma addFreqNum_step:
  assumes ok: "KLfuCache_lists_ok s" and l: "KLfuCache_linked s"
  shows "\<exists>s'. KLfuCache_addFreqNum s = Some s' \<and> KLfuCache_lists_ok s'
     \<and> (KLfuCache_safe s \<longrightarrow> KLfuCache_safe s') \<and> KLfuCache_linked s'
     \<and> lfu_capacity s' = lfu_capacity s \<and> lfu_maxAverageNum s' = lfu_maxAverageNum s
     \<and> lfu_tailKey s' = lfu_tailKey s
     \<and> umap_size (lfu_nodeMap s') = umap_size (lfu_nodeMap s)
     \<and> (\<forall>j. KLfuCache_value s' j = KLfuCache_value s j)
     \<and> (KLfuCache_minOK s \<and> KLfuCache_below s' \<longrightarrow> KLfuCache_minOK s')
     \<and> (0 \<le> lfu_maxAverageNum s \<longrightarrow>
          (\<forall>j n. umap_find (lfu_nodeMap s) j = Some n \<and> fnode_freq n = 1 \<longrightarrow>
             (\<exists>n'. umap_find (lfu_nodeMap s') j = Some n' \<and> fnode_freq n' = 1)))"
proof -
  let ?s2 = "s\<lparr>lfu_curTotalNum := lfu_curTotalNum s + 1,
               lfu_curAverageNum := KLfuCache_average (s\<lparr>lfu_curTotalNum := lfu_curTotalNum s + 1\<rparr>)\<rparr>"
  from addFreqNum_ok[OF ok] obtain s' where r: "KLfuCache_addFreqNum s = Some s'"
    and ok': "KLfuCache_lists_ok s'" and sf: "KLfuCache_safe s \<longrightarrow> KLfuCache_safe s'"
    and fr: "lfu_capacity s' = lfu_capacity s" "lfu_maxAverageNum s' = lfu_maxAverageNum s"
      "lfu_tailKey s' = lfu_tailKey s"
    and v: "\<forall>j. KLfuCache_value s' j = KLfuCache_value s j"
    by blast
  have l': "KLfuCache_linked s'" by (rule addFreqNum_linked[OF l r])
  have "umap_find (lfu_nodeMap s') j = None \<longleftrightarrow> umap_find (lfu_nodeMap s) j = None" for j
    using v[rule_format, of j] unfolding KLfuCache_value_def
    by (cases "umap_find (lfu_nodeMap s') j"; cases "umap_find (lfu_nodeMap s) j") simp_all
  then have "dom (umap_find (lfu_nodeMap s')) = dom (umap_find (lfu_nodeMap s))"
    unfolding dom_def by simp
  then have sz: "umap_size (lfu_nodeMap s') = umap_size (lfu_nodeMap s)"
    by (simp add: umap_size_card)
  have ok2: "KLfuCache_lists_ok ?s2" by (rule lists_ok_counters[OF ok])
  have l2: "KLfuCache_linked ?s2"
    using l by (simp add: KLfuCache_linked_iff KLfuCache_bucket_def)
  from r have c: "(KLfuCache_handleOverMaxAverageNum ?s2 = Some s') \<or> s' = ?s2"
    by (auto simp: KLfuCache_addFreqNum_def Let_def split: if_splits)
  have m: "KLfuCache_minOK s \<and> KLfuCache_below s' \<longrightarrow> KLfuCache_minOK s'"
  proof
    assume h: "KLfuCache_minOK s \<and> KLfuCache_below s'"
    from c show "KLfuCache_minOK s'"
    proof
      assume "s' = ?s2"
      with h show ?thesis by (simp add: KLfuCache_minOK_def KLfuCache_bucket_def)
    next
      assume ho: "KLfuCache_handleOverMaxAverageNum ?s2 = Some s'"
      show ?thesis
      proof (cases "lfu_nodeMap s = []")
        case True
        with ho have "s' = ?s2" by (simp add: KLfuCache_handleOverMaxAverageNum_def)
        with True show ?thesis by (simp add: KLfuCache_minOK_def)
      next
        case False
        with ho obtain s1 where a: "KLfuCache_ageNodes (umap_keys (lfu_nodeMap s)) ?s2 = Some s1"
          and e: "s' = KLfuCache_updateMinFreq s1"
          by (auto simp: KLfuCache_handleOverMaxAverageNum_def split: option.splits)
        have l1: "KLfuCache_linked s1" by (rule ageNodes_linked[OF l2 a])
        from h have "KLfuCache_below s1"
          unfolding e KLfuCache_below_iff by (simp add: updateMinFreq_frame)
        from updateMinFreq_minOK[OF l1 this] show ?thesis unfolding e .
      qed
    qed
  qed
  have f1: "\<exists>n'. umap_find (lfu_nodeMap s') j = Some n' \<and> fnode_freq n' = 1"
    if M: "0 \<le> lfu_maxAverageNum s" and j: "umap_find (lfu_nodeMap s) j = Some n"
      and f: "fnode_freq n = 1" for j n
    using c
  proof
    assume "s' = ?s2"
    with j f show ?thesis by simp
  next
    assume ho: "KLfuCache_handleOverMaxAverageNum ?s2 = Some s'"
    from handleOverMaxAverageNum_effect[OF ok2] ho
    have "umap_find (lfu_nodeMap s') j =
            map_option (\<lambda>n. n\<lparr>fnode_freq := KLfuCache_aged (lfu_maxAverageNum ?s2) (fnode_freq n)\<rparr>)
              (umap_find (lfu_nodeMap ?s2) j)" by auto
    with j f M show ?thesis by (simp add: KLfuCache_aged_1)
  qed
  show ?thesis
    by (intro exI[of _ s'] conjI r ok' sf l' fr sz v m) (use f1 in blast)
qed

lemma getInternal_step:
  assumes safe: "KLfuCache_safe s" and l: "KLfuCache_linked s" and mo: "KLfuCache_minOK s"
    and k: "umap_find (lfu_nodeMap s) k = Some node"
  shows "\<exists>s'. KLfuCache_getInternal s k node = Some (s', fnode_value node) \<and> KLfuCache_safe s'
     \<and> KLfuCache_linked s'
     \<and> lfu_capacity s' = lfu_capacity s \<and> lfu_maxAverageNum s' = lfu_maxAverageNum s
     \<and> lfu_tailKey s' = lfu_tailKey s
     \<and> umap_size (lfu_nodeMap s') = umap_size (lfu_nodeMap s)
     \<and> (\<forall>j. KLfuCache_value s' j = KLfuCache_value s j)
     \<and> (KLfuCache_below s' \<longrightarrow> KLfuCache_minOK s')"
proof -
  let ?old = "fnode_freq node"
  from safe have ok: "KLfuCache_lists_ok s" by (simp add: KLfuCache_safe_def)
  note oks = ok[unfolded KLfuCache_lists_ok_iff]
  from oks k have f1: "1 \<le> ?old" by blast
  have ne: "lfu_nodeMap s \<noteq> []" using k by auto
  from l k have "k \<in> set (KLfuCache_bucket s ?old)" unfolding KLfuCache_linked_iff by blast
  from KLfuCache_bucket_mem[OF this] obtain ks where
    ks: "umap_find (lfu_freqToFreqList s) ?old = Some ks" and kks: "k \<in> set ks" by blast
  from moveNode_ok[OF ok k, of "?old + 1"] f1
  obtain s3 where m: "KLfuCache_moveNode s k node (?old + 1) = Some s3"
    and ok3: "KLfuCache_lists_ok s3" by auto
  note fr = moveNode_frame[OF m]
  have l3: "KLfuCache_linked s3" by (rule moveNode_linked[OF l k m])
  from m have s3: "s3 = s\<lparr>lfu_nodeMap := umap_assign k (node\<lparr>fnode_freq := ?old + 1\<rparr>) (lfu_nodeMap s),
            lfu_freqToFreqList :=
              umap_assign (?old + 1) (KLfuCache_bucket s (?old + 1) @ [k])
                (umap_assign ?old (remove1 k ks) (lfu_freqToFreqList s))\<rparr>"
    unfolding moveNode_eq[OF ks] KLfuCache_bucket_def by simp
  have bk: "KLfuCache_bucket s3 g =
      (if g = ?old + 1 then KLfuCache_bucket s (?old + 1) @ [k]
       else if g = ?old then remove1 k ks else KLfuCache_bucket s g)" for g
    by (simp add: s3 KLfuCache_bucket_def)
  have fo: "umap_find (lfu_freqToFreqList s3) ?old = Some (remove1 k ks)"
    by (simp add: s3)
  define s4 where "s4 = (if ?old = lfu_minFreq s3 \<and> remove1 k ks = []
                         then s3\<lparr>lfu_minFreq := lfu_minFreq s3 + 1\<rparr> else s3)"
  have e: "KLfuCache_getInternal s k node =
     (case KLfuCache_addFreqNum s4 of None \<Rightarrow> None | Some s5 \<Rightarrow> Some (s5, fnode_value node))"
    using fo by (auto simp: getInternal_eq m s4_def)
  have ok4: "KLfuCache_lists_ok s4"
    using ok3 by (auto simp: s4_def KLfuCache_lists_ok_iff)
  have l4: "KLfuCache_linked s4"
    using l3 by (simp add: s4_def KLfuCache_linked_counters)
  have b4: "KLfuCache_bucket s4 g = KLfuCache_bucket s3 g" for g
    by (simp add: s4_def KLfuCache_bucket_def)
  from mo ne have mb: "KLfuCache_bucket s (lfu_minFreq s) \<noteq> []"
    by (simp add: KLfuCache_minOK_def)
  have mo4: "KLfuCache_bucket s4 (lfu_minFreq s4) \<noteq> []"
  proof (cases "?old = lfu_minFreq s3 \<and> remove1 k ks = []")
    case True
    then show ?thesis by (simp add: s4_def KLfuCache_bucket_def s3)
  next
    case False
    then have m4: "lfu_minFreq s4 = lfu_minFreq s" by (simp add: s4_def fr(2))
    show ?thesis
    proof (cases "lfu_minFreq s = ?old")
      case True
      with False have "remove1 k ks \<noteq> []" by (simp add: fr(2))
      with True show ?thesis unfolding b4 m4 bk by simp
    next
      case False2: False
      with mb show ?thesis unfolding b4 m4 bk by simp
    qed
  qed
  then have minOK4: "KLfuCache_minOK s4" by (simp add: KLfuCache_minOK_def)
  from mo4 have "umap_find (lfu_freqToFreqList s4) (lfu_minFreq s4) \<noteq> None"
    by (auto simp: KLfuCache_bucket_def split: option.splits)
  with ok4 have safe4: "KLfuCache_safe s4" by (simp add: KLfuCache_safe_def)
  have fr4: "lfu_capacity s4 = lfu_capacity s" "lfu_maxAverageNum s4 = lfu_maxAverageNum s"
    "lfu_tailKey s4 = lfu_tailKey s"
    "KLfuCache_value s4 j = KLfuCache_value s j" for j
    using fr(1-6) moveNode_value[OF m k, of j] by (auto simp: s4_def KLfuCache_value_def)
  have sz4: "umap_size (lfu_nodeMap s4) = umap_size (lfu_nodeMap s)"
    using k by (simp add: s4_def fr(7) umap_size_assign)
  from addFreqNum_step[OF ok4 l4] safe4 minOK4 obtain s5 where
    r5: "KLfuCache_addFreqNum s4 = Some s5" and safe5: "KLfuCache_safe s5"
    and l5: "KLfuCache_linked s5"
    and fr5: "lfu_capacity s5 = lfu_capacity s4" "lfu_maxAverageNum s5 = lfu_maxAverageNum s4"
      "lfu_tailKey s5 = lfu_tailKey s4"
      "umap_size (lfu_nodeMap s5) = umap_size (lfu_nodeMap s4)"
      "\<forall>j. KLfuCache_value s5 j = KLfuCache_value s4 j"
    and mo5: "KLfuCache_below s5 \<longrightarrow> KLfuCache_minOK s5"
    by blast
  show ?thesis
    by (intro exI[of _ s5] conjI safe5 l5 mo5)
       (simp_all add: e r5 fr5 fr4 sz4)
qed

lemma kickOut_step:
  assumes safe: "KLfuCache_safe s" and l: "KLfuCache_linked s" and mo: "KLfuCache_minOK s"
    and ne: "lfu_nodeMap s \<noteq> []"
  shows "\<exists>s' x. KLfuCache_kickOut s = Some s' \<and> KLfuCache_lists_ok s' \<and> KLfuCache_linked s'
     \<and> umap_find (lfu_nodeMap s) x \<noteq> None
     \<and> lfu_nodeMap s' = umap_erase x (lfu_nodeMap s)
     \<and> lfu_capacity s' = lfu_capacity s \<and> lfu_maxAverageNum s' = lfu_maxAverageNum s
     \<and> lfu_tailKey s' = lfu_tailKey s"
proof -
  from safe have ok: "KLfuCache_lists_ok s" by (simp add: KLfuCache_safe_def)
  note oks = ok[unfolded KLfuCache_lists_ok_iff]
  from l have A: "\<And>j n. umap_find (lfu_nodeMap s) j = Some n \<Longrightarrow>
        j \<in> set (KLfuCache_bucket s (fnode_freq n))"
    and B1: "\<And>g. distinct (KLfuCache_bucket s g)"
    and B2: "\<And>g j. j \<in> set (KLfuCache_bucket s g) \<Longrightarrow>
        \<exists>n. umap_find (lfu_nodeMap s) j = Some n \<and> fnode_freq n = g"
    unfolding KLfuCache_linked_iff by blast+
  let ?m = "lfu_minFreq s"
  from mo ne obtain x xs where b: "KLfuCache_bucket s ?m = x # xs"
    by (cases "KLfuCache_bucket s ?m") (auto simp: KLfuCache_minOK_def)
  then have fb: "umap_find (lfu_freqToFreqList s) ?m = Some (x # xs)"
    by (auto simp: KLfuCache_bucket_def split: option.splits)
  from oks ne have b1: "umap_find (lfu_freqToFreqList s) 1 \<noteq> None" by blast
  from kickOut_eq[OF fb b1] obtain s' where r: "KLfuCache_kickOut s = Some s'"
    and nm: "lfu_nodeMap s' = umap_erase x (lfu_nodeMap s)"
    and fl: "lfu_freqToFreqList s' = umap_assign ?m xs (lfu_freqToFreqList s)"
    and fr: "lfu_capacity s' = lfu_capacity s" "lfu_maxAverageNum s' = lfu_maxAverageNum s"
      "lfu_minFreq s' = lfu_minFreq s" "lfu_tailKey s' = lfu_tailKey s"
    by auto
  from kickOut_safe[OF safe ne] r have ok': "KLfuCache_lists_ok s'" by auto
  from B2[of x ?m] b obtain nx where nx: "umap_find (lfu_nodeMap s) x = Some nx"
    "fnode_freq nx = ?m" by auto
  from B1[of ?m] b have xx: "x \<notin> set xs" and dxs: "distinct xs" by auto
  have bk: "KLfuCache_bucket s' g = (if g = ?m then xs else KLfuCache_bucket s g)" for g
    by (simp add: KLfuCache_bucket_def fl)
  have a: "j \<in> set (KLfuCache_bucket s' (fnode_freq n))"
    if h: "umap_find (lfu_nodeMap s') j = Some n" for j n
  proof -
    from h have jx: "j \<noteq> x" and h0: "umap_find (lfu_nodeMap s) j = Some n"
      by (auto simp: nm split: if_splits)
    from A[OF h0] jx b show ?thesis by (auto simp: bk)
  qed
  have bb: "distinct (KLfuCache_bucket s' g)
          \<and> (\<forall>j \<in> set (KLfuCache_bucket s' g).
                \<exists>n. umap_find (lfu_nodeMap s') j = Some n \<and> fnode_freq n = g)" for g
  proof (cases "g = ?m")
    case True
    have "\<exists>n. umap_find (lfu_nodeMap s') j = Some n \<and> fnode_freq n = g" if "j \<in> set xs" for j
    proof -
      from that xx have jx: "j \<noteq> x" by auto
      from that b have "j \<in> set (KLfuCache_bucket s ?m)" by simp
      from B2[OF this] jx True show ?thesis by (simp add: nm)
    qed
    with True dxs show ?thesis by (simp add: bk)
  next
    case False
    have "\<exists>n. umap_find (lfu_nodeMap s') j = Some n \<and> fnode_freq n = g"
      if "j \<in> set (KLfuCache_bucket s g)" for j
    proof -
      from B2[OF that] obtain n where n: "umap_find (lfu_nodeMap s) j = Some n"
        "fnode_freq n = g" by blast
      with nx False have "j \<noteq> x" by auto
      with n show ?thesis by (simp add: nm)
    qed
    with False B1[of g] show ?thesis by (simp add: bk)
  qed
  have l': "KLfuCache_linked s'" unfolding KLfuCache_linked_iff using a bb by blast
  have xin: "umap_find (lfu_nodeMap s) x \<noteq> None" using nx by simp
  show ?thesis
    by (intro exI[of _ s'] exI[of _ x] conjI r ok' l' xin nm fr(1,2,4))
qed

lemma putInternal_step:
  assumes safe: "KLfuCache_safe s" and l: "KLfuCache_linked s" and mo: "KLfuCache_minOK s"
    and k: "umap_find (lfu_nodeMap s) k = None"
    and M: "0 \<le> lfu_maxAverageNum s" and cap: "0 < lfu_capacity s"
    and sz: "int (umap_size (lfu_nodeMap s)) \<le> lfu_capacity s"
  shows "\<exists>s'. KLfuCache_putInternal s k v = Some s' \<and> KLfuCache_safe s'
     \<and> KLfuCache_linked s' \<and> KLfuCache_minOK s'
     \<and> int (umap_size (lfu_nodeMap s')) \<le> lfu_capacity s'
     \<and> lfu_capacity s' = lfu_capacity s \<and> lfu_maxAverageNum s' = lfu_maxAverageNum s
     \<and> lfu_tailKey s' = lfu_tailKey s"
proof -
  from safe have ok: "KLfuCache_lists_ok s" by (simp add: KLfuCache_safe_def)
  note oks = ok[unfolded KLfuCache_lists_ok_iff]
  from oks cap have c: "to_size_t (lfu_capacity s) = nat (lfu_capacity s)"
    by (intro to_size_t_nat) auto
  have "\<exists>s1. (if umap_size (lfu_nodeMap s) = to_size_t (lfu_capacity s)
            then KLfuCache_kickOut s else Some s) = Some s1 \<and> KLfuCache_lists_ok s1
     \<and> KLfuCache_linked s1 \<and> umap_find (lfu_nodeMap s1) k = None
     \<and> int (umap_size (lfu_nodeMap s1)) < lfu_capacity s
     \<and> lfu_capacity s1 = lfu_capacity s \<and> lfu_maxAverageNum s1 = lfu_maxAverageNum s
     \<and> lfu_tailKey s1 = lfu_tailKey s"
  proof (cases "umap_size (lfu_nodeMap s) = to_size_t (lfu_capacity s)")
    case True
    with c cap have pos: "0 < umap_size (lfu_nodeMap s)" by simp
    then have ne: "lfu_nodeMap s \<noteq> []" by auto
    from kickOut_step[OF safe l mo ne] obtain s1 x where
      r: "KLfuCache_kickOut s = Some s1" and ok1: "KLfuCache_lists_ok s1"
      and l1: "KLfuCache_linked s1" and x: "umap_find (lfu_nodeMap s) x \<noteq> None"
      and nm: "lfu_nodeMap s1 = umap_erase x (lfu_nodeMap s)"
      and fr: "lfu_capacity s1 = lfu_capacity s" "lfu_maxAverageNum s1 = lfu_maxAverageNum s"
        "lfu_tailKey s1 = lfu_tailKey s"
      by blast
    have "umap_size (lfu_nodeMap s1) = umap_size (lfu_nodeMap s) - 1"
      using x by (auto simp: nm umap_size_erase)
    with pos sz have "int (umap_size (lfu_nodeMap s1)) < lfu_capacity s" by linarith
    moreover have "umap_find (lfu_nodeMap s1) k = None" using k by (simp add: nm)
    ultimately show ?thesis using True r ok1 l1 fr by simp
  next
    case False
    with c sz cap have "int (umap_size (lfu_nodeMap s)) < lfu_capacity s" by linarith
    with False ok l k show ?thesis by simp
  qed
  then obtain s1 where
    e1: "(if umap_size (lfu_nodeMap s) = to_size_t (lfu_capacity s)
            then KLfuCache_kickOut s else Some s) = Some s1"
    and ok1: "KLfuCache_lists_ok s1" and l1: "KLfuCache_linked s1"
    and k1: "umap_find (lfu_nodeMap s1) k = None"
    and sz1: "int (umap_size (lfu_nodeMap s1)) < lfu_capacity s"
    and fr1: "lfu_capacity s1 = lfu_capacity s" "lfu_maxAverageNum s1 = lfu_maxAverageNum s"
      "lfu_tailKey s1 = lfu_tailKey s"
    by blast
  note ok1s = ok1[unfolded KLfuCache_lists_ok_iff]
  from l1 have A: "\<And>j n. umap_find (lfu_nodeMap s1) j = Some n \<Longrightarrow>
        j \<in> set (KLfuCache_bucket s1 (fnode_freq n))"
    and B1: "\<And>g. distinct (KLfuCache_bucket s1 g)"
    and B2: "\<And>g j. j \<in> set (KLfuCache_bucket s1 g) \<Longrightarrow>
        \<exists>n. umap_find (lfu_nodeMap s1) j = Some n \<and> fnode_freq n = g"
    unfolding KLfuCache_linked_iff by blast+
  define s3 where "s3 = KLfuCache_addToFreqList
      (s1\<lparr>lfu_nodeMap := umap_assign k \<lparr>fnode_value = v, fnode_freq = 1\<rparr> (lfu_nodeMap s1)\<rparr>) k 1"
  have nm3: "lfu_nodeMap s3 = umap_assign k \<lparr>fnode_value = v, fnode_freq = 1\<rparr> (lfu_nodeMap s1)"
    and fl3: "lfu_freqToFreqList s3 =
        umap_assign 1 (KLfuCache_bucket s1 1 @ [k]) (lfu_freqToFreqList s1)"
    and fr3: "lfu_capacity s3 = lfu_capacity s" "lfu_maxAverageNum s3 = lfu_maxAverageNum s"
      "lfu_tailKey s3 = lfu_tailKey s" "lfu_minFreq s3 = lfu_minFreq s1"
    by (simp_all add: s3_def KLfuCache_addToFreqList_def KLfuCache_bucket_def Let_def fr1)
  have bk3: "KLfuCache_bucket s3 g =
      (if g = 1 then KLfuCache_bucket s1 1 @ [k] else KLfuCache_bucket s1 g)" for g
    by (simp add: KLfuCache_bucket_def fl3)
  have ok3: "KLfuCache_lists_ok s3"
    unfolding KLfuCache_lists_ok_iff nm3 fl3 fr3
    using ok1s fr1 by (auto split: if_splits)
  have kn: "k \<notin> set (KLfuCache_bucket s1 1)"
    using B2[of k 1] k1 by auto
  have a3: "j \<in> set (KLfuCache_bucket s3 (fnode_freq n))"
    if h: "umap_find (lfu_nodeMap s3) j = Some n" for j n
  proof (cases "j = k")
    case True
    with h have "fnode_freq n = 1" by (auto simp: nm3)
    with True show ?thesis by (simp add: bk3)
  next
    case False
    with h have "umap_find (lfu_nodeMap s1) j = Some n" by (simp add: nm3)
    from A[OF this] show ?thesis by (auto simp: bk3)
  qed
  have b3: "distinct (KLfuCache_bucket s3 g)
          \<and> (\<forall>j \<in> set (KLfuCache_bucket s3 g).
                \<exists>n. umap_find (lfu_nodeMap s3) j = Some n \<and> fnode_freq n = g)" for g
  proof (cases "g = 1")
    case True
    have "\<exists>n. umap_find (lfu_nodeMap s3) j = Some n \<and> fnode_freq n = g"
      if "j \<in> set (KLfuCache_bucket s1 1 @ [k])" for j
    proof (cases "j = k")
      case True
      then show ?thesis using \<open>g = 1\<close> by (simp add: nm3)
    next
      case False
      with that have "j \<in> set (KLfuCache_bucket s1 1)" by simp
      from B2[OF this] False True show ?thesis by (simp add: nm3)
    qed
    with True kn B1[of 1] show ?thesis by (simp add: bk3)
  next
    case False
    have "\<exists>n. umap_find (lfu_nodeMap s3) j = Some n \<and> fnode_freq n = g"
      if "j \<in> set (KLfuCache_bucket s1 g)" for j
    proof -
      from B2[OF that] obtain n where n: "umap_find (lfu_nodeMap s1) j = Some n"
        "fnode_freq n = g" by blast
      with k1 have "j \<noteq> k" by auto
      with n show ?thesis by (simp add: nm3)
    qed
    with False B1[of g] show ?thesis by (simp add: bk3)
  qed
  have l3: "KLfuCache_linked s3" unfolding KLfuCache_linked_iff using a3 b3 by blast
  have sz3: "umap_size (lfu_nodeMap s3) = Suc (umap_size (lfu_nodeMap s1))"
    using k1 by (simp add: nm3 umap_size_assign)
  have k3: "umap_find (lfu_nodeMap s3) k = Some \<lparr>fnode_value = v, fnode_freq = 1\<rparr>"
    by (simp add: nm3)
  from addFreqNum_step[OF ok3 l3] M obtain s4 where
    r4: "KLfuCache_addFreqNum s3 = Some s4" and ok4: "KLfuCache_lists_ok s4"
    and l4: "KLfuCache_linked s4"
    and fr4: "lfu_capacity s4 = lfu_capacity s3" "lfu_maxAverageNum s4 = lfu_maxAverageNum s3"
      "lfu_tailKey s4 = lfu_tailKey s3"
      "umap_size (lfu_nodeMap s4) = umap_size (lfu_nodeMap s3)"
    and f1: "\<forall>j n. umap_find (lfu_nodeMap s3) j = Some n \<and> fnode_freq n = 1 \<longrightarrow>
             (\<exists>n'. umap_find (lfu_nodeMap s4) j = Some n' \<and> fnode_freq n' = 1)"
    unfolding fr3 by blast
  from f1 k3 obtain n' where n': "umap_find (lfu_nodeMap s4) k = Some n'" "fnode_freq n' = 1"
    by force
  from l4 n' have kb: "k \<in> set (KLfuCache_bucket s4 1)"
    unfolding KLfuCache_linked_iff by force
  define s' where "s' = s4\<lparr>lfu_minFreq := min (lfu_minFreq s4) 1\<rparr>"
  from ok4 have "1 \<le> lfu_minFreq s4" unfolding KLfuCache_lists_ok_iff by blast
  then have mf: "lfu_minFreq s' = 1" by (simp add: s'_def)
  have r: "KLfuCache_putInternal s k v = Some s'"
    unfolding KLfuCache_putInternal_def e1 by (simp add: Let_def s3_def[symmetric] r4 s'_def)
  have ok': "KLfuCache_lists_ok s'"
    using ok4 mf by (simp add: KLfuCache_lists_ok_iff s'_def)
  have l': "KLfuCache_linked s'"
    using l4 by (simp add: s'_def KLfuCache_linked_counters)
  have bk': "KLfuCache_bucket s' 1 = KLfuCache_bucket s4 1"
    by (simp add: s'_def KLfuCache_bucket_def)
  from kb have ne1: "KLfuCache_bucket s' 1 \<noteq> []" unfolding bk' by auto
  then have mo': "KLfuCache_minOK s'" by (simp add: KLfuCache_minOK_def mf)
  from ne1 have "umap_find (lfu_freqToFreqList s') (lfu_minFreq s') \<noteq> None"
    unfolding mf by (auto simp: KLfuCache_bucket_def split: option.splits)
  with ok' have safe': "KLfuCache_safe s'" by (simp add: KLfuCache_safe_def)
  have fr': "lfu_capacity s' = lfu_capacity s" "lfu_maxAverageNum s' = lfu_maxAverageNum s"
    "lfu_tailKey s' = lfu_tailKey s"
    by (simp_all add: s'_def fr4 fr3)
  have "umap_size (lfu_nodeMap s') = Suc (umap_size (lfu_nodeMap s1))"
    by (simp add: s'_def fr4 sz3)
  with sz1 have sz': "int (umap_size (lfu_nodeMap s')) \<le> lfu_capacity s'"
    unfolding fr' by linarith
  show ?thesis
    by (intro exI[of _ s'] conjI r safe' l' mo' sz' fr')
qed

section \<open>KLfuCache: the capacity bound\<close>

lemma linked_set_value:
  assumes l: "KLfuCache_linked s" and k: "umap_find (lfu_nodeMap s) k = Some node"
  shows "KLfuCache_linked (s\<lparr>lfu_nodeMap := umap_assign k (node\<lparr>fnode_value := v\<rparr>) (lfu_nodeMap s)\<rparr>)"
proof -
  let ?s' = "s\<lparr>lfu_nodeMap := umap_assign k (node\<lparr>fnode_value := v\<rparr>) (lfu_nodeMap s)\<rparr>"
  from l have A: "\<And>j n. umap_find (lfu_nodeMap s) j = Some n \<Longrightarrow>
        j \<in> set (KLfuCache_bucket s (fnode_freq n))"
    and B1: "\<And>g. distinct (KLfuCache_bucket s g)"
    and B2: "\<And>g j. j \<in> set (KLfuCache_bucket s g) \<Longrightarrow>
        \<exists>n. umap_find (lfu_nodeMap s) j = Some n \<and> fnode_freq n = g"
    unfolding KLfuCache_linked_iff by blast+
  have bk: "KLfuCache_bucket ?s' g = KLfuCache_bucket s g" for g
    by (simp add: KLfuCache_bucket_def)
  have a: "j \<in> set (KLfuCache_bucket ?s' (fnode_freq n))"
    if h: "umap_find (lfu_nodeMap ?s') j = Some n" for j n
  proof (cases "j = k")
    case True
    with h have "fnode_freq n = fnode_freq node" by auto
    with A[OF k] True show ?thesis by (simp add: bk)
  next
    case False
    with h have "umap_find (lfu_nodeMap s) j = Some n" by simp
    from A[OF this] show ?thesis by (simp add: bk)
  qed
  have b: "distinct (KLfuCache_bucket ?s' g)
          \<and> (\<forall>j \<in> set (KLfuCache_bucket ?s' g).
                \<exists>n. umap_find (lfu_nodeMap ?s') j = Some n \<and> fnode_freq n = g)" for g
  proof -
    have "\<exists>n. umap_find (lfu_nodeMap ?s') j = Some n \<and> fnode_freq n = g"
      if "j \<in> set (KLfuCache_bucket s g)" for j
    proof (cases "j = k")
      case True
      with B2[OF that] k show ?thesis by auto
    next
      case False
      with B2[OF that] show ?thesis by simp
    qed
    with B1[of g] show ?thesis by (simp add: bk)
  qed
  show ?thesis unfolding KLfuCache_linked_iff using a b by blast
qed

lemma KLfuCache_consistent_init:
  assumes "0 \<le> c" "c < 2 ^ 31" "0 \<le> m"
  shows "KLfuCache_consistent (KLfuCache_init c m tk)"
proof -
  have "KLfuCache_safe (KLfuCache_init c m tk)"
    using assms by (intro KLfuCache_safe_init) simp_all
  then show ?thesis
    unfolding KLfuCache_consistent_def using assms
    by (simp add: KLfuCache_linked_init) (simp add: KLfuCache_minOK_def KLfuCache_init_def)
qed

text \<open>
  A call on a consistent cache returns and leaves no more entries than the capacity;
  the cache is consistent again if some frequency is below \<^verbatim>\<open>INT8_MAX\<close> afterwards.
\<close>

lemma KLfuCache_put_step:
  assumes c: "KLfuCache_consistent s"
  shows "\<exists>s'. KLfuCache_put s k v = Some s' \<and> lfu_capacity s' = lfu_capacity s
     \<and> int (umap_size (lfu_nodeMap s')) \<le> lfu_capacity s'
     \<and> (KLfuCache_below s' \<longrightarrow> KLfuCache_consistent s')"
proof -
  from c have safe: "KLfuCache_safe s" and l: "KLfuCache_linked s" and mo: "KLfuCache_minOK s"
    and M: "0 \<le> lfu_maxAverageNum s" and cap: "0 \<le> lfu_capacity s"
    and sz: "int (umap_size (lfu_nodeMap s)) \<le> lfu_capacity s"
    by (simp_all add: KLfuCache_consistent_def)
  show ?thesis
  proof (cases "lfu_capacity s = 0")
    case True
    with c sz show ?thesis by (simp add: KLfuCache_put_def)
  next
    case False
    with cap have pos: "0 < lfu_capacity s" by simp
    show ?thesis
    proof (cases "umap_find (lfu_nodeMap s) k")
      case None
      with False have e: "KLfuCache_put s k v = KLfuCache_putInternal s k v"
        by (simp add: KLfuCache_put_def)
      from putInternal_step[OF safe l mo None M pos sz, of v] obtain s' where
        r: "KLfuCache_putInternal s k v = Some s'" and s': "KLfuCache_safe s'"
        "KLfuCache_linked s'" "KLfuCache_minOK s'"
        "int (umap_size (lfu_nodeMap s')) \<le> lfu_capacity s'"
        "lfu_capacity s' = lfu_capacity s" "lfu_maxAverageNum s' = lfu_maxAverageNum s"
        by blast
      have "KLfuCache_consistent s'"
        unfolding KLfuCache_consistent_def using s' M cap by simp
      with r s' show ?thesis unfolding e by blast
    next
      case (Some node)
      define node1 where "node1 = node\<lparr>fnode_value := v\<rparr>"
      define s1 where "s1 = s\<lparr>lfu_nodeMap := umap_assign k node1 (lfu_nodeMap s)\<rparr>"
      have safe1: "KLfuCache_safe s1"
        unfolding s1_def node1_def by (rule safe_set_value[OF safe Some])
      have l1: "KLfuCache_linked s1"
        unfolding s1_def node1_def by (rule linked_set_value[OF l Some])
      from Some have ne: "lfu_nodeMap s \<noteq> []" by auto
      have mo1: "KLfuCache_minOK s1"
        using mo ne by (simp add: s1_def KLfuCache_minOK_def KLfuCache_bucket_def)
      have k1: "umap_find (lfu_nodeMap s1) k = Some node1" by (simp add: s1_def)
      have sz1: "umap_size (lfu_nodeMap s1) = umap_size (lfu_nodeMap s)"
        using Some by (simp add: s1_def umap_size_assign)
      have e: "KLfuCache_put s k v = map_option fst (KLfuCache_getInternal s1 k node1)"
        using False Some by (simp add: KLfuCache_put_def Let_def s1_def node1_def)
      from getInternal_step[OF safe1 l1 mo1 k1] obtain s' where
        r: "KLfuCache_getInternal s1 k node1 = Some (s', fnode_value node1)"
        and s': "KLfuCache_safe s'" "KLfuCache_linked s'"
        "lfu_capacity s' = lfu_capacity s1" "lfu_maxAverageNum s' = lfu_maxAverageNum s1"
        "umap_size (lfu_nodeMap s') = umap_size (lfu_nodeMap s1)"
        and b: "KLfuCache_below s' \<longrightarrow> KLfuCache_minOK s'"
        by blast
      have fr: "lfu_capacity s' = lfu_capacity s" "lfu_maxAverageNum s' = lfu_maxAverageNum s"
        "umap_size (lfu_nodeMap s') = umap_size (lfu_nodeMap s)"
        using s' sz1 by (simp_all add: s1_def)
      have "KLfuCache_below s' \<longrightarrow> KLfuCache_consistent s'"
        unfolding KLfuCache_consistent_def using s'(1,2) b fr M cap sz by simp
      then show ?thesis unfolding e r using fr sz by simp
    qed
  qed
qed

lemma KLfuCache_get_step:
  assumes c: "KLfuCache_consistent s"
  shows "\<exists>s' r. KLfuCache_get s k = Some (s', r) \<and> lfu_capacity s' = lfu_capacity s
     \<and> int (umap_size (lfu_nodeMap s')) \<le> lfu_capacity s'
     \<and> (KLfuCache_below s' \<longrightarrow> KLfuCache_consistent s')"
proof -
  from c have safe: "KLfuCache_safe s" and l: "KLfuCache_linked s" and mo: "KLfuCache_minOK s"
    and M: "0 \<le> lfu_maxAverageNum s" and cap: "0 \<le> lfu_capacity s"
    and sz: "int (umap_size (lfu_nodeMap s)) \<le> lfu_capacity s"
    by (simp_all add: KLfuCache_consistent_def)
  show ?thesis
  proof (cases "umap_find (lfu_nodeMap s) k")
    case None
    with c sz show ?thesis by (simp add: KLfuCache_get_def)
  next
    case (Some node)
    from getInternal_step[OF safe l mo Some] obtain s' where
      r: "KLfuCache_getInternal s k node = Some (s', fnode_value node)"
      and s': "KLfuCache_safe s'" "KLfuCache_linked s'"
      "lfu_capacity s' = lfu_capacity s" "lfu_maxAverageNum s' = lfu_maxAverageNum s"
      "umap_size (lfu_nodeMap s') = umap_size (lfu_nodeMap s)"
      and b: "KLfuCache_below s' \<longrightarrow> KLfuCache_minOK s'"
      by blast
    have "KLfuCache_below s' \<longrightarrow> KLfuCache_consistent s'"
      unfolding KLfuCache_consistent_def using s' b M cap sz by simp
    then show ?thesis using Some r s' sz by (simp add: KLfuCache_get_def)
  qed
qed

lemma KLfuCache_run_Cons:
  "KLfuCache_run s (op # ops) =
     (case KLfuCache_run s [op] of None \<Rightarrow> None | Some s1 \<Rightarrow> KLfuCache_run s1 ops)"
  by (cases op) (simp_all split: option.splits)

lemma KLfuCache_run_below_Nil:
  assumes "KLfuCache_run_below s ops"
  shows "KLfuCache_below s"
proof -
  have "0 \<in> set [0..<Suc (length ops)]" by (simp del: upt_Suc)
  with assms have "case KLfuCache_run s (take 0 ops) of None \<Rightarrow> True
      | Some s' \<Rightarrow> KLfuCache_below s'"
    unfolding KLfuCache_run_below_def list_all_iff by blast
  then show ?thesis by simp
qed

lemma KLfuCache_run_below_Cons:
  assumes b: "KLfuCache_run_below s (op # ops)" and r: "KLfuCache_run s [op] = Some s1"
  shows "KLfuCache_run_below s1 ops"
  unfolding KLfuCache_run_below_def list_all_iff
proof
  fix n assume "n \<in> set [0..<Suc (length ops)]"
  then have "Suc n \<in> set [0..<Suc (length (op # ops))]" by (simp del: upt_Suc)
  with b have "case KLfuCache_run s (take (Suc n) (op # ops)) of None \<Rightarrow> True
      | Some s' \<Rightarrow> KLfuCache_below s'"
    unfolding KLfuCache_run_below_def list_all_iff by blast
  moreover have "KLfuCache_run s (take (Suc n) (op # ops)) = KLfuCache_run s1 (take n ops)"
    using KLfuCache_run_Cons[of s op "take n ops"] r by simp
  ultimately show "case KLfuCache_run s1 (take n ops) of None \<Rightarrow> True
      | Some s' \<Rightarrow> KLfuCache_below s'" by simp
qed

lemma KLfuCache_run_consistent:
  assumes "KLfuCache_consistent s" "KLfuCache_run_below s ops"
  shows "\<exists>s'. KLfuCache_run s ops = Some s' \<and> KLfuCache_consistent s'
     \<and> lfu_capacity s' = lfu_capacity s"
  using assms
proof (induction ops arbitrary: s)
  case Nil
  then show ?case by simp
next
  case (Cons op ops)
  have "\<exists>s1. KLfuCache_run s [op] = Some s1 \<and> lfu_capacity s1 = lfu_capacity s
     \<and> (KLfuCache_below s1 \<longrightarrow> KLfuCache_consistent s1)"
  proof (cases op)
    case (Put k v)
    from KLfuCache_put_step[OF Cons.prems(1), of k v] Put show ?thesis by auto
  next
    case (Get k)
    from KLfuCache_get_step[OF Cons.prems(1), of k] Get show ?thesis by auto
  next
    case (GetMain k)
    from KLfuCache_get_step[OF Cons.prems(1), of k] GetMain show ?thesis by auto
  qed
  then obtain s1 where r: "KLfuCache_run s [op] = Some s1"
    and cp: "lfu_capacity s1 = lfu_capacity s"
    and b: "KLfuCache_below s1 \<longrightarrow> KLfuCache_consistent s1" by blast
  have rb: "KLfuCache_run_below s1 ops" by (rule KLfuCache_run_below_Cons[OF Cons.prems(2) r])
  from b KLfuCache_run_below_Nil[OF rb] have c1: "KLfuCache_consistent s1" by simp
  from Cons.IH[OF c1 rb] obtain s' where "KLfuCache_run s1 ops = Some s'"
    "KLfuCache_consistent s'" "lfu_capacity s' = lfu_capacity s1" by blast
  then show ?case using r cp by (simp add: KLfuCache_run_Cons[of s op ops])
qed

end
